(* ===== verification/Prelude.thy ===== *)
theory Prelude
  imports Main "HOL-Library.Word" "HOL-Library.List_Lexorder" "HOL-Library.Product_Lexorder"
begin

text \<open>
  Shared vocabulary of the development: bytes and their big-endian integers, the two result
  types of the code (a plain \<open>Result\<close> and a state transformer whose state survives an error),
  ordered maps as strictly sorted association lists (Rust's \<open>BTreeMap\<close>), and the facts on the
  lexicographic order of byte strings that every key comparison of the store comes down to.
\<close>

named_theorems codec_simps "round trips and widths of the byte encodings"
named_theorems order_simps "order of encoded keys"
named_theorems triple_rules "Hoare triples of the stateful operations"

section \<open>Results\<close>

text \<open>\<open>Result<T, E>\<close> is \<open>'e + 'a\<close>; the \<open>?\<close> operator is \<open>and_then\<close>.\<close>

definition and_then :: "'e + 'a \<Rightarrow> ('a \<Rightarrow> 'e + 'b) \<Rightarrow> 'e + 'b" where
  "and_then r f = (case r of Inl e \<Rightarrow> Inl e | Inr x \<Rightarrow> f x)"

lemma and_then_simps [simp]:
  "and_then (Inl e) f = Inl e"
  "and_then (Inr x) f = f x"
  by (simp_all add: and_then_def)

lemma and_then_eq_Inr [simp]:
  "and_then r f = Inr y \<longleftrightarrow> (\<exists>x. r = Inr x \<and> f x = Inr y)"
  by (cases r) auto

lemma and_then_assoc: "and_then (and_then r f) g = and_then r (\<lambda>x. and_then (f x) g)"
  by (cases r) auto

text \<open>\<open>map_err\<close> of the code, and \<open>collect::<Result<Vec<_>>>\<close>: the first error stops the loop.\<close>

definition map_err :: "('e \<Rightarrow> 'f) \<Rightarrow> 'e + 'a \<Rightarrow> 'f + 'a" where
  "map_err h r = (case r of Inl e \<Rightarrow> Inl (h e) | Inr x \<Rightarrow> Inr x)"

lemma map_err_simps [simp]:
  "map_err h (Inl e) = Inl (h e)"
  "map_err h (Inr x) = Inr x"
  by (simp_all add: map_err_def)

lemma map_err_eq_Inr [simp]: "map_err h r = Inr x \<longleftrightarrow> r = Inr x"
  by (cases r) auto

fun collect_results :: "('a \<Rightarrow> 'e + 'b) \<Rightarrow> 'a list \<Rightarrow> 'e + 'b list" where
  "collect_results f [] = Inr []"
| "collect_results f (x # xs) =
     and_then (f x) (\<lambda>y. and_then (collect_results f xs) (\<lambda>ys. Inr (y # ys)))"

lemma collect_results_Inr:
  "collect_results f xs = Inr ys \<longleftrightarrow> list_all2 (\<lambda>x y. f x = Inr y) xs ys"
  by (induction xs arbitrary: ys) (auto simp: list_all2_Cons1)

lemma collect_results_cong [fundef_cong]:
  "xs = ys \<Longrightarrow> (\<And>x. x \<in> set ys \<Longrightarrow> f x = g x) \<Longrightarrow> collect_results f xs = collect_results g ys"
  by (induction xs arbitrary: ys) auto

section \<open>State and error: actions\<close>

text \<open>
  An operation inside a write transaction changes a state and may fail. The state reached when
  it fails is kept: the atomic counters of the engine are not rolled back with the transaction.
\<close>

type_synonym ('s, 'e, 'a) act = "'s \<Rightarrow> ('e + 'a) \<times> 's"

definition act_return :: "'a \<Rightarrow> ('s, 'e, 'a) act" where
  "act_return x = (\<lambda>s. (Inr x, s))"

definition act_fail :: "'e \<Rightarrow> ('s, 'e, 'a) act" where
  "act_fail e = (\<lambda>s. (Inl e, s))"

definition act_bind :: "('s, 'e, 'a) act \<Rightarrow> ('a \<Rightarrow> ('s, 'e, 'b) act) \<Rightarrow> ('s, 'e, 'b) act" where
  "act_bind m f = (\<lambda>s. case m s of (Inl e, s') \<Rightarrow> (Inl e, s') | (Inr x, s') \<Rightarrow> f x s')"

definition act_then :: "('s, 'e, 'a) act \<Rightarrow> ('s, 'e, 'b) act \<Rightarrow> ('s, 'e, 'b) act" where
  "act_then m k = act_bind m (\<lambda>_. k)"

text \<open>Reading from the state with a fallible function.\<close>

definition act_read :: "('s \<Rightarrow> 'e + 'a) \<Rightarrow> ('s, 'e, 'a) act" where
  "act_read f = (\<lambda>s. (f s, s))"

text \<open>Changing the state with a function that cannot fail.\<close>

definition act_modify :: "('s \<Rightarrow> 's) \<Rightarrow> ('s, 'e, unit) act" where
  "act_modify f = (\<lambda>s. (Inr (), f s))"

text \<open>Changing the state with a fallible function: on an error the state stays.\<close>

definition act_update :: "('s \<Rightarrow> 'e + 's) \<Rightarrow> ('s, 'e, unit) act" where
  "act_update f = (\<lambda>s. case f s of Inl e \<Rightarrow> (Inl e, s) | Inr s' \<Rightarrow> (Inr (), s'))"

text \<open>A \<open>for\<close> loop whose body may fail.\<close>

fun act_for :: "'a list \<Rightarrow> ('a \<Rightarrow> ('s, 'e, unit) act) \<Rightarrow> ('s, 'e, unit) act" where
  "act_for [] f = act_return ()"
| "act_for (x # xs) f = act_then (f x) (act_for xs f)"

lemmas act_defs = act_return_def act_fail_def act_bind_def act_then_def act_read_def
  act_modify_def act_update_def

section \<open>Hoare triples for actions\<close>

text \<open>
  \<open>triple P m Q E\<close>: started in a state with \<open>P\<close>, the action either returns with \<open>Q\<close> or fails
  in a state with \<open>E\<close>.
\<close>

definition triple ::
  "('s \<Rightarrow> bool) \<Rightarrow> ('s, 'e, 'a) act \<Rightarrow> ('a \<Rightarrow> 's \<Rightarrow> bool) \<Rightarrow> ('s \<Rightarrow> bool) \<Rightarrow> bool" where
  "triple P m Q E \<longleftrightarrow>
     (\<forall>s. P s \<longrightarrow> (case m s of (Inr x, s') \<Rightarrow> Q x s' | (Inl _, s') \<Rightarrow> E s'))"

lemma tripleI:
  assumes "\<And>s x s'. P s \<Longrightarrow> m s = (Inr x, s') \<Longrightarrow> Q x s'"
    and "\<And>s e s'. P s \<Longrightarrow> m s = (Inl e, s') \<Longrightarrow> E s'"
  shows "triple P m Q E"
  using assms by (auto simp: triple_def split: prod.splits sum.splits)

lemma triple_Inr: "triple P m Q E \<Longrightarrow> P s \<Longrightarrow> m s = (Inr x, s') \<Longrightarrow> Q x s'"
  by (force simp: triple_def)

lemma triple_Inl: "triple P m Q E \<Longrightarrow> P s \<Longrightarrow> m s = (Inl e, s') \<Longrightarrow> E s'"
  by (force simp: triple_def)

lemma triple_return: "(\<And>s. P s \<Longrightarrow> Q x s) \<Longrightarrow> triple P (act_return x) Q E"
  by (simp add: triple_def act_return_def)

lemma triple_fail: "(\<And>s. P s \<Longrightarrow> E s) \<Longrightarrow> triple P (act_fail e) Q E"
  by (simp add: triple_def act_fail_def)

lemma triple_bind:
  assumes "triple P m R E" and "\<And>x. triple (R x) (f x) Q E"
  shows "triple P (act_bind m f) Q E"
  unfolding triple_def act_bind_def
proof (intro allI impI)
  fix s assume "P s"
  with assms(1) have m: "case m s of (Inr x, s') \<Rightarrow> R x s' | (Inl _, s') \<Rightarrow> E s'"
    by (simp add: triple_def)
  obtain r s' where ms: "m s = (r, s')" by force
  show "case (case m s of (Inl e, s') \<Rightarrow> (Inl e, s') | (Inr x, s') \<Rightarrow> f x s') of
          (Inr x, s') \<Rightarrow> Q x s' | (Inl _, s') \<Rightarrow> E s'"
  proof (cases r)
    case (Inl e) with m ms show ?thesis by simp
  next
    case (Inr x) with m ms have "R x s'" by simp
    with assms(2)[of x] ms Inr show ?thesis by (simp add: triple_def)
  qed
qed

lemma triple_then:
  "triple P m (\<lambda>_. R) E \<Longrightarrow> triple R k Q E \<Longrightarrow> triple P (act_then m k) Q E"
  unfolding act_then_def by (rule triple_bind) auto

lemma triple_weaken:
  "triple P' m Q' E' \<Longrightarrow> (\<And>s. P s \<Longrightarrow> P' s) \<Longrightarrow> (\<And>x s. Q' x s \<Longrightarrow> Q x s) \<Longrightarrow>
   (\<And>s. E' s \<Longrightarrow> E s) \<Longrightarrow> triple P m Q E"
  unfolding triple_def by (fastforce split: prod.splits sum.splits)

lemma triple_for:
  assumes "\<And>x. x \<in> set xs \<Longrightarrow> triple I (f x) (\<lambda>_. I) E"
  shows "triple I (act_for xs f) (\<lambda>_. I) E"
  using assms
proof (induction xs)
  case Nil
  show ?case by (simp add: triple_return)
next
  case (Cons x xs)
  from Cons.prems have "triple I (f x) (\<lambda>_. I) E" by simp
  moreover from Cons have "triple I (act_for xs f) (\<lambda>_. I) E" by simp
  ultimately show ?case by (simp add: triple_then)
qed

text \<open>An action whose every run keeps a relation between the start and the end state.\<close>

definition keeps :: "('s \<Rightarrow> 's \<Rightarrow> bool) \<Rightarrow> ('s, 'e, 'a) act \<Rightarrow> bool" where
  "keeps R m \<longleftrightarrow> (\<forall>s. R s (snd (m s)))"

lemma keeps_return [simp]: "reflp R \<Longrightarrow> keeps R (act_return x)"
  by (simp add: keeps_def act_return_def reflp_def)

lemma keeps_fail [simp]: "reflp R \<Longrightarrow> keeps R (act_fail x)"
  by (simp add: keeps_def act_fail_def reflp_def)

lemma keeps_read [simp]: "reflp R \<Longrightarrow> keeps R (act_read f)"
  by (simp add: keeps_def act_read_def reflp_def)

lemma keeps_bind:
  "transp R \<Longrightarrow> keeps R m \<Longrightarrow> (\<And>x. keeps R (f x)) \<Longrightarrow> keeps R (act_bind m f)"
  by (auto simp: keeps_def act_bind_def transp_def split: prod.splits sum.splits) (metis snd_conv)+

lemma keeps_then: "transp R \<Longrightarrow> keeps R m \<Longrightarrow> keeps R k \<Longrightarrow> keeps R (act_then m k)"
  by (simp add: act_then_def keeps_bind)

lemma keeps_for:
  "reflp R \<Longrightarrow> transp R \<Longrightarrow> (\<And>x. x \<in> set xs \<Longrightarrow> keeps R (f x)) \<Longrightarrow> keeps R (act_for xs f)"
  by (induction xs) (auto simp: keeps_then)

section \<open>Lexicographic order of lists\<close>

text \<open>
  \<open>&[u8]\<close> and LMDB's \<open>memcmp\<close> compare byte strings lexicographically, a proper prefix first:
  the order of \<open>List_Lexorder\<close>.
\<close>

lemma lex_append_same [simp]: "(xs @ ys < xs @ zs) = (ys < (zs :: 'a::linorder list))"
  by (induction xs) auto

lemma lex_append_same_le [simp]: "(xs @ ys \<le> xs @ zs) = (ys \<le> (zs :: 'a::linorder list))"
  by (induction xs) auto

lemma lex_Nil_less [simp]: "[] < xs \<longleftrightarrow> xs \<noteq> ([] :: 'a::linorder list)"
  by (cases xs) auto

lemma lex_append_block:
  fixes a b :: "'a::linorder list"
  assumes "length a = length b"
  shows "a @ x < b @ y \<longleftrightarrow> a < b \<or> (a = b \<and> x < y)"
  using assms by (induction a b rule: list_induct2) auto

lemma lex_append_block_le:
  fixes a b :: "'a::linorder list"
  assumes "length a = length b"
  shows "a @ x \<le> b @ y \<longleftrightarrow> a < b \<or> (a = b \<and> x \<le> y)"
  using assms by (induction a b rule: list_induct2) auto

lemma lex_prefix_le: "xs \<le> xs @ (ys :: 'a::linorder list)"
  by (induction xs) auto

lemma lex_prefix_less: "ys \<noteq> [] \<Longrightarrow> xs < xs @ (ys :: 'a::linorder list)"
  by (induction xs) (auto simp: neq_Nil_conv)

text \<open>
  \<open>diverge u v\<close>: the two strings differ at some position inside both, and the first has the
  smaller element there. Such a comparison is not changed by appending anything to either.
\<close>

fun diverge :: "'a::linorder list \<Rightarrow> 'a list \<Rightarrow> bool" where
  "diverge (x # xs) (y # ys) \<longleftrightarrow> x < y \<or> (x = y \<and> diverge xs ys)"
| "diverge _ _ \<longleftrightarrow> False"

lemma diverge_append: "diverge u v \<Longrightarrow> diverge (u @ x) (v @ y)"
  by (induction u v rule: diverge.induct) auto

lemma diverge_less: "diverge u v \<Longrightarrow> u < v"
  by (induction u v rule: diverge.induct) auto

lemma diverge_append_less: "diverge u v \<Longrightarrow> u @ x < v @ y"
  by (rule diverge_less, rule diverge_append)

lemma diverge_same_prefix [simp]: "diverge (p @ u) (p @ v) = diverge u v"
  by (induction p) auto

lemma less_diverge_same_length: "u < v \<Longrightarrow> length u = length v \<Longrightarrow> diverge u v"
  by (induction u v rule: diverge.induct) auto

lemma less_diverge_shorter: "u < v \<Longrightarrow> length v \<le> length u \<Longrightarrow> diverge u v"
  by (induction u v rule: diverge.induct) auto

lemma diverge_asym: "diverge u v \<Longrightarrow> \<not> diverge v u"
  by (induction u v rule: diverge.induct) auto

lemma not_diverge_refl [simp]: "\<not> diverge u u"
  by (induction u) auto

lemma drop_take_append_drop: "m \<le> n \<Longrightarrow> drop m (take n b) @ drop n b = drop m b"
  using append_take_drop_id[of "n - m" "drop m b"] by (simp add: drop_take)

section \<open>Bytes and big-endian integers\<close>

type_synonym byte = "8 word"
type_synonym bytes = "byte list"

text \<open>\<open>to_be_bytes\<close> of an unsigned integer of \<open>k\<close> bytes and \<open>from_be_bytes\<close>.\<close>

fun to_be :: "nat \<Rightarrow> nat \<Rightarrow> bytes" where
  "to_be 0 n = []"
| "to_be (Suc k) n = word_of_nat (n div 256 ^ k) # to_be k (n mod 256 ^ k)"

fun from_be :: "bytes \<Rightarrow> nat" where
  "from_be [] = 0"
| "from_be (b # bs) = unat b * 256 ^ length bs + from_be bs"

lemma length_to_be [simp]: "length (to_be k n) = k"
  by (induction k arbitrary: n) auto

lemma from_be_bound: "from_be bs < 256 ^ length bs"
proof (induction bs)
  case Nil
  then show ?case by simp
next
  case (Cons b bs)
  have "unat b < 256" using unsigned_less[of b, where ?'a = nat] by simp
  then have "unat b + 1 \<le> 256" by simp
  then have "(unat b + 1) * 256 ^ length bs \<le> 256 * 256 ^ length bs" by (rule mult_le_mono1)
  moreover have "(unat b + 1) * 256 ^ length bs = unat b * 256 ^ length bs + 256 ^ length bs"
    by simp
  moreover have "(256 :: nat) * 256 ^ length bs = 256 ^ length (b # bs)" by simp
  ultimately show ?case using Cons.IH unfolding from_be.simps by linarith
qed

lemma unat_byte_of_nat: "n < 256 \<Longrightarrow> unat (word_of_nat n :: byte) = n"
  by (simp add: unat_of_nat)

lemma from_be_to_be [simp]: "n < 256 ^ k \<Longrightarrow> from_be (to_be k n) = n"
proof (induction k arbitrary: n)
  case 0
  then show ?case by simp
next
  case (Suc k)
  have "n div 256 ^ k < 256" using Suc.prems by (simp add: less_mult_imp_div_less)
  moreover have "n mod 256 ^ k < 256 ^ k" by simp
  ultimately show ?case using Suc.IH[of "n mod 256 ^ k"]
    by (simp add: unat_byte_of_nat del: div_mult_mod_eq) (rule div_mult_mod_eq)
qed

lemma to_be_from_be [simp]: "to_be (length bs) (from_be bs) = bs"
proof (induction bs)
  case Nil
  then show ?case by simp
next
  case (Cons b bs)
  have "(unat b * 256 ^ length bs + from_be bs) div 256 ^ length bs = unat b"
    using from_be_bound[of bs] by (simp add: div_mult_self3 add.commute)
  moreover have "(unat b * 256 ^ length bs + from_be bs) mod 256 ^ length bs = from_be bs"
    using from_be_bound[of bs] by simp
  ultimately show ?case using Cons by simp
qed

lemma to_be_inject: "m < 256 ^ k \<Longrightarrow> n < 256 ^ k \<Longrightarrow> to_be k m = to_be k n \<longleftrightarrow> m = n"
  by (metis from_be_to_be)

lemma to_be_less: "m < 256 ^ k \<Longrightarrow> n < 256 ^ k \<Longrightarrow> to_be k m < to_be k n \<longleftrightarrow> m < n"
proof (induction k arbitrary: m n)
  case 0
  then show ?case by simp
next
  case (Suc k)
  let ?B = "256 ^ k :: nat"
  have hi: "m div ?B < 256" "n div ?B < 256"
    using Suc.prems by (simp_all add: less_mult_imp_div_less)
  have lo: "m mod ?B < ?B" "n mod ?B < ?B" by simp_all
  have w: "(word_of_nat (m div ?B) :: byte) < word_of_nat (n div ?B) \<longleftrightarrow> m div ?B < n div ?B"
    "(word_of_nat (m div ?B) :: byte) = word_of_nat (n div ?B) \<longleftrightarrow> m div ?B = n div ?B"
    using hi by (simp_all add: word_less_nat_alt word_unat_eq_iff unat_byte_of_nat)
  have "m < n \<longleftrightarrow> m div ?B < n div ?B \<or> m div ?B = n div ?B \<and> m mod ?B < n mod ?B"
  proof (cases "m div ?B = n div ?B")
    case True
    then show ?thesis
      using div_mult_mod_eq[of m ?B] div_mult_mod_eq[of n ?B]
      by (metis add_less_cancel_left less_irrefl)
  next
    case False
    then show ?thesis
      using div_le_mono[of m n ?B] div_le_mono[of n m ?B] by linarith
  qed
  with w Suc.IH[OF lo] show ?case by simp
qed

text \<open>The two unsigned widths of the code, \<open>u64\<close> and \<open>u128\<close>.\<close>

type_synonym u64 = "64 word"
type_synonym u128 = "128 word"

definition u64_to_be :: "u64 \<Rightarrow> bytes" where
  "u64_to_be w = to_be 8 (unat w)"

definition u64_from_be :: "bytes \<Rightarrow> u64" where
  "u64_from_be bs = word_of_nat (from_be bs)"

definition u128_to_be :: "u128 \<Rightarrow> bytes" where
  "u128_to_be w = to_be 16 (unat w)"

definition u128_from_be :: "bytes \<Rightarrow> u128" where
  "u128_from_be bs = word_of_nat (from_be bs)"

lemma u64_bound: "unat (w :: u64) < 256 ^ 8"
  using unsigned_less[of w, where ?'a = nat] by simp

lemma u128_bound: "unat (w :: u128) < 256 ^ 16"
  using unsigned_less[of w, where ?'a = nat] by simp

lemma length_u64_to_be [simp]: "length (u64_to_be w) = 8"
  by (simp add: u64_to_be_def)

lemma length_u128_to_be [simp]: "length (u128_to_be w) = 16"
  by (simp add: u128_to_be_def)

lemma u64_from_to_be [simp]: "u64_from_be (u64_to_be w) = w"
  by (simp add: u64_from_be_def u64_to_be_def from_be_to_be[OF u64_bound])

lemma u128_from_to_be [simp]: "u128_from_be (u128_to_be w) = w"
  by (simp add: u128_from_be_def u128_to_be_def from_be_to_be[OF u128_bound])

lemma u64_to_from_be [simp]: "length bs = 8 \<Longrightarrow> u64_to_be (u64_from_be bs) = bs"
  using from_be_bound[of bs] to_be_from_be[of bs]
  by (simp add: u64_from_be_def u64_to_be_def unat_of_nat)

lemma u128_to_from_be [simp]: "length bs = 16 \<Longrightarrow> u128_to_be (u128_from_be bs) = bs"
  using from_be_bound[of bs] to_be_from_be[of bs]
  by (simp add: u128_from_be_def u128_to_be_def unat_of_nat)

lemma u64_to_be_inject [simp]: "u64_to_be v = u64_to_be w \<longleftrightarrow> v = w"
  by (metis u64_from_to_be)

lemma u128_to_be_inject [simp]: "u128_to_be v = u128_to_be w \<longleftrightarrow> v = w"
  by (metis u128_from_to_be)

lemma u64_to_be_less [order_simps]: "u64_to_be v < u64_to_be w \<longleftrightarrow> v < w"
  by (simp add: u64_to_be_def to_be_less[OF u64_bound u64_bound] word_less_nat_alt)

lemma u128_to_be_less [order_simps]: "u128_to_be v < u128_to_be w \<longleftrightarrow> v < w"
  by (simp add: u128_to_be_def to_be_less[OF u128_bound u128_bound] word_less_nat_alt)

lemma u64_to_be_le [order_simps]: "u64_to_be v \<le> u64_to_be w \<longleftrightarrow> v \<le> w"
  using u64_to_be_less[of w v] by (simp add: linorder_not_less[symmetric])

lemma u128_to_be_le [order_simps]: "u128_to_be v \<le> u128_to_be w \<longleftrightarrow> v \<le> w"
  using u128_to_be_less[of w v] by (simp add: linorder_not_less[symmetric])

lemma u64_to_be_not_Nil [simp]: "u64_to_be w \<noteq> []"
  using length_u64_to_be[of w] by fastforce

lemma u128_to_be_not_Nil [simp]: "u128_to_be w \<noteq> []"
  using length_u128_to_be[of w] by fastforce

section \<open>Ordered maps\<close>

text \<open>
  \<open>BTreeMap<K, V>\<close> is a list of pairs, strictly increasing in the key: \<open>bt_ok\<close>. Iteration is
  the list itself, \<open>get\<close> is \<open>map_of\<close>.
\<close>

type_synonym ('k, 'v) btree = "('k \<times> 'v) list"

definition bt_ok :: "('k::linorder, 'v) btree \<Rightarrow> bool" where
  "bt_ok t \<longleftrightarrow> sorted_wrt (<) (map fst t)"

fun bt_insert :: "'k::linorder \<Rightarrow> 'v \<Rightarrow> ('k, 'v) btree \<Rightarrow> ('k, 'v) btree" where
  "bt_insert k v [] = [(k, v)]"
| "bt_insert k v ((k', v') # t) =
     (if k < k' then (k, v) # (k', v') # t
      else if k = k' then (k, v) # t
      else (k', v') # bt_insert k v t)"

fun bt_delete :: "'k::linorder \<Rightarrow> ('k, 'v) btree \<Rightarrow> ('k, 'v) btree" where
  "bt_delete k [] = []"
| "bt_delete k ((k', v') # t) = (if k = k' then t else (k', v') # bt_delete k t)"

lemma bt_ok_Nil [simp]: "bt_ok []"
  by (simp add: bt_ok_def)

lemma bt_ok_Cons: "bt_ok ((k, v) # t) \<longleftrightarrow> (\<forall>k' \<in> set (map fst t). k < k') \<and> bt_ok t"
  by (simp add: bt_ok_def)

lemma bt_ok_distinct: "bt_ok t \<Longrightarrow> distinct (map fst t)"
  unfolding bt_ok_def by (induction t) fastforce+

lemma fst_bt_insert [simp]: "fst ` set (bt_insert k v t) = insert k (fst ` set t)"
  by (induction k v t rule: bt_insert.induct) auto

lemma set_bt_insert_subset: "set (bt_insert k v t) \<subseteq> insert (k, v) (set t)"
  by (induction k v t rule: bt_insert.induct) auto

lemma bt_ok_insert [simp]: "bt_ok t \<Longrightarrow> bt_ok (bt_insert k v t)"
  by (induction k v t rule: bt_insert.induct) (force simp: bt_ok_Cons)+

lemma map_of_bt_insert [simp]: "map_of (bt_insert k v t) = (map_of t)(k \<mapsto> v)"
  by (induction t) (auto simp: fun_eq_iff)

lemma bt_ok_notin: "bt_ok ((k, v) # t) \<Longrightarrow> map_of t k = None"
  by (force simp: bt_ok_Cons map_of_eq_None_iff)

lemma map_of_bt_delete: "bt_ok t \<Longrightarrow> map_of (bt_delete k t) = (map_of t)(k := None)"
proof (induction t)
  case Nil
  then show ?case by simp
next
  case (Cons p t)
  obtain k' v' where p: "p = (k', v')" by force
  with Cons bt_ok_notin[of k' v' t] show ?case
    by (auto simp: fun_eq_iff bt_ok_Cons)
qed

lemma set_bt_delete_subset: "set (bt_delete k t) \<subseteq> set t"
  by (induction k t rule: bt_delete.induct) auto

lemma bt_ok_delete [simp]: "bt_ok t \<Longrightarrow> bt_ok (bt_delete k t)"
proof (induction t)
  case (Cons p t)
  then show ?case
    using set_bt_delete_subset[of k t] by (cases p) (fastforce simp: bt_ok_Cons)
qed simp

lemma bt_ok_map_of: "bt_ok t \<Longrightarrow> map_of t k = Some v \<longleftrightarrow> (k, v) \<in> set t"
  by (simp add: bt_ok_distinct)

text \<open>A strictly sorted association list is determined by its entries.\<close>

lemma bt_ok_unique:
  assumes "bt_ok s" "bt_ok t" "map_of s = map_of t"
  shows "s = t"
proof -
  have "set s = set t"
    using assms bt_ok_map_of[OF assms(1)] bt_ok_map_of[OF assms(2)] by auto
  moreover have "sorted (map fst s)" "sorted (map fst t)"
    using assms(1,2) by (simp_all add: bt_ok_def strict_sorted_imp_sorted)
  moreover have "distinct (map fst s)" "distinct (map fst t)"
    using assms(1,2) by (simp_all add: bt_ok_distinct)
  moreover from \<open>set s = set t\<close> have "set (map fst s) = set (map fst t)" by simp
  ultimately have keys: "map fst s = map fst t" by (metis sorted_distinct_set_unique)
  have "s = map (\<lambda>k. (k, the (map_of s k))) (map fst s)"
    using bt_ok_map_of[OF assms(1)] by (auto simp: list_eq_iff_nth_eq) (metis nth_mem option.sel prod.collapse)
  also have "\<dots> = map (\<lambda>k. (k, the (map_of t k))) (map fst t)"
    using keys assms(3) by simp
  also have "\<dots> = t"
    using bt_ok_map_of[OF assms(2)] by (auto simp: list_eq_iff_nth_eq) (metis nth_mem option.sel prod.collapse)
  finally show ?thesis .
qed

lemma map_le_Some: "m \<subseteq>\<^sub>m m' \<Longrightarrow> m k = Some v \<Longrightarrow> m' k = Some v"
  by (auto simp: map_le_def dom_def)

lemma bt_ok_filter: "bt_ok t \<Longrightarrow> bt_ok (filter P t)"
  unfolding bt_ok_def by (induction t) auto

end
