(* ===== verification/Types.thy ===== *)
theory Types
  imports Prelude
begin

text \<open>
  The types of \<open>crates/storage/src/types.rs\<close> and the error type of
  \<open>crates/storage/src/error.rs\<close>. A Rust \<open>String\<close> is the list of its UTF-8 bytes
  (\<open>rstring\<close>); \<open>as_bytes\<close> is then the identity and string comparison is byte comparison, as in
  Rust. \<open>utf8_valid\<close> is the check of \<open>std::str::from_utf8\<close>.
\<close>

section \<open>Signed 64-bit integers\<close>

text \<open>
  Collection and index ids are \<open>i64\<close>: 64 bits, compared as two's complement numbers but stored
  by \<open>to_be_bytes\<close> as the bits are.
\<close>

datatype i64 = I64 (i64_bits: u64)

definition i64_val :: "i64 \<Rightarrow> int" where
  "i64_val x = sint (i64_bits x)"

definition i64_of_int :: "int \<Rightarrow> i64" where
  "i64_of_int i = I64 (word_of_int i)"

definition i64_to_be :: "i64 \<Rightarrow> bytes" where
  "i64_to_be x = u64_to_be (i64_bits x)"

definition i64_from_be :: "bytes \<Rightarrow> i64" where
  "i64_from_be bs = I64 (u64_from_be bs)"

text \<open>\<open>checked_add(1)\<close>\<close>

definition i64_checked_succ :: "i64 \<Rightarrow> i64 option" where
  "i64_checked_succ x = (if i64_val x = 2 ^ 63 - 1 then None else Some (I64 (i64_bits x + 1)))"

lemma i64_val_inject [simp]: "i64_val x = i64_val y \<longleftrightarrow> x = y"
  by (cases x; cases y) (simp add: i64_val_def word_eq_iff_signed[where 'a = int])

instantiation i64 :: linorder
begin

definition less_eq_i64 :: "i64 \<Rightarrow> i64 \<Rightarrow> bool" where
  "less_eq_i64 x y \<longleftrightarrow> i64_val x \<le> i64_val y"

definition less_i64 :: "i64 \<Rightarrow> i64 \<Rightarrow> bool" where
  "less_i64 x y \<longleftrightarrow> i64_val x < i64_val y"

instance
proof
  fix x y :: i64
  show "x < y \<longleftrightarrow> x \<le> y \<and> \<not> y \<le> x" by (auto simp: less_eq_i64_def less_i64_def)
  show "x \<le> x" by (simp add: less_eq_i64_def)
  show "x \<le> y \<or> y \<le> x" by (auto simp: less_eq_i64_def)
  assume "x \<le> y" "y \<le> x"
  then show "x = y" by (simp add: less_eq_i64_def flip: i64_val_inject)
next
  fix x y z :: i64
  assume "x \<le> y" "y \<le> z"
  then show "x \<le> z" by (simp add: less_eq_i64_def)
qed

end

lemma length_i64_to_be [simp]: "length (i64_to_be x) = 8"
  by (simp add: i64_to_be_def)

lemma i64_from_to_be [simp]: "i64_from_be (i64_to_be x) = x"
  by (simp add: i64_from_be_def i64_to_be_def)

lemma i64_to_from_be [simp]: "length bs = 8 \<Longrightarrow> i64_to_be (i64_from_be bs) = bs"
  by (simp add: i64_from_be_def i64_to_be_def)

lemma i64_to_be_inject [simp]: "i64_to_be x = i64_to_be y \<longleftrightarrow> x = y"
  by (metis i64_from_to_be)

lemma i64_to_be_not_Nil [simp]: "i64_to_be x \<noteq> []"
  by (simp add: i64_to_be_def)

lemma sint_nonneg_uint:
  assumes "0 \<le> sint (w :: u64)"
  shows "sint w = uint w"
proof -
  have nb: "\<not> bit (uint w) 63" using assms by (simp add: sint_uint)
  have "uint w = take_bit 64 (uint w)"
    using unsigned_less[of w, where ?'a = int] by (simp add: take_bit_int_eq_self)
  also have "\<dots> = take_bit 63 (uint w)"
    using nb take_bit_Suc_from_most[of 63 "uint w"] by simp
  also have "\<dots> = sint w"
    using nb by (simp add: sint_uint signed_take_bit_eq_if_positive)
  finally show ?thesis by simp
qed

lemma i64_to_be_less_nonneg [order_simps]:
  assumes "0 \<le> i64_val x" "0 \<le> i64_val y"
  shows "i64_to_be x < i64_to_be y \<longleftrightarrow> x < y"
  using assms sint_nonneg_uint[of "i64_bits x"] sint_nonneg_uint[of "i64_bits y"]
  by (simp add: i64_to_be_def order_simps less_i64_def i64_val_def word_less_def)

text \<open>The bytes of a negative number are above those of any other.\<close>

lemma i64_to_be_less_negative:
  assumes "0 \<le> i64_val x" "i64_val y < 0"
  shows "i64_to_be x < i64_to_be y"
proof -
  have "uint (i64_bits x) < 2 ^ 63"
    using assms(1) sint_nonneg_uint[of "i64_bits x"] sint_lt[of "i64_bits x"]
    by (simp add: i64_val_def)
  moreover have "2 ^ 63 \<le> uint (i64_bits y)"
  proof (rule ccontr)
    assume "\<not> 2 ^ 63 \<le> uint (i64_bits y)"
    moreover have "- (2 ^ 63) \<le> uint (i64_bits y)" by (rule order_trans[OF _ uint_ge_0]) simp
    ultimately have "sint (i64_bits y) = uint (i64_bits y)"
      using signed_take_bit_int_eq_self[of 63 "uint (i64_bits y)"] by (simp only: sint_uint not_le) simp
    then show False using assms(2) uint_ge_0[of "i64_bits y"] by (simp add: i64_val_def)
  qed
  ultimately show ?thesis by (simp add: i64_to_be_def order_simps word_less_def)
qed

section \<open>Strings\<close>

type_synonym rstring = bytes

text \<open>A string literal of the source, which is ASCII throughout.\<close>

definition str :: "string \<Rightarrow> rstring" where
  "str s = map of_char s"

definition utf8_cont :: "byte \<Rightarrow> bool" where
  "utf8_cont b \<longleftrightarrow> 0x80 \<le> b \<and> b \<le> 0xBF"

text \<open>The well-formed sequences of the Unicode standard, as \<open>from_utf8\<close> checks them.\<close>

fun utf8_valid :: "bytes \<Rightarrow> bool" where
  "utf8_valid [] = True"
| "utf8_valid (b # bs) =
     (if b \<le> 0x7F then utf8_valid bs
      else if 0xC2 \<le> b \<and> b \<le> 0xDF then
        (case bs of c1 # r \<Rightarrow> utf8_cont c1 \<and> utf8_valid r | _ \<Rightarrow> False)
      else if 0xE0 \<le> b \<and> b \<le> 0xEF then
        (case bs of
           c1 # c2 # r \<Rightarrow>
             (if b = 0xE0 then 0xA0 \<le> c1 \<and> c1 \<le> 0xBF
              else if b = 0xED then 0x80 \<le> c1 \<and> c1 \<le> 0x9F
              else utf8_cont c1) \<and> utf8_cont c2 \<and> utf8_valid r
         | _ \<Rightarrow> False)
      else if 0xF0 \<le> b \<and> b \<le> 0xF4 then
        (case bs of
           c1 # c2 # c3 # r \<Rightarrow>
             (if b = 0xF0 then 0x90 \<le> c1 \<and> c1 \<le> 0xBF
              else if b = 0xF4 then 0x80 \<le> c1 \<and> c1 \<le> 0x8F
              else utf8_cont c1) \<and> utf8_cont c2 \<and> utf8_cont c3 \<and> utf8_valid r
         | _ \<Rightarrow> False)
      else False)"

lemma utf8_valid_ascii: "\<forall>b \<in> set bs. b \<le> 0x7F \<Longrightarrow> utf8_valid bs"
  by (induction bs) auto

section \<open>Identifiers, directions and positions\<close>

type_synonym TS = u64
type_synonym document_id = u128
type_synonym collection_id = i64
type_synonym index_id = i64

datatype direction = Forward | Reverse

datatype 'a cursor_start = Unbounded | Included 'a | Excluded 'a

text \<open>\<open>IndexPosition\<close> derives \<open>Ord\<close>: first the value, then the document id.\<close>

datatype index_position = Position (pos_value: bytes) (pos_document_id: document_id)

instantiation index_position :: linorder
begin

definition less_eq_index_position :: "index_position \<Rightarrow> index_position \<Rightarrow> bool" where
  "less_eq_index_position p q \<longleftrightarrow>
     (pos_value p, pos_document_id p) \<le> (pos_value q, pos_document_id q)"

definition less_index_position :: "index_position \<Rightarrow> index_position \<Rightarrow> bool" where
  "less_index_position p q \<longleftrightarrow>
     (pos_value p, pos_document_id p) < (pos_value q, pos_document_id q)"

instance
proof
  fix p q r :: index_position
  show "p < q \<longleftrightarrow> p \<le> q \<and> \<not> q \<le> p"
    by (auto simp: less_eq_index_position_def less_index_position_def)
  show "p \<le> p" by (simp add: less_eq_index_position_def)
  show "p \<le> q \<or> q \<le> p" by (auto simp: less_eq_index_position_def)
  show "p \<le> q \<Longrightarrow> q \<le> r \<Longrightarrow> p \<le> r"
    unfolding less_eq_index_position_def by (rule order_trans)
  show "p \<le> q \<Longrightarrow> q \<le> p \<Longrightarrow> p = q"
    unfolding less_eq_index_position_def
    by (metis antisym index_position.expand prod.inject)
qed

end

lemma less_Position [simp]: "Position v d < Position w e \<longleftrightarrow> v < w \<or> (v = w \<and> d < e)"
  by (auto simp: less_index_position_def)

lemma less_eq_Position [simp]: "Position v d \<le> Position w e \<longleftrightarrow> v < w \<or> (v = w \<and> d \<le> e)"
  by (auto simp: less_eq_index_position_def)

record document_entry =
  de_id :: document_id
  de_value :: bytes

record index_entry =
  ie_value :: bytes
  ie_document_id :: document_id
  ie_document_value :: bytes

record collection_catalog_entry =
  cce_id :: collection_id
  cce_name :: rstring
  cce_metadata :: bytes

record index_catalog_entry =
  ice_collection_id :: collection_id
  ice_id :: index_id
  ice_name :: rstring
  ice_metadata :: bytes

section \<open>Errors\<close>

text \<open>
  \<open>invalid_data\<close> builds an I/O error with a fixed message. The other errors of the storage crate
  are \<open>Error::Implementation\<close>, whose message is a format string with arguments: one constructor
  per format string. \<open>'e\<close> is \<open>heed3::Error\<close>, which the crate only wraps.
\<close>

datatype 'e implementation_error =
    Heed_source 'e
  | Not_utf8
  | Timestamp_lower TS TS
  | Collection_missing collection_id
  | Invalid_batch_collection collection_id
  | Invalid_batch_index index_id
  | Name_index_mismatch collection_id rstring

datatype 'e storage_error =
    Io_invalid_data string
  | Io_source 'e
  | Implementation "'e implementation_error"

definition from_heed :: "'e \<Rightarrow> 'e storage_error" where
  "from_heed e = Implementation (Heed_source e)"

text \<open>The \<open>?\<close> on a call into \<open>heed3\<close> converts its error.\<close>

definition heed_call :: "'e + 'a \<Rightarrow> 'e storage_error + 'a" where
  "heed_call r = map_err from_heed r"

lemma heed_call_simps [simp]:
  "heed_call (Inl e) = Inl (from_heed e)"
  "heed_call (Inr x) = Inr x"
  by (simp_all add: heed_call_def)

lemma heed_call_eq_Inr [simp]: "heed_call r = Inr x \<longleftrightarrow> r = Inr x"
  by (cases r) auto

section \<open>Key ranges\<close>

text \<open>\<open>std::ops::Bound\<close>, and the keys between two bounds.\<close>

datatype 'a bound = Bound_included 'a | Bound_excluded 'a | Bound_unbounded

fun above_bound :: "'a::linorder bound \<Rightarrow> 'a \<Rightarrow> bool" where
  "above_bound (Bound_included b) x = (b \<le> x)"
| "above_bound (Bound_excluded b) x = (b < x)"
| "above_bound Bound_unbounded x = True"

fun below_bound :: "'a::linorder bound \<Rightarrow> 'a \<Rightarrow> bool" where
  "below_bound (Bound_included b) x = (x \<le> b)"
| "below_bound (Bound_excluded b) x = (x < b)"
| "below_bound Bound_unbounded x = True"

definition in_range :: "'a::linorder bound \<Rightarrow> 'a bound \<Rightarrow> 'a \<Rightarrow> bool" where
  "in_range lo hi x \<longleftrightarrow> above_bound lo x \<and> below_bound hi x"

section \<open>Accepting a cursor start\<close>

text \<open>
  The three \<open>accepts_*_start\<close> functions and \<open>HeedIndexCursor::accepts_start\<close> are one function on
  an ordered type.
\<close>

fun accepts_start :: "'a::linorder \<Rightarrow> 'a cursor_start \<Rightarrow> direction \<Rightarrow> bool" where
  "accepts_start x Unbounded _ = True"
| "accepts_start x (Included s) Forward = (s \<le> x)"
| "accepts_start x (Excluded s) Forward = (s < x)"
| "accepts_start x (Included s) Reverse = (x \<le> s)"
| "accepts_start x (Excluded s) Reverse = (x < s)"

text \<open>\<open>compare_order\<close>: the order in which a cursor of the given direction visits keys.\<close>

fun before :: "direction \<Rightarrow> 'a::linorder \<Rightarrow> 'a \<Rightarrow> bool" where
  "before Forward x y = (x < y)"
| "before Reverse x y = (y < x)"

lemma before_irrefl [simp]: "\<not> before d x x"
  by (cases d) auto

lemma before_trans: "before d x y \<Longrightarrow> before d y z \<Longrightarrow> before d x z"
  by (cases d) auto

lemma before_linear: "before d x y \<or> x = y \<or> before d y x"
  by (cases d) auto

lemma before_asym: "before d x y \<Longrightarrow> \<not> before d y x"
  by (cases d) auto

end
