(* ===== verification/Storage_Encoding.thy ===== *)
theory Storage_Encoding
  imports Types
begin

text \<open>
  \<open>crates/storage/src/implementations/heed/encoding.rs\<close>: the byte layout of every key and value
  of the LMDB databases. The interfaces \<open>codec\<close>, \<open>exact_codec\<close> and \<open>ordered_codec\<close> state what
  the rest of the storage engine relies on, and are interpreted on the code's encodings.
\<close>

section \<open>Constants and integers\<close>

definition I64_LEN :: nat where "I64_LEN = 8"
definition U64_LEN :: nat where "U64_LEN = 8"
definition U128_LEN :: nat where "U128_LEN = 16"
definition COLLECTION_CATALOG_KEY_LEN :: nat where "COLLECTION_CATALOG_KEY_LEN = I64_LEN + U64_LEN"
definition DOCUMENT_KEY_LEN :: nat where "DOCUMENT_KEY_LEN = I64_LEN + U128_LEN + U64_LEN"
definition DOCUMENT_TOMBSTONE :: bytes where "DOCUMENT_TOMBSTONE = [0x00]"
definition DOCUMENT_VALUE_PREFIX :: byte where "DOCUMENT_VALUE_PREFIX = 0x01"
definition ROOT_INDEX_CHAIN_ID :: u64 where "ROOT_INDEX_CHAIN_ID = 0"
definition INDEX_NODE_KEY_PREFIX_LEN :: nat where "INDEX_NODE_KEY_PREFIX_LEN = I64_LEN + U64_LEN"
definition MAX_INDEX_SEGMENT_SIZE :: nat where
  "MAX_INDEX_SEGMENT_SIZE = 511 - INDEX_NODE_KEY_PREFIX_LEN"

lemmas len_defs = I64_LEN_def U64_LEN_def U128_LEN_def COLLECTION_CATALOG_KEY_LEN_def
  DOCUMENT_KEY_LEN_def INDEX_NODE_KEY_PREFIX_LEN_def

definition invalid_data :: "string \<Rightarrow> 'e storage_error" where
  "invalid_data message = Io_invalid_data message"

text \<open>\<open>fixed::<N>\<close>: a slice of exactly \<open>N\<close> bytes, or the error for that \<open>N\<close>.\<close>

definition fixed :: "nat \<Rightarrow> bytes \<Rightarrow> string \<Rightarrow> 'e storage_error + bytes" where
  "fixed n bs name =
     (if length bs = n then Inr bs
      else Inl (invalid_data
        (if n = 8 then ''stored 8-byte integer has invalid length''
         else if n = 16 then ''stored 16-byte integer has invalid length''
         else name)))"

definition decode_i64 :: "bytes \<Rightarrow> 'e storage_error + i64" where
  "decode_i64 bs = and_then (fixed 8 bs ''stored i64 value'') (\<lambda>b. Inr (i64_from_be b))"

definition decode_u64 :: "bytes \<Rightarrow> 'e storage_error + u64" where
  "decode_u64 bs = and_then (fixed 8 bs ''stored u64 value'') (\<lambda>b. Inr (u64_from_be b))"

definition decode_u128 :: "bytes \<Rightarrow> 'e storage_error + u128" where
  "decode_u128 bs = and_then (fixed 16 bs ''stored u128 value'') (\<lambda>b. Inr (u128_from_be b))"

definition decode_utf8 :: "bytes \<Rightarrow> 'e storage_error + rstring" where
  "decode_utf8 bs = (if utf8_valid bs then Inr bs else Inl (Implementation Not_utf8))"

section \<open>Keys and values\<close>

definition encode_collection_catalog_key :: "collection_id \<Rightarrow> u64 \<Rightarrow> bytes" where
  "encode_collection_catalog_key cid version = i64_to_be cid @ u64_to_be version"

definition decode_collection_catalog_key :: "bytes \<Rightarrow> 'e storage_error + collection_id \<times> u64" where
  "decode_collection_catalog_key bs =
     (if length bs \<noteq> COLLECTION_CATALOG_KEY_LEN
      then Inl (invalid_data ''collection catalog key is not 16 bytes'')
      else and_then (decode_i64 (take I64_LEN bs)) (\<lambda>cid.
           and_then (decode_u64 (drop I64_LEN bs)) (\<lambda>version. Inr (cid, version))))"

definition encode_collection_catalog_value :: "rstring \<Rightarrow> bytes \<Rightarrow> bytes" where
  "encode_collection_catalog_value name metadata =
     u64_to_be (word_of_nat (length name)) @ name @ metadata"

definition decode_collection_catalog_value :: "bytes \<Rightarrow> 'e storage_error + rstring \<times> bytes" where
  "decode_collection_catalog_value bs =
     (if length bs < U64_LEN
      then Inl (invalid_data ''collection catalog value is shorter than 8 bytes'')
      else and_then (decode_u64 (take U64_LEN bs)) (\<lambda>len.
        let name_len = unat len; name_end = U64_LEN + name_len in
        if 2 ^ 64 \<le> name_end
        then Inl (invalid_data ''collection catalog name length overflows'')
        else if length bs < name_end
        then Inl (invalid_data ''collection catalog value is shorter than encoded name length'')
        else and_then (decode_utf8 (drop U64_LEN (take name_end bs))) (\<lambda>name.
             Inr (name, drop name_end bs))))"

definition encode_index_catalog_key :: "collection_id \<Rightarrow> rstring \<Rightarrow> bytes" where
  "encode_index_catalog_key cid name = i64_to_be cid @ name"

definition decode_index_catalog_key :: "bytes \<Rightarrow> 'e storage_error + collection_id \<times> rstring" where
  "decode_index_catalog_key bs =
     (if length bs < I64_LEN
      then Inl (invalid_data ''index catalog key is shorter than 8 bytes'')
      else and_then (decode_i64 (take I64_LEN bs)) (\<lambda>cid.
           and_then (decode_utf8 (drop I64_LEN bs)) (\<lambda>name. Inr (cid, name))))"

definition encode_index_catalog_value :: "index_id \<Rightarrow> bytes \<Rightarrow> bytes" where
  "encode_index_catalog_value iid metadata = i64_to_be iid @ metadata"

definition decode_index_catalog_value :: "bytes \<Rightarrow> 'e storage_error + index_id \<times> bytes" where
  "decode_index_catalog_value bs =
     (if length bs < I64_LEN
      then Inl (invalid_data ''index catalog value is shorter than 8 bytes'')
      else and_then (decode_i64 (take I64_LEN bs)) (\<lambda>iid. Inr (iid, drop I64_LEN bs)))"

definition encode_collection_prefix :: "collection_id \<Rightarrow> bytes" where
  "encode_collection_prefix cid = i64_to_be cid"

definition encode_document_prefix :: "collection_id \<Rightarrow> document_id \<Rightarrow> bytes" where
  "encode_document_prefix cid did = i64_to_be cid @ u128_to_be did"

definition encode_document_key :: "collection_id \<Rightarrow> document_id \<Rightarrow> u64 \<Rightarrow> bytes" where
  "encode_document_key cid did version = i64_to_be cid @ u128_to_be did @ u64_to_be version"

definition decode_document_key ::
  "bytes \<Rightarrow> 'e storage_error + collection_id \<times> document_id \<times> u64" where
  "decode_document_key bs =
     (if length bs \<noteq> DOCUMENT_KEY_LEN
      then Inl (invalid_data ''document key is not 32 bytes'')
      else and_then (decode_i64 (take I64_LEN bs)) (\<lambda>cid.
           and_then (decode_u128 (drop I64_LEN (take (I64_LEN + U128_LEN) bs))) (\<lambda>did.
           and_then (decode_u64 (drop (I64_LEN + U128_LEN) bs)) (\<lambda>version.
           Inr (cid, did, version)))))"

definition encode_document_value :: "bytes \<Rightarrow> bytes" where
  "encode_document_value v = DOCUMENT_VALUE_PREFIX # v"

fun decode_document_value :: "bytes \<Rightarrow> 'e storage_error + bytes option" where
  "decode_document_value [] = Inl (invalid_data ''document value is empty'')"
| "decode_document_value (p # v) =
     (if p = DOCUMENT_VALUE_PREFIX then Inr (Some v)
      else if p = 0x00 then
        (if v = [] then Inr None
         else Inl (invalid_data ''document tombstone has trailing bytes''))
      else Inl (invalid_data ''document value has an unknown prefix''))"

definition encode_vacuum_target_key :: "collection_id \<Rightarrow> document_id \<Rightarrow> bytes" where
  "encode_vacuum_target_key cid did = encode_document_prefix cid did"

definition encode_index_node_key :: "index_id \<Rightarrow> u64 \<Rightarrow> bytes \<Rightarrow> bytes" where
  "encode_index_node_key iid chain segment = i64_to_be iid @ u64_to_be chain @ segment"

definition decode_index_node_key :: "bytes \<Rightarrow> 'e storage_error + index_id \<times> u64 \<times> bytes" where
  "decode_index_node_key bs =
     (if length bs < INDEX_NODE_KEY_PREFIX_LEN
      then Inl (invalid_data ''index node key is shorter than 16 bytes'')
      else and_then (decode_i64 (take I64_LEN bs)) (\<lambda>iid.
           and_then (decode_u64 (drop I64_LEN (take INDEX_NODE_KEY_PREFIX_LEN bs))) (\<lambda>chain.
           Inr (iid, chain, drop INDEX_NODE_KEY_PREFIX_LEN bs))))"

definition index_node_prefix :: "index_id \<Rightarrow> u64 \<Rightarrow> bytes" where
  "index_node_prefix iid chain = i64_to_be iid @ u64_to_be chain"

definition encode_index_document_id :: "document_id \<Rightarrow> bytes" where
  "encode_index_document_id did = u128_to_be did"

definition decode_index_document_id :: "bytes \<Rightarrow> 'e storage_error + document_id" where
  "decode_index_document_id bs = decode_u128 bs"

text \<open>\<open>slice::chunks(n)\<close>, for a positive \<open>n\<close>.\<close>

function chunks :: "nat \<Rightarrow> 'a list \<Rightarrow> 'a list list" where
  "chunks n xs = (if xs = [] \<or> n = 0 then [] else take n xs # chunks n (drop n xs))"
  by pat_completeness auto
termination
  by (relation "measure (\<lambda>(n, xs). length xs)") auto

declare chunks.simps [simp del]

definition split_index_key :: "bytes \<Rightarrow> bytes list" where
  "split_index_key key = (if key = [] then [[]] else chunks MAX_INDEX_SEGMENT_SIZE key)"

section \<open>What the engine relies on\<close>

text \<open>A codec: what was encoded decodes to itself.\<close>

locale codec =
  fixes enc :: "'a \<Rightarrow> bytes" and dec :: "bytes \<Rightarrow> 'e storage_error + 'a" and wf :: "'a \<Rightarrow> bool"
  assumes decode_encode: "wf x \<Longrightarrow> dec (enc x) = Inr x"
begin

lemma encode_inject: "wf x \<Longrightarrow> wf y \<Longrightarrow> enc x = enc y \<longleftrightarrow> x = y"
  by (metis decode_encode sum.inject(2))

end

text \<open>An exact codec accepts nothing but encodings: decoding is the inverse on its domain.\<close>

locale exact_codec = codec +
  assumes encode_decode: "dec b = Inr x \<Longrightarrow> wf x \<and> enc x = b"
begin

lemma decode_iff: "dec b = Inr x \<longleftrightarrow> wf x \<and> b = enc x"
  using decode_encode encode_decode by metis

lemma decode_error_iff: "(\<exists>e. dec b = Inl e) \<longleftrightarrow> b \<notin> enc ` {x. wf x}"
  by (cases "dec b") (auto simp: decode_encode dest: encode_decode)

end

text \<open>An ordered codec: comparing encodings is comparing what they encode.\<close>

locale ordered_codec = codec enc dec wf
  for enc :: "'a \<Rightarrow> bytes" and dec :: "bytes \<Rightarrow> 'e storage_error + 'a" and wf :: "'a \<Rightarrow> bool" +
  fixes lt :: "'a \<Rightarrow> 'a \<Rightarrow> bool"
  assumes encode_less: "wf x \<Longrightarrow> wf y \<Longrightarrow> enc x < enc y \<longleftrightarrow> lt x y"
begin

lemma encode_le: "wf x \<Longrightarrow> wf y \<Longrightarrow> enc x \<le> enc y \<longleftrightarrow> lt x y \<or> x = y"
  by (auto simp: le_less encode_less encode_inject)

lemma sorted_encodings:
  "\<forall>x \<in> set xs. wf x \<Longrightarrow> sorted_wrt (<) (map enc xs) \<longleftrightarrow> sorted_wrt lt xs"
  by (induction xs) (auto simp: encode_less)

lemma lt_trans: "wf x \<Longrightarrow> wf y \<Longrightarrow> wf z \<Longrightarrow> lt x y \<Longrightarrow> lt y z \<Longrightarrow> lt x z"
  using encode_less[of x y] encode_less[of y z] encode_less[of x z]
    less_trans[of "enc x" "enc y" "enc z"] by simp

end

section \<open>Round trips\<close>

lemma decode_i64_iff [codec_simps]: "decode_i64 b = Inr x \<longleftrightarrow> b = i64_to_be x"
  by (auto simp: decode_i64_def fixed_def)

lemma decode_u64_iff [codec_simps]: "decode_u64 b = Inr x \<longleftrightarrow> b = u64_to_be x"
  by (auto simp: decode_u64_def fixed_def)

lemma decode_u128_iff [codec_simps]: "decode_u128 b = Inr x \<longleftrightarrow> b = u128_to_be x"
  by (auto simp: decode_u128_def fixed_def)

lemma decode_utf8_iff [codec_simps]: "decode_utf8 b = Inr s \<longleftrightarrow> utf8_valid b \<and> s = b"
  by (auto simp: decode_utf8_def)

lemma decode_i64_to_be [simp]: "decode_i64 (i64_to_be x) = Inr x"
  by (simp add: codec_simps)

lemma decode_u64_to_be [simp]: "decode_u64 (u64_to_be x) = Inr x"
  by (simp add: codec_simps)

lemma decode_u128_to_be [simp]: "decode_u128 (u128_to_be x) = Inr x"
  by (simp add: codec_simps)

lemma take_i64_append [simp]: "take 8 (i64_to_be x @ r) = i64_to_be x"
  by simp

interpretation u64_codec: exact_codec u64_to_be decode_u64 "\<lambda>_. True"
  by unfold_locales (auto simp: codec_simps)

text \<open>
  Each decoder cuts its argument at fixed positions; gluing the pieces back gives the argument.
\<close>

lemma cut_at: "take n b = u \<Longrightarrow> drop n b = v \<Longrightarrow> u @ v = b"
  using append_take_drop_id[of n b] by simp

lemma cut_at2: "m \<le> n \<Longrightarrow> take m b = u \<Longrightarrow> drop m (take n b) = v \<Longrightarrow> drop n b = w \<Longrightarrow> u @ v @ w = b"
  using drop_take_append_drop[of m n b] append_take_drop_id[of m b] by simp

interpretation collection_key: exact_codec
  "\<lambda>(c, t). encode_collection_catalog_key c t" decode_collection_catalog_key "\<lambda>_. True"
proof unfold_locales
  fix x :: "collection_id \<times> u64"
  show "decode_collection_catalog_key
      (case x of (c, t) \<Rightarrow> encode_collection_catalog_key c t) = Inr x"
    by (cases x) (simp add: decode_collection_catalog_key_def encode_collection_catalog_key_def len_defs)
next
  fix b and x :: "collection_id \<times> u64"
  assume "decode_collection_catalog_key b = Inr x"
  then show "True \<and> (case x of (c, t) \<Rightarrow> encode_collection_catalog_key c t) = b"
    by (auto simp: decode_collection_catalog_key_def encode_collection_catalog_key_def
        len_defs codec_simps split: if_splits intro: cut_at)
qed

interpretation document_key: exact_codec
  "\<lambda>(c, d, t). encode_document_key c d t" decode_document_key "\<lambda>_. True"
proof unfold_locales
  fix x :: "collection_id \<times> document_id \<times> u64"
  show "decode_document_key (case x of (c, d, t) \<Rightarrow> encode_document_key c d t) = Inr x"
    by (cases x) (simp add: decode_document_key_def encode_document_key_def len_defs)
next
  fix b and x :: "collection_id \<times> document_id \<times> u64"
  assume "decode_document_key b = Inr x"
  then show "True \<and> (case x of (c, d, t) \<Rightarrow> encode_document_key c d t) = b"
    by (auto simp: decode_document_key_def encode_document_key_def
        len_defs codec_simps split: if_splits intro!: cut_at2[of 8 24])
qed

interpretation index_catalog_key: exact_codec
  "\<lambda>(c, n). encode_index_catalog_key c n" decode_index_catalog_key "\<lambda>(c, n). utf8_valid n"
proof unfold_locales
  fix x :: "collection_id \<times> rstring"
  assume "case x of (c, n) \<Rightarrow> utf8_valid n"
  then show "decode_index_catalog_key (case x of (c, n) \<Rightarrow> encode_index_catalog_key c n) = Inr x"
    by (cases x) (simp add: decode_index_catalog_key_def encode_index_catalog_key_def len_defs
        codec_simps)
next
  fix b and x :: "collection_id \<times> rstring"
  assume "decode_index_catalog_key b = Inr x"
  then show "(case x of (c, n) \<Rightarrow> utf8_valid n) \<and>
      (case x of (c, n) \<Rightarrow> encode_index_catalog_key c n) = b"
    by (auto simp: decode_index_catalog_key_def encode_index_catalog_key_def
        len_defs codec_simps split: if_splits intro: cut_at)
qed

interpretation index_catalog_value: exact_codec
  "\<lambda>(i, m). encode_index_catalog_value i m" decode_index_catalog_value "\<lambda>_. True"
proof unfold_locales
  fix x :: "index_id \<times> bytes"
  show "decode_index_catalog_value (case x of (i, m) \<Rightarrow> encode_index_catalog_value i m) = Inr x"
    by (cases x) (simp add: decode_index_catalog_value_def encode_index_catalog_value_def len_defs)
next
  fix b and x :: "index_id \<times> bytes"
  assume "decode_index_catalog_value b = Inr x"
  then show "True \<and> (case x of (i, m) \<Rightarrow> encode_index_catalog_value i m) = b"
    by (auto simp: decode_index_catalog_value_def encode_index_catalog_value_def
        len_defs codec_simps split: if_splits intro: cut_at)
qed

interpretation index_node_key: exact_codec
  "\<lambda>(i, c, s). encode_index_node_key i c s" decode_index_node_key "\<lambda>_. True"
proof unfold_locales
  fix x :: "index_id \<times> u64 \<times> bytes"
  show "decode_index_node_key (case x of (i, c, s) \<Rightarrow> encode_index_node_key i c s) = Inr x"
    by (cases x) (simp add: decode_index_node_key_def encode_index_node_key_def len_defs)
next
  fix b and x :: "index_id \<times> u64 \<times> bytes"
  assume "decode_index_node_key b = Inr x"
  then show "True \<and> (case x of (i, c, s) \<Rightarrow> encode_index_node_key i c s) = b"
    by (auto simp: decode_index_node_key_def encode_index_node_key_def
        len_defs codec_simps split: if_splits intro!: cut_at2[of 8 16])
qed

interpretation document_value: exact_codec
  "\<lambda>v. case v of None \<Rightarrow> DOCUMENT_TOMBSTONE | Some d \<Rightarrow> encode_document_value d"
  decode_document_value "\<lambda>_. True"
proof unfold_locales
  fix x :: "bytes option"
  show "decode_document_value
      (case x of None \<Rightarrow> DOCUMENT_TOMBSTONE | Some d \<Rightarrow> encode_document_value d) = Inr x"
    by (cases x) (simp_all add: DOCUMENT_TOMBSTONE_def encode_document_value_def
        DOCUMENT_VALUE_PREFIX_def)
next
  fix b and x :: "bytes option"
  assume "decode_document_value b = Inr x"
  then show "True \<and>
      (case x of None \<Rightarrow> DOCUMENT_TOMBSTONE | Some d \<Rightarrow> encode_document_value d) = b"
    by (cases b; cases x) (auto simp: DOCUMENT_TOMBSTONE_def encode_document_value_def
        split: if_splits)
qed

text \<open>
  A name longer than \<open>2 ^ 64 - 9\<close> bytes would not decode; no Rust string is that long.
\<close>

lemma collection_catalog_value_iff:
  "(decode_collection_catalog_value b :: 'e storage_error + rstring \<times> bytes) = Inr (n, m) \<longleftrightarrow>
     utf8_valid n \<and> length n + 8 < 2 ^ 64 \<and> b = encode_collection_catalog_value n m"
  (is "?dec \<longleftrightarrow> ?enc")
proof
  assume dec: ?dec
  then have long: "\<not> length b < 8"
    by (simp add: decode_collection_catalog_value_def len_defs split: if_split_asm)
  with dec obtain len where dl: "(decode_u64 (take 8 b) :: 'e storage_error + u64) = Inr len"
    and r: "(if 2 ^ 64 \<le> 8 + unat len
        then Inl (invalid_data ''collection catalog name length overflows'')
        else if length b < 8 + unat len
        then Inl (invalid_data ''collection catalog value is shorter than encoded name length'')
        else and_then (decode_utf8 (drop 8 (take (8 + unat len) b))) (\<lambda>name.
             Inr (name, drop (8 + unat len) b))) = (Inr (n, m) :: 'e storage_error + rstring \<times> bytes)"
    unfolding decode_collection_catalog_value_def len_defs Let_def by auto
  have len: "8 \<le> length b" "take 8 b = u64_to_be len" "8 + unat len < 2 ^ 64" "8 + unat len \<le> length b"
    using long dl r by (simp_all add: codec_simps not_less split: if_split_asm)
  with r have nm: "utf8_valid n" "drop 8 (take (8 + unat len) b) = n" "drop (8 + unat len) b = m"
    by (auto simp: decode_utf8_iff split: if_split_asm)
  have "u64_to_be len @ n @ m = b" using len nm by (intro cut_at2[of 8 "8 + unat len"]) auto
  moreover have "length n = unat len" using len nm by auto
  moreover from this have "word_of_nat (length n) = len" by simp
  ultimately show ?enc using nm len by (simp add: encode_collection_catalog_value_def)
next
  assume ?enc
  then show ?dec
    by (auto simp: decode_collection_catalog_value_def encode_collection_catalog_value_def
        len_defs codec_simps unat_of_nat Let_def)
qed

interpretation collection_catalog_value: exact_codec
  "\<lambda>(n, m). encode_collection_catalog_value n m" decode_collection_catalog_value
  "\<lambda>(n, m). utf8_valid n \<and> length n + 8 < 2 ^ 64"
  by unfold_locales (auto simp: collection_catalog_value_iff)

lemma document_key_inject [simp]:
  "encode_document_key c d t = encode_document_key c' d' t' \<longleftrightarrow> c = c' \<and> d = d' \<and> t = t'"
  by (simp add: encode_document_key_def)

lemma collection_key_inject [simp]:
  "encode_collection_catalog_key c t = encode_collection_catalog_key c' t' \<longleftrightarrow> c = c' \<and> t = t'"
  by (simp add: encode_collection_catalog_key_def)

lemma index_node_key_inject [simp]:
  "encode_index_node_key i c s = encode_index_node_key i' c' s' \<longleftrightarrow> i = i' \<and> c = c' \<and> s = s'"
  by (simp add: encode_index_node_key_def)

lemma index_catalog_key_inject [simp]:
  "encode_index_catalog_key c n = encode_index_catalog_key c' n' \<longleftrightarrow> c = c' \<and> n = n'"
  by (simp add: encode_index_catalog_key_def)

lemma vacuum_key_inject [simp]:
  "encode_vacuum_target_key c d = encode_vacuum_target_key c' d' \<longleftrightarrow> c = c' \<and> d = d'"
  by (simp add: encode_vacuum_target_key_def encode_document_prefix_def)

lemma decode_document_key_encode [simp]:
  "decode_document_key (encode_document_key c d t) = Inr (c, d, t)"
  using document_key.decode_encode[of "(c, d, t)"] by simp

lemma decode_collection_key_encode [simp]:
  "decode_collection_catalog_key (encode_collection_catalog_key c t) = Inr (c, t)"
  using collection_key.decode_encode[of "(c, t)"] by simp

lemma decode_index_node_key_encode [simp]:
  "decode_index_node_key (encode_index_node_key i c s) = Inr (i, c, s)"
  using index_node_key.decode_encode[of "(i, c, s)"] by simp

lemma decode_document_value_encode [simp]:
  "decode_document_value (encode_document_value v) = Inr (Some v)"
  "decode_document_value DOCUMENT_TOMBSTONE = Inr None"
  using document_value.decode_encode[of "Some v"] document_value.decode_encode[of None] by simp_all

lemma encoded_keys_not_Nil [simp]:
  "encode_document_key c d t \<noteq> []" "encode_collection_catalog_key c t \<noteq> []"
  "encode_index_catalog_key c n \<noteq> []" "encode_vacuum_target_key c d \<noteq> []"
  "encode_index_node_key i ch s \<noteq> []"
  by (simp_all add: encode_document_key_def encode_collection_catalog_key_def
      encode_index_catalog_key_def encode_vacuum_target_key_def encode_document_prefix_def
      encode_index_node_key_def)

lemma length_keys [simp]:
  "length (encode_document_key c d t) = 32" "length (encode_collection_catalog_key c t) = 16"
  "length (encode_index_catalog_key c n) = 8 + length n"
  "length (encode_vacuum_target_key c d) = 24"
  "length (encode_index_node_key i ch s) = 16 + length s"
  "length (encode_index_document_id d) = 16"
  by (simp_all add: encode_document_key_def encode_collection_catalog_key_def
      encode_index_catalog_key_def encode_vacuum_target_key_def encode_document_prefix_def
      encode_index_node_key_def encode_index_document_id_def)

section \<open>Order of the keys\<close>

text \<open>
  Within one collection, document keys are ordered by document id and then by version: the
  versions of a document are adjacent, oldest first. Across collections the order is that of the
  ids, as long as they are not negative (negative ids only occur in write sets).
\<close>

lemma document_key_less [order_simps]:
  "encode_document_key c d t < encode_document_key c d' t' \<longleftrightarrow> d < d' \<or> (d = d' \<and> t < t')"
  by (simp add: encode_document_key_def lex_append_block order_simps)

lemma document_key_le [order_simps]:
  "encode_document_key c d t \<le> encode_document_key c d' t' \<longleftrightarrow> d < d' \<or> (d = d' \<and> t \<le> t')"
  by (auto simp: le_less order_simps)

lemma collection_key_le [order_simps]:
  "encode_collection_catalog_key c t \<le> encode_collection_catalog_key c t' \<longleftrightarrow> t \<le> t'"
  by (simp add: encode_collection_catalog_key_def order_simps)

interpretation document_key_order: ordered_codec
  "\<lambda>(c, d, t). encode_document_key c d t" decode_document_key
  "\<lambda>(c, d, t). 0 \<le> i64_val c" "(<)"
proof unfold_locales
  fix x y :: "collection_id \<times> document_id \<times> u64"
  assume "case x of (c, d, t) \<Rightarrow> 0 \<le> i64_val c" "case y of (c, d, t) \<Rightarrow> 0 \<le> i64_val c"
  then show "(case x of (c, d, t) \<Rightarrow> encode_document_key c d t)
      < (case y of (c, d, t) \<Rightarrow> encode_document_key c d t) \<longleftrightarrow> x < y"
    by (cases x; cases y) (auto simp: encode_document_key_def lex_append_block order_simps)
qed auto

interpretation collection_key_order: ordered_codec
  "\<lambda>(c, t). encode_collection_catalog_key c t" decode_collection_catalog_key
  "\<lambda>(c, t). 0 \<le> i64_val c" "(<)"
proof unfold_locales
  fix x y :: "collection_id \<times> u64"
  assume "case x of (c, t) \<Rightarrow> 0 \<le> i64_val c" "case y of (c, t) \<Rightarrow> 0 \<le> i64_val c"
  then show "(case x of (c, t) \<Rightarrow> encode_collection_catalog_key c t)
      < (case y of (c, t) \<Rightarrow> encode_collection_catalog_key c t) \<longleftrightarrow> x < y"
    by (cases x; cases y) (auto simp: encode_collection_catalog_key_def lex_append_block order_simps)
qed auto

section \<open>Segments of an index key\<close>

lemma max_segment [simp]: "MAX_INDEX_SEGMENT_SIZE = 495"
  by (simp add: MAX_INDEX_SEGMENT_SIZE_def INDEX_NODE_KEY_PREFIX_LEN_def len_defs)

lemma chunks_Nil [simp]: "chunks n [] = []"
  by (simp add: chunks.simps)

lemma chunks_eq_Nil [simp]: "0 < n \<Longrightarrow> chunks n xs = [] \<longleftrightarrow> xs = []"
  by (simp add: chunks.simps[of n xs])

lemma split_index_key_rec:
  "split_index_key key =
     (if length key \<le> 495 then [key] else take 495 key # split_index_key (drop 495 key))"
  by (auto simp: split_index_key_def chunks.simps[of 495 key])

lemma split_index_key_ne [simp]: "split_index_key key \<noteq> []"
  by (simp add: split_index_key_rec[of key])

text \<open>What a split looks like: full segments, then one of at most the full size.\<close>

definition well_split :: "bytes list \<Rightarrow> bool" where
  "well_split segs \<longleftrightarrow> segs \<noteq> [] \<and> (\<forall>s \<in> set (butlast segs). length s = 495) \<and>
     length (last segs) \<le> 495 \<and> (last segs = [] \<longrightarrow> length segs = 1)"

lemma well_split_single [simp]: "well_split [s] \<longleftrightarrow> length s \<le> 495"
  by (simp add: well_split_def)

lemma well_split_Cons:
  "segs \<noteq> [] \<Longrightarrow> well_split (s # segs) \<longleftrightarrow> length s = 495 \<and> well_split segs \<and> last segs \<noteq> []"
  by (auto simp: well_split_def)

lemma concat_split_index_key [simp]: "concat (split_index_key key) = key"
proof (induction "length key" arbitrary: key rule: less_induct)
  case less
  show ?case
  proof (cases "length key \<le> 495")
    case True
    then show ?thesis by (simp add: split_index_key_rec[of key])
  next
    case False
    then have "concat (split_index_key (drop 495 key)) = drop 495 key" by (intro less) simp
    with False show ?thesis by (simp add: split_index_key_rec[of key])
  qed
qed

lemma last_split_index_key: "key \<noteq> [] \<Longrightarrow> last (split_index_key key) \<noteq> []"
proof (induction "length key" arbitrary: key rule: less_induct)
  case less
  then show ?case
    by (subst split_index_key_rec) (auto simp: less(1)[of "drop 495 key"])
qed

lemma well_split_split [simp]: "well_split (split_index_key key)"
proof (induction "length key" arbitrary: key rule: less_induct)
  case less
  show ?case
  proof (cases "length key \<le> 495")
    case True
    then show ?thesis by (simp add: split_index_key_rec[of key])
  next
    case False
    then have "well_split (split_index_key (drop 495 key))" by (intro less) simp
    with False last_split_index_key[of "drop 495 key"] show ?thesis
      by (simp add: split_index_key_rec[of key] well_split_Cons)
  qed
qed

lemma split_index_key_concat: "well_split segs \<Longrightarrow> split_index_key (concat segs) = segs"
proof (induction segs)
  case Nil
  then show ?case by (simp add: well_split_def)
next
  case (Cons s segs)
  show ?case
  proof (cases "segs = []")
    case True
    with Cons.prems show ?thesis by (simp add: split_index_key_rec)
  next
    case False
    with Cons have *: "length s = 495" "split_index_key (concat segs) = segs" "last segs \<noteq> []"
      by (auto simp: well_split_Cons)
    define key where "key = concat segs"
    have "key \<noteq> []" using False *(3) by (auto simp: key_def intro!: bexI[OF _ last_in_set])
    then have "split_index_key (s @ key) = s # split_index_key key"
      using *(1) by (subst split_index_key_rec) auto
    then show ?thesis using *(2) by (simp add: key_def)
  qed
qed

lemma well_split_unique: "well_split segs \<Longrightarrow> well_split segs' \<Longrightarrow> concat segs = concat segs' \<Longrightarrow> segs = segs'"
  by (metis split_index_key_concat)

lemma length_split_segment: "s \<in> set (split_index_key key) \<Longrightarrow> length s \<le> 495"
  using well_split_split[of key] unfolding well_split_def
  by (metis append_butlast_last_id in_set_butlastD insert_iff order_refl set_append list.set Un_iff empty_iff)

end
