(* ===== verification/Document.thy ===== *)
theory Document
  imports Types
begin

text \<open>
  The document model of \<open>crates/database/src/document.rs\<close>: \<open>Value\<close>, the ordered map \<open>Document\<close>
  with its operations, the conversion errors, and the read and write checks on the root of a
  document. A \<open>f64\<close> is its IEEE 754 bit pattern. A document is its vector of entries.
\<close>

section \<open>Values\<close>

type_synonym f64 = "64 word"

datatype "value" =
    Null
  | Bool bool
  | Int64 i64
  | Float64 f64
  | String rstring
  | Bytes bytes
  | Array "value list"
  | Document "(rstring \<times> value) list"

type_synonym document = "(rstring \<times> value) list"

fun kind :: "value \<Rightarrow> string" where
  "kind Null = ''null''"
| "kind (Bool _) = ''bool''"
| "kind (Int64 _) = ''int''"
| "kind (Float64 _) = ''float''"
| "kind (String _) = ''string''"
| "kind (Bytes _) = ''bytes''"
| "kind (Array _) = ''array''"
| "kind (Document _) = ''document''"

fun as_str :: "value \<Rightarrow> rstring option" where
  "as_str (String s) = Some s"
| "as_str _ = None"

fun as_bytes :: "value \<Rightarrow> bytes option" where
  "as_bytes (Bytes b) = Some b"
| "as_bytes _ = None"

section \<open>The ordered map\<close>

definition doc_new :: document where
  "doc_new = []"

definition doc_len :: "document \<Rightarrow> nat" where
  "doc_len d = length d"

definition doc_is_empty :: "document \<Rightarrow> bool" where
  "doc_is_empty d \<longleftrightarrow> d = []"

text \<open>\<open>iter().find(..)\<close>: the first entry with the key.\<close>

definition doc_get :: "document \<Rightarrow> rstring \<Rightarrow> value option" where
  "doc_get d key = map_option snd (find (\<lambda>(k, _). k = key) d)"

definition doc_contains_key :: "document \<Rightarrow> rstring \<Rightarrow> bool" where
  "doc_contains_key d key \<longleftrightarrow> list_ex (\<lambda>(k, _). k = key) d"

text \<open>\<open>insert\<close>: replace in place and return the old value, or append.\<close>

fun doc_insert :: "document \<Rightarrow> rstring \<Rightarrow> value \<Rightarrow> document \<times> value option" where
  "doc_insert [] key v = ([(key, v)], None)"
| "doc_insert ((k, w) # d) key v =
     (if k = key then ((k, v) # d, Some w)
      else (let (d', old) = doc_insert d key v in ((k, w) # d', old)))"

fun doc_remove :: "document \<Rightarrow> rstring \<Rightarrow> document \<times> value option" where
  "doc_remove [] key = ([], None)"
| "doc_remove ((k, w) # d) key =
     (if k = key then (d, Some w)
      else (let (d', old) = doc_remove d key in ((k, w) # d', old)))"

definition doc_insert_front :: "document \<Rightarrow> rstring \<Rightarrow> value \<Rightarrow> document" where
  "doc_insert_front d key v = (key, v) # fst (doc_remove d key)"

definition id_key :: rstring where
  "id_key = str ''_id''"

definition with_id :: "document \<Rightarrow> document_id \<Rightarrow> document" where
  "with_id d i = doc_insert_front d id_key (Bytes (u128_to_be i))"

text \<open>\<open>FromIterator\<close>: insert the pairs one after the other.\<close>

definition doc_from_iter :: "(rstring \<times> value) list \<Rightarrow> document" where
  "doc_from_iter ps = foldl (\<lambda>d (k, v). fst (doc_insert d k v)) doc_new ps"

section \<open>Properties of the map\<close>

text \<open>A document built by these operations has each key once.\<close>

definition doc_ok :: "document \<Rightarrow> bool" where
  "doc_ok d \<longleftrightarrow> distinct (map fst d)"

lemma doc_get_map_of: "doc_get d = map_of d"
proof
  fix key show "doc_get d key = map_of d key"
    by (induction d) (auto simp: doc_get_def)
qed

lemma doc_contains_key_iff: "doc_contains_key d key \<longleftrightarrow> key \<in> fst ` set d"
  by (induction d) (auto simp: doc_contains_key_def)

lemma fst_doc_insert_Cons [simp]:
  "fst (doc_insert ((k, w) # d) key v) =
     (if k = key then (k, v) # d else (k, w) # fst (doc_insert d key v))"
  by (simp split: prod.splits)

lemma fst_doc_remove_Cons [simp]:
  "fst (doc_remove ((k, w) # d) key) = (if k = key then d else (k, w) # fst (doc_remove d key))"
  by (simp split: prod.splits)

lemma doc_insert_old [simp]: "snd (doc_insert d k v) = map_of d k"
  by (induction d k v rule: doc_insert.induct) (auto simp: Let_def split: prod.splits)

lemma map_of_doc_insert [simp]: "map_of (fst (doc_insert d k v)) = (map_of d)(k \<mapsto> v)"
  by (induction d) (auto simp: fun_eq_iff simp del: doc_insert.simps(2))

lemma keys_doc_insert:
  "map fst (fst (doc_insert d k v)) = (if k \<in> fst ` set d then map fst d else map fst d @ [k])"
  by (induction d) (force simp del: doc_insert.simps(2))+

lemma doc_ok_insert [simp]: "doc_ok d \<Longrightarrow> doc_ok (fst (doc_insert d k v))"
  by (auto simp: doc_ok_def keys_doc_insert)

lemma doc_remove_old [simp]: "snd (doc_remove d k) = map_of d k"
  by (induction d k rule: doc_remove.induct) (auto simp: Let_def split: prod.splits)

lemma doc_remove_filter: "doc_ok d \<Longrightarrow> fst (doc_remove d k) = filter (\<lambda>(k', _). k' \<noteq> k) d"
proof (induction d)
  case (Cons p d)
  obtain k' w where p: "p = (k', w)" by force
  have "filter (\<lambda>(k', _). k' \<noteq> k) d = d" if "k \<notin> fst ` set d"
    using that by (auto simp: filter_id_conv image_iff)
  with Cons p show ?case by (auto simp: doc_ok_def simp del: doc_remove.simps(2))
qed simp

lemma doc_ok_remove [simp]: "doc_ok d \<Longrightarrow> doc_ok (fst (doc_remove d k))"
  by (simp add: doc_remove_filter doc_ok_def distinct_map_filter)

lemma map_of_doc_remove: "doc_ok d \<Longrightarrow> map_of (fst (doc_remove d k)) = (map_of d)(k := None)"
  by (simp add: doc_remove_filter) (induction d, auto simp: fun_eq_iff doc_ok_def)

lemma key_removed: "doc_ok d \<Longrightarrow> k \<notin> fst ` set (fst (doc_remove d k))"
  using map_of_doc_remove[of d k] by (auto simp: map_of_eq_None_iff[symmetric])

lemma doc_ok_insert_front [simp]: "doc_ok d \<Longrightarrow> doc_ok (doc_insert_front d k v)"
  using doc_ok_remove[of d k] key_removed[of d k] by (simp add: doc_insert_front_def doc_ok_def)

lemma map_of_doc_insert_front:
  "doc_ok d \<Longrightarrow> map_of (doc_insert_front d k v) = (map_of d)(k \<mapsto> v)"
  by (simp add: doc_insert_front_def map_of_doc_remove)

lemma doc_from_iter_foldl:
  "doc_ok d \<Longrightarrow> doc_ok (foldl (\<lambda>d (k, v). fst (doc_insert d k v)) d ps) \<and>
     map_of (foldl (\<lambda>d (k, v). fst (doc_insert d k v)) d ps) = map_of d ++ map_of (rev ps)"
  by (induction ps arbitrary: d) (auto simp: map_add_def fun_eq_iff split: option.splits)

lemma doc_ok_from_iter [simp]: "doc_ok (doc_from_iter ps)"
  using doc_from_iter_foldl[of "[]" ps] by (simp add: doc_from_iter_def doc_new_def doc_ok_def)

lemma map_of_doc_from_iter: "map_of (doc_from_iter ps) = map_of (rev ps)"
  using doc_from_iter_foldl[of "[]" ps] by (simp add: doc_from_iter_def doc_new_def doc_ok_def)

end
