(* ===== verification/Key_Encoding.thy ===== *)
theory Key_Encoding
  imports Document
begin

text \<open>
  \<open>crates/database/src/encoding.rs\<close>: the order-preserving encoding of index entries. The file
  defines the encoder as the code has it, the logical order of the fields it is meant to
  preserve, and proves that byte comparison of two encoded entries is exactly the logical
  comparison, field by field. The interface \<open>order_code\<close> states what one field's code promises
  and yields the order of whole entries.
\<close>

unbundle bit_operations_syntax

section \<open>The encoder\<close>

definition SIGN_BIT :: u64 where "SIGN_BIT = 0x8000000000000000"
definition CANONICAL_NAN_BITS :: u64 where "CANONICAL_NAN_BITS = 0x7FF8000000000000"

definition TAG_UNDEFINED :: byte where "TAG_UNDEFINED = 0x00"
definition TAG_NULL :: byte where "TAG_NULL = 0x01"
definition TAG_INT64 :: byte where "TAG_INT64 = 0x02"
definition TAG_FLOAT64 :: byte where "TAG_FLOAT64 = 0x03"
definition TAG_BOOL :: byte where "TAG_BOOL = 0x04"
definition TAG_STRING :: byte where "TAG_STRING = 0x05"
definition TAG_BYTES :: byte where "TAG_BYTES = 0x06"

lemmas tag_defs = TAG_UNDEFINED_def TAG_NULL_def TAG_INT64_def TAG_FLOAT64_def TAG_BOOL_def
  TAG_STRING_def TAG_BYTES_def

datatype encoding_error = Not_a_scalar string

text \<open>
  IEEE 754 binary64 from the bits: the magnitude is the low 63 bits, exponent and fraction
  together. \<open>is_nan\<close> and \<open>== 0.0\<close> of the source are tests on it.
\<close>

definition f64_sign :: "f64 \<Rightarrow> bool" where
  "f64_sign w \<longleftrightarrow> w AND SIGN_BIT \<noteq> 0"

definition f64_mag :: "f64 \<Rightarrow> nat" where
  "f64_mag w = unat w mod 2 ^ 63"

definition f64_is_nan :: "f64 \<Rightarrow> bool" where
  "f64_is_nan w \<longleftrightarrow> 0x7FF0000000000000 < f64_mag w"

definition f64_is_zero :: "f64 \<Rightarrow> bool" where
  "f64_is_zero w \<longleftrightarrow> f64_mag w = 0"

text \<open>\<open>encode_escaped\<close>\<close>

fun escape :: "bytes \<Rightarrow> bytes" where
  "escape [] = []"
| "escape (b # bs) = (if b = 0x00 then [0x00, 0xFF] else [b]) @ escape bs"

definition encode_escaped :: "bytes \<Rightarrow> bytes \<Rightarrow> bytes" where
  "encode_escaped buf bs = buf @ escape bs @ [0x00, 0x00]"

definition f64_ordered :: "f64 \<Rightarrow> u64" where
  "f64_ordered v =
     (let bits = (if f64_is_nan v then CANONICAL_NAN_BITS else if f64_is_zero v then 0 else v)
      in if bits AND SIGN_BIT = 0 then bits XOR SIGN_BIT else NOT bits)"

fun encode_value :: "bytes \<Rightarrow> value \<Rightarrow> encoding_error + bytes" where
  "encode_value buf Null = Inr (buf @ [TAG_NULL])"
| "encode_value buf (Int64 v) =
     Inr (buf @ [TAG_INT64] @ u64_to_be (i64_bits v XOR SIGN_BIT))"
| "encode_value buf (Float64 v) = Inr (buf @ [TAG_FLOAT64] @ u64_to_be (f64_ordered v))"
| "encode_value buf (Bool v) = Inr (buf @ [TAG_BOOL, if v then 1 else 0])"
| "encode_value buf (String s) = Inr (encode_escaped (buf @ [TAG_STRING]) s)"
| "encode_value buf (Bytes b) = Inr (encode_escaped (buf @ [TAG_BYTES]) b)"
| "encode_value buf (Array a) = Inl (Not_a_scalar (kind (Array a)))"
| "encode_value buf (Document d) = Inl (Not_a_scalar (kind (Document d)))"

text \<open>The loop of \<open>encode_entry\<close> over the fields, with its buffer.\<close>

fun encode_fields :: "bytes \<Rightarrow> value option list \<Rightarrow> encoding_error + bytes" where
  "encode_fields buf [] = Inr buf"
| "encode_fields buf (None # fs) = encode_fields (buf @ [TAG_UNDEFINED]) fs"
| "encode_fields buf (Some v # fs) =
     and_then (encode_value buf v) (\<lambda>buf'. encode_fields buf' fs)"

definition encode_entry :: "value option list \<Rightarrow> encoding_error + bytes" where
  "encode_entry entry = encode_fields [] entry"

section \<open>The logical order of fields\<close>

text \<open>
  The value of a non-NaN double times \<open>2 ^ 1074\<close>, which is an integer; the two infinities get
  the next representable magnitude, above every finite one, so that comparison of these numbers
  is IEEE comparison.
\<close>

definition f64_scaled :: "nat \<Rightarrow> int" where
  "f64_scaled m =
     (let e = m div 2 ^ 52; f = int (m mod 2 ^ 52)
      in if e = 0 then f else (2 ^ 52 + f) * 2 ^ (e - 1))"

definition f64_num :: "f64 \<Rightarrow> int" where
  "f64_num w = (if f64_sign w then - f64_scaled (f64_mag w) else f64_scaled (f64_mag w))"

text \<open>IEEE \<open><\<close> with every NaN as one largest value, and the equality that goes with it.\<close>

definition f64_less :: "f64 \<Rightarrow> f64 \<Rightarrow> bool" where
  "f64_less v w \<longleftrightarrow> \<not> f64_is_nan v \<and> (f64_is_nan w \<or> f64_num v < f64_num w)"

definition f64_equiv :: "f64 \<Rightarrow> f64 \<Rightarrow> bool" where
  "f64_equiv v w \<longleftrightarrow>
     (f64_is_nan v \<and> f64_is_nan w) \<or>
     (\<not> f64_is_nan v \<and> \<not> f64_is_nan w \<and> f64_num v = f64_num w)"

fun scalar :: "value option \<Rightarrow> bool" where
  "scalar (Some (Array _)) = False"
| "scalar (Some (Document _)) = False"
| "scalar _ = True"

text \<open>The type order of the module's table: absent, null, int, float, boolean, string, bytes.\<close>

fun type_rank :: "value option \<Rightarrow> nat" where
  "type_rank None = 0"
| "type_rank (Some Null) = 1"
| "type_rank (Some (Int64 _)) = 2"
| "type_rank (Some (Float64 _)) = 3"
| "type_rank (Some (Bool _)) = 4"
| "type_rank (Some (String _)) = 5"
| "type_rank (Some (Bytes _)) = 6"
| "type_rank (Some (Array _)) = 7"
| "type_rank (Some (Document _)) = 8"

fun same_type_less :: "value option \<Rightarrow> value option \<Rightarrow> bool" where
  "same_type_less (Some (Int64 v)) (Some (Int64 w)) = (i64_val v < i64_val w)"
| "same_type_less (Some (Float64 v)) (Some (Float64 w)) = f64_less v w"
| "same_type_less (Some (Bool v)) (Some (Bool w)) = (\<not> v \<and> w)"
| "same_type_less (Some (String v)) (Some (String w)) = (v < w)"
| "same_type_less (Some (Bytes v)) (Some (Bytes w)) = (v < w)"
| "same_type_less _ _ = False"

definition field_less :: "value option \<Rightarrow> value option \<Rightarrow> bool" where
  "field_less x y \<longleftrightarrow>
     type_rank x < type_rank y \<or> (type_rank x = type_rank y \<and> same_type_less x y)"

fun field_equiv :: "value option \<Rightarrow> value option \<Rightarrow> bool" where
  "field_equiv (Some (Float64 v)) (Some (Float64 w)) = f64_equiv v w"
| "field_equiv x y = (x = y)"

text \<open>Lists compare by their first differing element; a proper prefix comes first.\<close>

fun lex_by :: "('a \<Rightarrow> 'a \<Rightarrow> bool) \<Rightarrow> ('a \<Rightarrow> 'a \<Rightarrow> bool) \<Rightarrow> 'a list \<Rightarrow> 'a list \<Rightarrow> bool" where
  "lex_by lt eq _ [] = False"
| "lex_by lt eq [] (_ # _) = True"
| "lex_by lt eq (x # xs) (y # ys) \<longleftrightarrow> lt x y \<or> (eq x y \<and> lex_by lt eq xs ys)"

definition entry_less :: "value option list \<Rightarrow> value option list \<Rightarrow> bool" where
  "entry_less = lex_by field_less field_equiv"

section \<open>Codes of single fields\<close>

definition field_code :: "value option \<Rightarrow> bytes" where
  "field_code f = (case f of
       None \<Rightarrow> [TAG_UNDEFINED]
     | Some v \<Rightarrow> (case encode_value [] v of Inl _ \<Rightarrow> [] | Inr b \<Rightarrow> b))"

lemma encode_value_buf:
  "scalar (Some v) \<Longrightarrow> encode_value buf v = Inr (buf @ field_code (Some v))"
  by (cases v) (auto simp: field_code_def encode_escaped_def)

lemma encode_value_Inr: "encode_value buf v = Inr b \<Longrightarrow> scalar (Some v)"
  by (cases v) auto

lemma encode_fields_code:
  "encode_fields buf fs = Inr b \<longleftrightarrow>
     list_all scalar fs \<and> b = buf @ concat (map field_code fs)"
proof (induction buf fs arbitrary: b rule: encode_fields.induct)
  case (3 buf v fs)
  then show ?case
    by (cases "scalar (Some v)") (auto simp: encode_value_buf dest: encode_value_Inr)
qed (auto simp: field_code_def)

lemma encode_entry_code:
  "encode_entry fs = Inr b \<longleftrightarrow> list_all scalar fs \<and> b = concat (map field_code fs)"
  by (simp add: encode_entry_def encode_fields_code)

subsection \<open>Integers\<close>

lemma unat_SIGN_BIT: "unat SIGN_BIT = 2 ^ 63"
  by (simp add: SIGN_BIT_def)

lemma bit63_unat: "bit (w :: u64) 63 \<longleftrightarrow> 2 ^ 63 \<le> unat w"
proof -
  have "unat w < 2 * 2 ^ 63" using unsigned_less[of w, where ?'a = nat] by simp
  then have "unat w div 2 ^ 63 < 2" by (rule less_mult_imp_div_less)
  then have "odd (unat w div 2 ^ 63) \<longleftrightarrow> 1 \<le> unat w div 2 ^ 63"
    by (cases "unat w div 2 ^ 63" rule: nat.exhaust) (auto simp: less_Suc_eq numeral_2_eq_2)
  also have "\<dots> \<longleftrightarrow> 2 ^ 63 \<le> unat w" by (subst less_eq_div_iff_mult_less_eq) simp_all
  finally have "odd (unat w div 2 ^ 63) \<longleftrightarrow> 2 ^ 63 \<le> unat w" .
  moreover have "bit w 63 \<longleftrightarrow> bit (unat w) 63" by (simp add: bit_unsigned_iff)
  ultimately show ?thesis by (simp only: bit_iff_odd[of "unat w"])
qed

lemma and_sign_zero: "w AND SIGN_BIT = 0 \<longleftrightarrow> unat w < 2 ^ 63"
proof -
  have s: "SIGN_BIT = 2 ^ 63" by (simp add: SIGN_BIT_def)
  have "w AND SIGN_BIT = 0 \<longleftrightarrow> \<not> bit w 63"
    unfolding s by (rule and_exp_eq_0_iff_not_bit)
  then show ?thesis by (simp add: bit63_unat not_le)
qed

text \<open>Flipping the top bit moves the value by half the range.\<close>

lemma xor_sign_add: "w XOR SIGN_BIT = w + SIGN_BIT"
proof (cases "w AND SIGN_BIT = 0")
  case True
  then show ?thesis by (simp add: disjunctive_add_eq_xor)
next
  case False
  define u where "u = w XOR SIGN_BIT"
  have w: "w = u XOR SIGN_BIT" by (simp add: u_def xor.assoc)
  have "u AND SIGN_BIT = 0"
    using False and_exp_eq_0_iff_not_bit[of w 63] and_exp_eq_0_iff_not_bit[of u 63]
    by (simp add: u_def SIGN_BIT_def bit_simps)
  then have "u + SIGN_BIT = w" using w by (simp add: disjunctive_add_eq_xor)
  moreover have "SIGN_BIT + SIGN_BIT = 0" by (simp add: SIGN_BIT_def)
  ultimately have "w + SIGN_BIT = u" by (metis add.assoc add.right_neutral)
  then show ?thesis by (simp add: u_def)
qed

lemma unat_xor_sign:
  "unat (w XOR SIGN_BIT) = (if unat w < 2 ^ 63 then unat w + 2 ^ 63 else unat w - 2 ^ 63)"
proof -
  have "unat w < 2 ^ 64" using unsigned_less[of w, where ?'a = nat] by simp
  then show ?thesis
    unfolding xor_sign_add unat_word_ariths unat_SIGN_BIT
    by (auto simp: mod_if)
qed

lemma sint_unat: "sint (w :: u64) = (if unat w < 2 ^ 63 then int (unat w) else int (unat w) - 2 ^ 64)"
proof -
  define u where "u = unat w"
  have "u < 2 ^ 64" using unsigned_less[of w, where ?'a = nat] by (simp add: u_def)
  have "(int u + 2 ^ 63) mod 2 ^ 64 = (if u < 2 ^ 63 then int u + 2 ^ 63 else int u - 2 ^ 63)"
  proof (cases "u < 2 ^ 63")
    case False
    have "(int u + 2 ^ 63) mod 2 ^ 64 = (int u - 2 ^ 63 + 2 ^ 64) mod 2 ^ 64"
      by (simp add: add.commute)
    also have "\<dots> = (int u - 2 ^ 63) mod 2 ^ 64" by (rule mod_add_self2)
    also have "\<dots> = int u - 2 ^ 63"
      using False \<open>u < 2 ^ 64\<close> by (intro mod_pos_pos_trivial) auto
    finally show ?thesis using False by simp
  qed simp
  moreover have "sint w = (int u + 2 ^ 63) mod 2 ^ 64 - 2 ^ 63"
    by (simp add: sint_uint signed_take_bit_eq_take_bit_shift take_bit_eq_mod u_def)
  ultimately show ?thesis by (simp add: u_def split: if_splits)
qed

lemma int64_code_less:
  "u64_to_be (i64_bits v XOR SIGN_BIT) < u64_to_be (i64_bits w XOR SIGN_BIT) \<longleftrightarrow> i64_val v < i64_val w"
  unfolding order_simps word_less_nat_alt unat_xor_sign i64_val_def sint_unat
  using unsigned_less[of "i64_bits v", where ?'a = nat] unsigned_less[of "i64_bits w", where ?'a = nat]
  by (auto simp del: of_nat_unat)

subsection \<open>Floats\<close>

lemma unat_not_u64: "unat (NOT (w :: u64)) = 2 ^ 64 - 1 - unat w"
proof -
  have b: "unat w < 2 ^ 64" using unsigned_less[of w, where ?'a = nat] by simp
  have t: "take_bit 64 (uint w) = uint w"
    using unsigned_less[of w, where ?'a = int] by (simp add: take_bit_int_eq_self)
  have "uint (NOT w) = take_bit 64 (NOT (uint w))" by (simp add: unsigned_not_eq)
  also have "\<dots> = mask 64 - take_bit 64 (uint w)" by (rule take_bit_not_eq_mask_diff)
  also have "\<dots> = 2 ^ 64 - 1 - uint w"
    using t by (simp only: mask_eq_exp_minus_1)
  finally have "int (unat (NOT w)) = 2 ^ 64 - 1 - int (unat w)" by simp
  moreover have "int (2 ^ 64 - 1 - unat w) = 2 ^ 64 - 1 - int (unat w)"
    using b by (simp add: of_nat_diff del: of_nat_unat)
  ultimately have "int (unat (NOT w)) = int (2 ^ 64 - 1 - unat w)" by (simp only:)
  then show ?thesis by (simp only: of_nat_eq_iff)
qed

text \<open>The signed magnitude that the encoder compares.\<close>

definition f64_key :: "f64 \<Rightarrow> int" where
  "f64_key w = (if f64_is_nan w then 0x7FF8000000000000
                else if f64_sign w then - int (f64_mag w) else int (f64_mag w))"

lemma f64_sign_unat: "f64_sign w \<longleftrightarrow> 2 ^ 63 \<le> unat w"
  by (simp add: f64_sign_def and_sign_zero not_less)

lemma f64_mag_unat: "f64_mag w = (if f64_sign w then unat w - 2 ^ 63 else unat w)"
proof (cases "f64_sign w")
  case True
  have "unat w < 2 ^ 63 + 2 ^ 63" using unsigned_less[of w, where ?'a = nat] by simp
  with True show ?thesis
    unfolding f64_mag_def f64_sign_unat by (simp add: le_mod_geq)
next
  case False
  then show ?thesis unfolding f64_mag_def f64_sign_unat by simp
qed

lemma f64_mag_bound: "f64_mag w < 2 ^ 63"
  by (simp add: f64_mag_def)

lemma unat_f64_ordered:
  "int (unat (f64_ordered w)) =
     (if 0 \<le> f64_key w then 2 ^ 63 + f64_key w else 2 ^ 63 - 1 + f64_key w)"
proof -
  consider "f64_is_nan w" | "\<not> f64_is_nan w" "f64_mag w = 0"
    | "\<not> f64_is_nan w" "f64_mag w \<noteq> 0" "\<not> f64_sign w" | "\<not> f64_is_nan w" "f64_mag w \<noteq> 0" "f64_sign w"
    by blast
  then show ?thesis
  proof cases
    case 1
    have "unat CANONICAL_NAN_BITS = 0x7FF8000000000000" by (simp add: CANONICAL_NAN_BITS_def)
    then show ?thesis using 1
      by (simp add: f64_ordered_def f64_key_def and_sign_zero unat_xor_sign)
  next
    case 2
    then show ?thesis
      by (simp add: f64_ordered_def f64_key_def f64_is_zero_def and_sign_zero unat_SIGN_BIT
          del: of_nat_unat)
  next
    case 3
    then show ?thesis
      by (simp add: f64_ordered_def f64_key_def f64_is_zero_def and_sign_zero unat_xor_sign
          f64_sign_unat f64_mag_unat)
  next
    case 4
    then have "2 ^ 63 \<le> unat w" "f64_mag w = unat w - 2 ^ 63" "unat w \<noteq> 2 ^ 63"
      by (auto simp: f64_sign_unat f64_mag_unat)
    moreover have "unat w < 2 ^ 64" using unsigned_less[of w, where ?'a = nat] by simp
    ultimately show ?thesis using 4
      by (simp add: f64_ordered_def f64_key_def f64_is_zero_def and_sign_zero unat_not_u64 of_nat_diff
          del: of_nat_unat)
  qed
qed

lemma f64_ordered_less: "f64_ordered v < f64_ordered w \<longleftrightarrow> f64_key v < f64_key w"
proof -
  have "f64_ordered v < f64_ordered w \<longleftrightarrow> int (unat (f64_ordered v)) < int (unat (f64_ordered w))"
    by (simp only: word_less_nat_alt of_nat_less_iff)
  then show ?thesis unfolding unat_f64_ordered by auto
qed

lemma f64_scaled_Suc: "f64_scaled m < f64_scaled (Suc m)"
proof -
  define P :: nat where "P = 2 ^ 52"
  have P: "0 < P" "(2 :: int) ^ 52 = int P" by (simp_all add: P_def)
  have scaled: "f64_scaled m = (if m div P = 0 then int (m mod P)
      else (int P + int (m mod P)) * 2 ^ (m div P - 1))" for m
    by (simp add: f64_scaled_def P_def Let_def)
  have pos: "(0 :: int) < 2 ^ k" for k :: nat by simp
  show ?thesis
  proof (cases "Suc (m mod P) = P")
    case False
    then have "Suc m div P = m div P" "Suc m mod P = Suc (m mod P)"
      by (simp_all add: div_Suc mod_Suc)
    then show ?thesis by (simp add: scaled)
  next
    case True
    then have *: "Suc m div P = Suc (m div P)" "Suc m mod P = 0"
      by (simp_all add: div_Suc mod_Suc)
    have f: "int (m mod P) = int P - 1" using True by linarith
    show ?thesis
    proof (cases "m div P")
      case 0
      then show ?thesis using * f by (simp add: scaled)
    next
      case (Suc k)
      have "(int P + (int P - 1)) * 2 ^ k < int P * 2 ^ Suc k"
        using pos[of k] by (simp add: algebra_simps)
      then show ?thesis using * f Suc by (simp add: scaled)
    qed
  qed
qed

lemma f64_scaled_less: "f64_scaled m < f64_scaled n \<longleftrightarrow> m < n"
  using lift_Suc_mono_less[of f64_scaled m n] lift_Suc_mono_less[of f64_scaled n m]
  by (metis f64_scaled_Suc linorder_less_linear order_less_asym order_less_irrefl)

lemma f64_scaled_0 [simp]: "f64_scaled 0 = 0"
  by (simp add: f64_scaled_def)

lemma f64_num_less: "f64_num v < f64_num w \<longleftrightarrow>
    (if f64_sign v then - int (f64_mag v) else int (f64_mag v))
    < (if f64_sign w then - int (f64_mag w) else int (f64_mag w))"
  using f64_scaled_less[of "f64_mag v" "f64_mag w"] f64_scaled_less[of "f64_mag w" "f64_mag v"]
    f64_scaled_less[of 0 "f64_mag v"] f64_scaled_less[of 0 "f64_mag w"]
  by (cases "f64_mag v = 0"; cases "f64_mag w = 0") (auto simp: f64_num_def)

lemma f64_less_key: "f64_less v w \<longleftrightarrow> f64_key v < f64_key w"
  by (auto simp: f64_less_def f64_key_def f64_num_less f64_is_nan_def)

lemma f64_equiv_key: "f64_equiv v w \<longleftrightarrow> f64_key v = f64_key w"
proof -
  have "f64_equiv v w \<longleftrightarrow> \<not> f64_less v w \<and> \<not> f64_less w v"
    by (auto simp: f64_equiv_def f64_less_def)
  then show ?thesis by (auto simp: f64_less_key)
qed

lemma f64_ordered_eq: "f64_ordered v = f64_ordered w \<longleftrightarrow> f64_equiv v w"
  using f64_ordered_less[of v w] f64_ordered_less[of w v] by (auto simp: f64_equiv_key)

subsection \<open>Strings and bytes\<close>

lemma byte_pos: "(b :: byte) \<noteq> 0 \<longleftrightarrow> 0 < b"
  by (simp add: word_neq_0_conv)

lemma escape_less: "v < w \<Longrightarrow> diverge (escape v @ [0, 0]) (escape w @ [0, 0])"
proof (induction v arbitrary: w)
  case Nil
  then obtain y ys where "w = y # ys" by (cases w) auto
  then show ?case by (auto simp: byte_pos)
next
  case (Cons x v)
  then obtain y w' where w: "w = y # w'" by (cases w) auto
  show ?case
  proof (cases "x = y")
    case True
    with Cons w have "diverge (escape v @ [0, 0]) (escape w' @ [0, 0])" by auto
    with w True show ?thesis by auto
  next
    case False
    with Cons w have "x < y" by auto
    with w show ?thesis by (auto simp: byte_pos)
  qed
qed

lemma escape_inject: "escape v @ [0, 0] = escape w @ [0, 0] \<longleftrightarrow> v = w"
  using escape_less[of v w] escape_less[of w v] by (metis not_diverge_refl neqE)

section \<open>Fields and entries\<close>

lemma field_code_tag:
  "scalar f \<Longrightarrow> \<exists>r. field_code f = word_of_nat (type_rank f) # r"
  by (cases f rule: type_rank.cases) (auto simp: field_code_def tag_defs encode_escaped_def)

lemma type_rank_less: "scalar x \<Longrightarrow> scalar y \<Longrightarrow> type_rank x < type_rank y \<Longrightarrow>
    diverge (field_code x) (field_code y)"
proof -
  assume s: "scalar x" "scalar y" and r: "type_rank x < type_rank y"
  have "type_rank y \<le> 6" using s(2) by (cases y rule: type_rank.cases) auto
  then have "(word_of_nat (type_rank x) :: byte) < word_of_nat (type_rank y)"
    using r by (simp add: word_less_nat_alt unat_byte_of_nat)
  then show ?thesis using field_code_tag[OF s(1)] field_code_tag[OF s(2)] by auto
qed

lemma same_type_diverge:
  "type_rank x = type_rank y \<Longrightarrow> same_type_less x y \<Longrightarrow> diverge (field_code x) (field_code y)"
  by (induction x y rule: same_type_less.induct)
     (auto simp: field_code_def encode_escaped_def int64_code_less[unfolded order_simps] order_simps f64_ordered_less
        f64_less_key escape_less intro!: less_diverge_same_length)

lemma field_less_diverge:
  "scalar x \<Longrightarrow> scalar y \<Longrightarrow> field_less x y \<Longrightarrow> diverge (field_code x) (field_code y)"
  by (auto simp: field_less_def type_rank_less same_type_diverge)

lemma field_equiv_code: "field_equiv x y \<Longrightarrow> field_code x = field_code y"
  by (induction x y rule: field_equiv.induct) (auto simp: field_code_def f64_ordered_eq)

lemma field_total:
  "scalar x \<Longrightarrow> scalar y \<Longrightarrow> field_less x y \<or> field_equiv x y \<or> field_less y x"
  by (cases x rule: type_rank.cases; cases y rule: type_rank.cases)
     (auto simp: field_less_def f64_less_key f64_equiv_key not_less_iff_gr_or_eq simp flip: i64_val_inject)

text \<open>
  What a field code promises to whoever concatenates codes: codes of smaller fields differ from
  codes of larger ones before either ends, codes of equivalent fields are the same.
\<close>

locale order_code =
  fixes code :: "'a \<Rightarrow> bytes" and ok :: "'a \<Rightarrow> bool"
    and lt :: "'a \<Rightarrow> 'a \<Rightarrow> bool" and eq :: "'a \<Rightarrow> 'a \<Rightarrow> bool"
  assumes code_ne: "ok x \<Longrightarrow> code x \<noteq> []"
    and lt_diverge: "ok x \<Longrightarrow> ok y \<Longrightarrow> lt x y \<Longrightarrow> diverge (code x) (code y)"
    and eq_code: "ok x \<Longrightarrow> ok y \<Longrightarrow> eq x y \<Longrightarrow> code x = code y"
    and lt_total: "ok x \<Longrightarrow> ok y \<Longrightarrow> lt x y \<or> eq x y \<or> lt y x"
begin

lemma eq_not_lt: "ok x \<Longrightarrow> ok y \<Longrightarrow> eq x y \<Longrightarrow> \<not> lt x y"
  using eq_code[of x y] lt_diverge[of x y] by auto

lemma code_eq_iff: "ok x \<Longrightarrow> ok y \<Longrightarrow> code x = code y \<longleftrightarrow> eq x y"
  by (metis eq_code lt_diverge lt_total not_diverge_refl)

lemma entry_code_less:
  "list_all ok xs \<Longrightarrow> list_all ok ys \<Longrightarrow>
   concat (map code xs) < concat (map code ys) \<longleftrightarrow> lex_by lt eq xs ys"
proof (induction xs arbitrary: ys)
  case Nil
  then show ?case by (cases ys) (auto simp: code_ne)
next
  case (Cons x xs ys0)
  note IH = Cons
  show ?case
  proof (cases ys0)
    case Nil
    then show ?thesis by (cases "concat (map code (x # xs))") auto
  next
    case (Cons y ys)
    with IH have ok: "ok x" "ok y" by auto
    consider "lt x y" | "eq x y" | "lt y x" using lt_total[OF ok] by blast
    then show ?thesis
    proof cases
      case 1
      then show ?thesis using ok Cons by (simp add: lt_diverge diverge_append_less)
    next
      case 2
      then show ?thesis using IH Cons ok by (simp add: eq_not_lt eq_code[of x y])
    next
      case 3
      have "concat (map code (y # ys)) < concat (map code (x # xs))"
        using 3 ok by (simp add: lt_diverge diverge_append_less)
      moreover have "\<not> lt x y" "\<not> eq x y"
        using 3 ok lt_diverge[of x y] lt_diverge[of y x] diverge_asym eq_code[of x y] by fastforce+
      ultimately show ?thesis using Cons by (auto dest: less_not_sym)
    qed
  qed
qed

lemma entry_code_eq:
  "list_all ok xs \<Longrightarrow> list_all ok ys \<Longrightarrow>
   concat (map code xs) = concat (map code ys) \<longleftrightarrow> list_all2 eq xs ys"
proof (induction xs arbitrary: ys)
  case Nil
  then show ?case by (cases ys) (auto simp: code_ne)
next
  case (Cons x xs)
  show ?case
  proof (cases ys)
    case Nil
    with Cons show ?thesis by (auto simp: code_ne)
  next
    case (Cons y ys')
    have ok: "ok x" "ok y" using Cons.prems Cons by auto
    show ?thesis
    proof (cases "eq x y")
      case True
      with Cons.IH[of ys'] Cons.prems Cons ok eq_code[of x y] show ?thesis by simp
    next
      case False
      then have "diverge (code x) (code y) \<or> diverge (code y) (code x)"
        using lt_total[OF ok] lt_diverge ok by blast
      then have "code x @ a \<noteq> code y @ b" for a b
        using diverge_append_less by (metis less_irrefl)
      with False Cons show ?thesis by simp
    qed
  qed
qed

lemma entry_code_prefix:
  "list_all ok xs \<Longrightarrow> list_all ok ys \<Longrightarrow>
   concat (map code ys) = concat (map code xs) @ r \<longleftrightarrow>
     length xs \<le> length ys \<and> list_all2 eq xs (take (length xs) ys) \<and>
     r = concat (map code (drop (length xs) ys))"
proof (induction xs arbitrary: ys)
  case Nil
  then show ?case by auto
next
  case (Cons x xs)
  show ?case
  proof (cases ys)
    case Nil
    with Cons show ?thesis by (auto simp: code_ne)
  next
    case (Cons y ys')
    have ok: "ok x" "ok y" using Cons.prems Cons by auto
    show ?thesis
    proof (cases "eq x y")
      case True
      with Cons.IH[of ys'] Cons.prems Cons ok eq_code[of x y] show ?thesis by simp
    next
      case False
      then have "diverge (code x) (code y) \<or> diverge (code y) (code x)"
        using lt_total[OF ok] lt_diverge ok by blast
      then have "code y @ a \<noteq> code x @ b" for a b
        using diverge_append_less by (metis less_irrefl)
      with False Cons show ?thesis by simp
    qed
  qed
qed

text \<open>One code against another that is followed by anything.\<close>

lemma code_less_append: "ok x \<Longrightarrow> ok y \<Longrightarrow> code x @ t < code y \<longleftrightarrow> lt x y"
proof -
  assume ok: "ok x" "ok y"
  consider "lt x y" | "eq x y" | "lt y x" using lt_total[OF ok] by blast
  then show ?thesis
  proof cases
    case 1
    then show ?thesis
      using ok diverge_append_less[of "code x" "code y" t "[]"] by (simp add: lt_diverge)
  next
    case 2
    then have "code y \<le> code x @ t" using ok eq_code[of x y] lex_prefix_le[of "code x" t] by simp
    then show ?thesis using 2 ok eq_not_lt by (simp add: not_less[symmetric])
  next
    case 3
    then have "code y < code x @ t"
      using ok diverge_append_less[of "code y" "code x" "[]" t] by (simp add: lt_diverge)
    moreover have "\<not> lt x y" using 3 ok lt_diverge diverge_asym by blast
    ultimately show ?thesis by (simp add: less_not_sym)
  qed
qed

lemma code_append_less: "ok x \<Longrightarrow> ok y \<Longrightarrow> t \<noteq> [] \<Longrightarrow> code x < code y @ t \<longleftrightarrow> \<not> lt y x"
  using code_less_append[of y x t] code_less_append[of y x "[]"] eq_code[of x y] lt_total[of x y]
    lex_prefix_less[of t "code y"] diverge_append_less[of "code x" "code y" "[]" t] lt_diverge[of x y]
  by (auto simp: less_not_sym)

lemma lt_asym: "ok x \<Longrightarrow> ok y \<Longrightarrow> lt x y \<Longrightarrow> \<not> lt y x"
  using lt_diverge[of x y] lt_diverge[of y x] diverge_asym by blast

lemma eq_sym: "ok x \<Longrightarrow> ok y \<Longrightarrow> eq x y \<longleftrightarrow> eq y x"
  by (metis code_eq_iff)

lemma not_lt_iff: "ok x \<Longrightarrow> ok y \<Longrightarrow> \<not> lt x y \<longleftrightarrow> lt y x \<or> eq y x"
  using lt_total[of x y] lt_asym[of x y] lt_asym[of y x] eq_not_lt[of x y] eq_sym[of x y] by blast

lemma code_less: "ok x \<Longrightarrow> ok y \<Longrightarrow> code x < code y \<longleftrightarrow> lt x y"
  using code_less_append[of x y "[]"] by simp

end

interpretation field: order_code field_code scalar field_less field_equiv
proof unfold_locales
  show "scalar x \<Longrightarrow> field_code x \<noteq> []" for x using field_code_tag[of x] by auto
qed (simp_all add: field_less_diverge field_equiv_code field_total)

end
