(* ===== verification/Conversions.thy ===== *)
theory Conversions
  imports Key_Encoding
begin

text \<open>
  The conversions of \<open>crates/database/src/document.rs\<close> between Rust primitives and \<open>Value\<close>: the
  \<open>From\<close> implementations, \<open>ConversionError\<close> and the \<open>TryFrom<Value>\<close> implementations for the
  integer types, \<open>bool\<close>, \<open>char\<close> and \<open>Vec<u8>\<close>. A \<open>char\<close> is its code point, an integer of a Rust
  type is an \<open>int\<close> inside the range of the type. Of the standard library the file defines what
  these functions call: UTF-8, \<open>trim\<close>, decimal printing and parsing of integers, the casts of
  floats to integers and of \<open>f32\<close> to \<open>f64\<close>. The conversions to \<open>String\<close> and to floats are in
  \<open>Float_Text\<close>.
\<close>

section \<open>The integer types\<close>

datatype int_type = I8 | I16 | I32 | I64_type | I128 | Isize | U8 | U16 | U32 | U64 | U128 | Usize

fun int_name :: "int_type \<Rightarrow> string" where
  "int_name I8 = ''i8''" | "int_name I16 = ''i16''" | "int_name I32 = ''i32''"
| "int_name I64_type = ''i64''" | "int_name I128 = ''i128''" | "int_name Isize = ''isize''"
| "int_name U8 = ''u8''" | "int_name U16 = ''u16''" | "int_name U32 = ''u32''"
| "int_name U64 = ''u64''" | "int_name U128 = ''u128''" | "int_name Usize = ''usize''"

fun int_signed :: "int_type \<Rightarrow> bool" where
  "int_signed I8 = True" | "int_signed I16 = True" | "int_signed I32 = True"
| "int_signed I64_type = True" | "int_signed I128 = True" | "int_signed Isize = True"
| "int_signed _ = False"

fun int_width :: "int_type \<Rightarrow> nat" where
  "int_width I8 = 8" | "int_width U8 = 8" | "int_width I16 = 16" | "int_width U16 = 16"
| "int_width I32 = 32" | "int_width U32 = 32" | "int_width I128 = 128" | "int_width U128 = 128"
| "int_width _ = 64"

definition int_min :: "int_type \<Rightarrow> int" where
  "int_min t = (if int_signed t then - (2 ^ (int_width t - 1)) else 0)"

definition int_max :: "int_type \<Rightarrow> int" where
  "int_max t = (if int_signed t then 2 ^ (int_width t - 1) - 1 else 2 ^ int_width t - 1)"

definition in_int_type :: "int_type \<Rightarrow> int \<Rightarrow> bool" where
  "in_int_type t n \<longleftrightarrow> int_min t \<le> n \<and> n \<le> int_max t"

lemmas int_range_defs = int_min_def int_max_def in_int_type_def

text \<open>The types of \<open>impl_from_int\<close>, which fit into \<open>i64\<close>.\<close>

fun fits_i64 :: "int_type \<Rightarrow> bool" where
  "fits_i64 I8 = True" | "fits_i64 I16 = True" | "fits_i64 I32 = True" | "fits_i64 I64_type = True"
| "fits_i64 U8 = True" | "fits_i64 U16 = True" | "fits_i64 U32 = True" | "fits_i64 _ = False"

section \<open>Characters\<close>

definition scalar_value :: "nat \<Rightarrow> bool" where
  "scalar_value c \<longleftrightarrow> c < 0xD800 \<or> (0xDFFF < c \<and> c < 0x110000)"

text \<open>\<open>char::to_string\<close>: the UTF-8 encoding of the code point.\<close>

definition char_to_string :: "nat \<Rightarrow> rstring" where
  "char_to_string c =
     (if c < 0x80 then [word_of_nat c]
      else if c < 0x800 then [word_of_nat (0xC0 + c div 64), word_of_nat (0x80 + c mod 64)]
      else if c < 0x10000 then
        [word_of_nat (0xE0 + c div 4096), word_of_nat (0x80 + c div 64 mod 64),
         word_of_nat (0x80 + c mod 64)]
      else
        [word_of_nat (0xF0 + c div 262144), word_of_nat (0x80 + c div 4096 mod 64),
         word_of_nat (0x80 + c div 64 mod 64), word_of_nat (0x80 + c mod 64)])"

text \<open>\<open>str::chars\<close> on a string, which is valid UTF-8.\<close>

fun chars :: "rstring \<Rightarrow> nat list" where
  "chars [] = []"
| "chars (b # bs) =
     (if b \<le> 0x7F then unat b # chars bs
      else if b \<le> 0xDF then
        (case bs of c1 # r \<Rightarrow> (unat b mod 32 * 64 + unat c1 mod 64) # chars r | _ \<Rightarrow> [])
      else if b \<le> 0xEF then
        (case bs of
           c1 # c2 # r \<Rightarrow> (unat b mod 16 * 4096 + unat c1 mod 64 * 64 + unat c2 mod 64) # chars r
         | _ \<Rightarrow> [])
      else
        (case bs of
           c1 # c2 # c3 # r \<Rightarrow>
             (unat b mod 8 * 262144 + unat c1 mod 64 * 4096 + unat c2 mod 64 * 64 + unat c3 mod 64)
             # chars r
         | _ \<Rightarrow> []))"

text \<open>\<open>char::is_whitespace\<close>: the property \<open>White_Space\<close> of Unicode. \<open>str::trim\<close>.\<close>

definition is_whitespace :: "nat \<Rightarrow> bool" where
  "is_whitespace c \<longleftrightarrow>
     (9 \<le> c \<and> c \<le> 13) \<or> c = 0x20 \<or> c = 0x85 \<or> c = 0xA0 \<or> c = 0x1680 \<or>
     (0x2000 \<le> c \<and> c \<le> 0x200A) \<or> c = 0x2028 \<or> c = 0x2029 \<or> c = 0x202F \<or> c = 0x205F \<or>
     c = 0x3000"

definition trim :: "nat list \<Rightarrow> nat list" where
  "trim cs = rev (dropWhile is_whitespace (rev (dropWhile is_whitespace cs)))"

section \<open>Decimal numbers\<close>

text \<open>\<open>to_string\<close> of the integer types.\<close>

fun nat_to_string :: "nat \<Rightarrow> rstring" where
  "nat_to_string n =
     (if n < 10 then [word_of_nat (48 + n)]
      else nat_to_string (n div 10) @ [word_of_nat (48 + n mod 10)])"

declare nat_to_string.simps [simp del]

definition int_to_string :: "int \<Rightarrow> rstring" where
  "int_to_string n = (if n < 0 then 45 # nat_to_string (nat (- n)) else nat_to_string (nat n))"

text \<open>
  \<open>str::parse\<close> of an integer type: an optional sign, the minus only for a signed type, then at
  least one digit and nothing else, and the number must be in the range of the type.
\<close>

definition is_digit :: "nat \<Rightarrow> bool" where
  "is_digit c \<longleftrightarrow> 48 \<le> c \<and> c \<le> 57"

definition parse_digits :: "nat list \<Rightarrow> int option" where
  "parse_digits cs =
     (if cs \<noteq> [] \<and> list_all is_digit cs then Some (foldl (\<lambda>n c. 10 * n + (int c - 48)) 0 cs)
      else None)"

definition parse_sign :: "int_type \<Rightarrow> nat list \<Rightarrow> int option" where
  "parse_sign t cs =
     (case cs of
        [] \<Rightarrow> None
      | c # ds \<Rightarrow>
          if c = 43 then parse_digits ds
          else if c = 45 \<and> int_signed t then map_option uminus (parse_digits ds)
          else parse_digits (c # ds))"

definition parse_int :: "int_type \<Rightarrow> nat list \<Rightarrow> int option" where
  "parse_int t cs =
     (case parse_sign t cs of
        None \<Rightarrow> None
      | Some n \<Rightarrow> if in_int_type t n then Some n else None)"

section \<open>Casts of floats\<close>

text \<open>
  \<open>f as i64\<close>: a NaN is zero, the fraction is cut off, what is out of range becomes the nearest
  number of the range. \<open>f64_scaled\<close> is the magnitude times \<open>2 ^ 1074\<close>.
\<close>

definition f64_trunc :: "f64 \<Rightarrow> int" where
  "f64_trunc w =
     (let m = f64_scaled (f64_mag w) div 2 ^ 1074 in if f64_sign w then - m else m)"

definition f64_as_i64 :: "f64 \<Rightarrow> int" where
  "f64_as_i64 w =
     (if f64_is_nan w then 0 else max (- (2 ^ 63)) (min (2 ^ 63 - 1) (f64_trunc w)))"

text \<open>
  \<open>v as f64\<close> of an \<open>f32\<close>, field by field: sign, exponent, fraction. A subnormal number has its
  leading bit moved in front of the point. A NaN keeps its payload and becomes quiet.
\<close>

fun top_bit :: "nat \<Rightarrow> nat" where
  "top_bit n = (if n < 2 then 0 else Suc (top_bit (n div 2)))"

declare top_bit.simps [simp del]

definition f64_of_fields :: "bool \<Rightarrow> nat \<Rightarrow> nat \<Rightarrow> f64" where
  "f64_of_fields s e f = word_of_nat ((if s then 2 ^ 63 else 0) + e * 2 ^ 52 + f)"

type_synonym f32 = "32 word"

definition f32_to_f64 :: "f32 \<Rightarrow> f64" where
  "f32_to_f64 w =
     (let s = 2 ^ 31 \<le> unat w; e = unat w div 2 ^ 23 mod 2 ^ 8; f = unat w mod 2 ^ 23
      in if e = 255 then
           f64_of_fields s 2047 (if f = 0 then 0 else f mod 2 ^ 22 * 2 ^ 29 + 2 ^ 51)
         else if e = 0 then
           (if f = 0 then f64_of_fields s 0 0
            else f64_of_fields s (top_bit f + 874) ((f - 2 ^ top_bit f) * 2 ^ (52 - top_bit f)))
         else f64_of_fields s (e + 896) (f * 2 ^ 29))"

section \<open>From primitives to values\<close>

definition from_unit :: "unit \<Rightarrow> value" where
  "from_unit _ = Null"

definition from_bool :: "bool \<Rightarrow> value" where
  "from_bool v = Bool v"

text \<open>\<open>impl_from_int\<close>: one function for the types of \<open>fits_i64\<close>; \<open>v as i64\<close> wraps.\<close>

definition from_int :: "int \<Rightarrow> value" where
  "from_int v = Int64 (i64_of_int v)"

definition from_f32 :: "f32 \<Rightarrow> value" where
  "from_f32 v = Float64 (f32_to_f64 v)"

definition from_f64 :: "f64 \<Rightarrow> value" where
  "from_f64 v = Float64 v"

text \<open>\<open>From<String>\<close> and \<open>From<&str>\<close>; \<open>From<Vec<u8>>\<close> and \<open>From<&[u8]>\<close>.\<close>

definition from_string :: "rstring \<Rightarrow> value" where
  "from_string v = String v"

definition from_char :: "nat \<Rightarrow> value" where
  "from_char v = String (char_to_string v)"

definition from_bytes :: "bytes \<Rightarrow> value" where
  "from_bytes v = Bytes v"

text \<open>The \<open>Into<Value>\<close> of the element type is the argument \<open>into\<close>.\<close>

definition from_array :: "('a \<Rightarrow> value) \<Rightarrow> 'a list \<Rightarrow> value" where
  "from_array into v = Array (map into v)"

definition from_option :: "('a \<Rightarrow> value) \<Rightarrow> 'a option \<Rightarrow> value" where
  "from_option into v = (case v of Some x \<Rightarrow> into x | None \<Rightarrow> Null)"

text \<open>A \<open>HashMap<String, V>\<close> is the list of its entries in the order of its iterator.\<close>

definition from_hash_map :: "('a \<Rightarrow> value) \<Rightarrow> (rstring \<times> 'a) list \<Rightarrow> value" where
  "from_hash_map into v = Document (doc_from_iter (map (\<lambda>(k, x). (k, into x)) v))"

section \<open>From values to primitives\<close>

datatype conversion_error =
    Type_mismatch string string
  | Overflow i64 string
  | Parse rstring string

fun try_int :: "int_type \<Rightarrow> value \<Rightarrow> conversion_error + int" where
  "try_int t (Int64 i) =
     (if in_int_type t (i64_val i) then Inr (i64_val i) else Inl (Overflow i (int_name t)))"
| "try_int t (Float64 f) =
     (if in_int_type t (f64_as_i64 f) then Inr (f64_as_i64 f)
      else Inl (Overflow (i64_of_int (f64_as_i64 f)) (int_name t)))"
| "try_int t (Bool b) = Inr (if b then 1 else 0)"
| "try_int t (String s) =
     (case parse_int t (trim (chars s)) of Some n \<Rightarrow> Inr n | None \<Rightarrow> Inl (Parse s (int_name t)))"
| "try_int t other = Inl (Type_mismatch (kind other) (int_name t))"

definition parse_bool :: "nat list \<Rightarrow> bool option" where
  "parse_bool cs =
     (if cs = chars (str ''true'') then Some True
      else if cs = chars (str ''false'') then Some False else None)"

fun try_bool :: "value \<Rightarrow> conversion_error + bool" where
  "try_bool (Bool b) = Inr b"
| "try_bool (Int64 i) = Inr (i64_val i \<noteq> 0)"
| "try_bool (Float64 f) = Inr (\<not> f64_is_zero f)"
| "try_bool (String s) =
     (case parse_bool (trim (chars s)) of Some b \<Rightarrow> Inr b | None \<Rightarrow> Inl (Parse s ''bool''))"
| "try_bool other = Inl (Type_mismatch (kind other) ''bool'')"

definition try_char :: "value \<Rightarrow> conversion_error + nat" where
  "try_char v =
     (case v of
        String s \<Rightarrow>
          (if length (chars s) = 1 then Inr (hd (chars s))
           else Inl (Type_mismatch (kind v) ''char''))
      | other \<Rightarrow> Inl (Type_mismatch (kind other) ''char''))"

fun try_bytes :: "value \<Rightarrow> conversion_error + bytes" where
  "try_bytes (Bytes b) = Inr b"
| "try_bytes (String s) = Inr s"
| "try_bytes other = Inl (Type_mismatch (kind other) ''Vec<u8>'')"

section \<open>Integers of a value\<close>

lemma i64_val_of_int: "- (2 ^ 63) \<le> n \<Longrightarrow> n < 2 ^ 63 \<Longrightarrow> i64_val (i64_of_int n) = n"
  using signed_take_bit_int_eq_self[of 63 n] sint_sbintrunc'[of n, where 'a = 64]
  by (simp add: i64_val_def i64_of_int_def)

section \<open>Characters and strings\<close>

lemma unat_byte: "n < 256 \<Longrightarrow> unat (word_of_nat n :: byte) = n"
  by (rule unat_byte_of_nat)

text \<open>The four forms of a sequence, by the range of the leading byte.\<close>

lemma byte_le:
  assumes "n < 256"
  shows "(word_of_nat n :: byte) \<le> 0x7F \<longleftrightarrow> n \<le> 127"
    and "(word_of_nat n :: byte) \<le> 0xDF \<longleftrightarrow> n \<le> 223"
    and "(word_of_nat n :: byte) \<le> 0xEF \<longleftrightarrow> n \<le> 239"
  using assms by (simp_all add: word_le_nat_alt unat_byte)

lemma chars_lead_1: "a \<le> 127 \<Longrightarrow> chars (word_of_nat a # s) = a # chars s"
  by (simp add: byte_le unat_byte)

lemma chars_lead_2:
  "127 < a \<Longrightarrow> a \<le> 223 \<Longrightarrow> b < 256 \<Longrightarrow>
   chars (word_of_nat a # word_of_nat b # s) = (a mod 32 * 64 + b mod 64) # chars s"
  by (simp add: byte_le unat_byte)

lemma chars_lead_3:
  "223 < a \<Longrightarrow> a \<le> 239 \<Longrightarrow> b < 256 \<Longrightarrow> c < 256 \<Longrightarrow>
   chars (word_of_nat a # word_of_nat b # word_of_nat c # s)
     = (a mod 16 * 4096 + b mod 64 * 64 + c mod 64) # chars s"
  by (simp add: byte_le unat_byte)

lemma chars_lead_4:
  "239 < a \<Longrightarrow> a < 256 \<Longrightarrow> b < 256 \<Longrightarrow> c < 256 \<Longrightarrow> d < 256 \<Longrightarrow>
   chars (word_of_nat a # word_of_nat b # word_of_nat c # word_of_nat d # s)
     = (a mod 8 * 262144 + b mod 64 * 4096 + c mod 64 * 64 + d mod 64) # chars s"
  by (simp add: byte_le unat_byte)

lemma tail_mod [simp]: "(128 + n mod 64) mod 64 = (n mod 64 :: nat)"
  using mod_add_left_eq[of 128 64 "n mod 64"] by simp

lemma lead_mod: "(192 + n) mod 32 = (n mod 32 :: nat)" "(224 + n) mod 16 = (n mod 16 :: nat)"
  "(240 + n) mod 8 = (n mod 8 :: nat)"
  using mod_add_left_eq[of 192 32 n] mod_add_left_eq[of 224 16 n] mod_add_left_eq[of 240 8 n]
  by simp_all

lemma tail_less: "128 + n mod 64 < (256 :: nat)"
  using mod_less_divisor[of 64 n] by linarith

lemma split_4096: "c div 4096 * 4096 + c div 64 mod 64 * 64 + c mod 64 = (c :: nat)"
proof -
  have "c div 4096 = c div 64 div 64" using div_mult2_eq[of c 64 64] by simp
  then show ?thesis
    using div_mult_mod_eq[of "c div 64" 64] div_mult_mod_eq[of c 64] by linarith
qed

lemma split_262144:
  "c div 262144 * 262144 + c div 4096 mod 64 * 4096 + c div 64 mod 64 * 64 + c mod 64 = (c :: nat)"
proof -
  have "c div 262144 = c div 4096 div 64" using div_mult2_eq[of c 4096 64] by simp
  then show ?thesis
    using split_4096[of c] div_mult_mod_eq[of "c div 4096" 64] by linarith
qed

lemma chars_char_to_string [simp]:
  assumes "c < 0x110000"
  shows "chars (char_to_string c @ s) = c # chars s"
proof -
  consider "c < 0x80" | "0x80 \<le> c" "c < 0x800" | "0x800 \<le> c" "c < 0x10000" | "0x10000 \<le> c"
    by linarith
  then show ?thesis
  proof cases
    case 1
    then show ?thesis by (simp add: char_to_string_def chars_lead_1 del: chars.simps)
  next
    case 2
    then have "c div 64 < 32" by auto
    with 2 show ?thesis
      by (simp add: char_to_string_def chars_lead_2 tail_less lead_mod
          del: chars.simps of_nat_add of_nat_numeral)
  next
    case 3
    then have "c div 4096 < 16" by auto
    with 3 show ?thesis
      by (simp add: char_to_string_def chars_lead_3 tail_less lead_mod split_4096
          del: chars.simps of_nat_add of_nat_numeral)
  next
    case 4
    then have "c div 262144 < 5" using assms by auto
    with 4 show ?thesis
      by (simp add: char_to_string_def chars_lead_4 tail_less lead_mod split_262144
          del: chars.simps of_nat_add of_nat_numeral)
  qed
qed

lemma char_to_string_valid:
  assumes "scalar_value c"
  shows "utf8_valid (char_to_string c)"
proof -
  note word_rules = word_le_nat_alt word_unat_eq_iff unat_byte utf8_cont_def tail_less
  have t: "n mod 64 \<le> 63" "n mod 64 < 64" for n :: nat
    using mod_less_divisor[of 64 n] by linarith+
  consider "c < 0x80" | "0x80 \<le> c" "c < 0x800" | "0x800 \<le> c" "c < 0x10000"
    | "0x10000 \<le> c" "c < 0x110000"
    using assms by (force simp: scalar_value_def)
  then show ?thesis
  proof cases
    case 1
    then show ?thesis by (simp add: char_to_string_def word_rules)
  next
    case 2
    then have "c div 64 < 32" "2 \<le> c div 64" by auto
    with 2 t[of c] show ?thesis
      by (simp add: char_to_string_def word_rules del: of_nat_add of_nat_numeral)
  next
    case 3
    then have "c div 4096 < 16" by auto
    moreover have "32 \<le> c div 64 mod 64" "c div 64 \<le> 63" if "c div 4096 = 0"
      using 3 that by (auto simp: div_eq_0_iff)
    moreover have "c div 64 mod 64 \<le> 31" if "c div 4096 = 13"
    proof -
      have "c < 0xE000" using that by auto
      then have "c < 0xD800" using assms by (auto simp: scalar_value_def)
      then have "c div 64 < 864" by auto
      moreover have "c div 64 div 64 = 13" using that div_mult2_eq[of c 64 64] by simp
      ultimately show ?thesis using div_mult_mod_eq[of "c div 64" 64] by linarith
    qed
    ultimately show ?thesis using 3
      by (simp add: char_to_string_def word_rules t del: of_nat_add of_nat_numeral)
  next
    case 4
    then have "c div 262144 < 5" by auto
    moreover have e: "c div 262144 = c div 4096 div 64" using div_mult2_eq[of c 4096 64] by simp
    moreover have "16 \<le> c div 4096 mod 64" "c div 4096 \<le> 63" if "c div 262144 = 0"
    proof -
      have "16 \<le> c div 4096" using 4 by auto
      then show "16 \<le> c div 4096 mod 64"
        using that e div_mult_mod_eq[of "c div 4096" 64] by linarith
      show "c div 4096 \<le> 63" using that e by (auto simp: div_eq_0_iff)
    qed
    moreover have "c div 4096 mod 64 \<le> 15" if "c div 262144 = 4"
    proof -
      have "c div 4096 < 272" using 4 by auto
      then show ?thesis using that e div_mult_mod_eq[of "c div 4096" 64] by linarith
    qed
    ultimately show ?thesis using 4
      by (simp add: char_to_string_def word_rules t del: of_nat_add of_nat_numeral)
  qed
qed

lemma chars_ascii: "\<forall>b \<in> set s. b \<le> 0x7F \<Longrightarrow> chars (s @ r) = map unat s @ chars r"
  by (induction s) auto

section \<open>Printing and parsing\<close>

lemma unat_digit: "d < 10 \<Longrightarrow> unat (word_of_nat (48 + d) :: byte) = 48 + d"
  by (rule unat_byte) simp

lemma nat_to_string_digits:
  "nat_to_string n \<noteq> [] \<and> (\<forall>b \<in> set (nat_to_string n). is_digit (unat b))"
proof (induction n rule: nat_to_string.induct)
  case (1 n)
  show ?case
  proof (cases "n < 10")
    case True
    then show ?thesis
      by (simp add: nat_to_string.simps[of n] is_digit_def unat_digit del: of_nat_add of_nat_numeral)
  next
    case False
    with 1 show ?thesis
      by (simp add: nat_to_string.simps[of n] is_digit_def unat_digit del: of_nat_add of_nat_numeral)
  qed
qed

lemma nat_to_string_number:
  "foldl (\<lambda>n c. 10 * n + (int c - 48)) 0 (map unat (nat_to_string n)) = int n"
proof (induction n rule: nat_to_string.induct)
  case (1 n)
  show ?case
  proof (cases "n < 10")
    case True
    then show ?thesis
      by (simp add: nat_to_string.simps[of n] unat_digit del: of_nat_add of_nat_numeral)
  next
    case False
    have "10 * (n div 10) + n mod 10 = n" by simp
    then have "10 * int (n div 10) + int (n mod 10) = int n" by (metis of_nat_add of_nat_mult of_nat_numeral)
    with 1 False show ?thesis
      by (simp add: nat_to_string.simps[of n] unat_digit del: of_nat_add of_nat_numeral)
  qed
qed

lemma digit_ascii: "is_digit (unat (b :: byte)) \<Longrightarrow> b \<le> 0x7F"
  by (simp add: is_digit_def word_le_nat_alt)

lemma chars_nat_to_string: "chars (nat_to_string n) = map unat (nat_to_string n)"
  using chars_ascii[of "nat_to_string n" "[]"] nat_to_string_digits[of n] digit_ascii by auto

lemma parse_digits_nat: "parse_digits (chars (nat_to_string n)) = Some (int n)"
  using nat_to_string_digits[of n]
  by (simp add: parse_digits_def chars_nat_to_string nat_to_string_number list_all_iff)

lemma parse_sign_digits: "parse_digits (c # cs) = Some n \<Longrightarrow> parse_sign t (c # cs) = Some n"
  by (auto simp: parse_sign_def parse_digits_def is_digit_def split: if_splits)

lemma parse_sign_nat: "parse_sign t (chars (nat_to_string n)) = Some (int n)"
proof -
  obtain c cs where cs: "map unat (nat_to_string n) = c # cs"
    using nat_to_string_digits[of n] by (cases "nat_to_string n") auto
  show ?thesis
    using parse_digits_nat[of n] unfolding chars_nat_to_string cs by (rule parse_sign_digits)
qed

lemma chars_int_to_string:
  "chars (int_to_string n) =
     (if n < 0 then 45 # chars (nat_to_string (nat (- n))) else chars (nat_to_string (nat n)))"
  by (simp add: int_to_string_def)

lemma parse_int_to_string:
  "parse_int t (chars (int_to_string n)) = (if in_int_type t n then Some n else None)"
proof (cases "n < 0")
  case True
  then show ?thesis
    using parse_digits_nat[of "nat (- n)"]
    by (auto simp: chars_int_to_string parse_int_def parse_sign_def parse_digits_def is_digit_def
        in_int_type_def int_min_def)
next
  case False
  then show ?thesis
    by (simp add: chars_int_to_string parse_int_def parse_sign_nat)
qed

lemma dropWhile_padded:
  "list_all P p \<Longrightarrow> xs \<noteq> [] \<Longrightarrow> \<not> P (hd xs) \<Longrightarrow> dropWhile P (p @ xs) = xs"
  by (induction p) (auto simp: dropWhile_eq_self_iff)

lemma trim_padded:
  assumes "list_all is_whitespace p" and "list_all is_whitespace q"
    and "cs \<noteq> []" and "\<not> is_whitespace (hd cs)" and "\<not> is_whitespace (last cs)"
  shows "trim (p @ cs @ q) = cs"
  using assms dropWhile_padded[of is_whitespace p "cs @ q"]
    dropWhile_padded[of is_whitespace "rev q" "rev cs"]
  by (simp add: trim_def hd_rev)

lemma digit_not_whitespace: "is_digit c \<Longrightarrow> \<not> is_whitespace c"
  by (auto simp: is_digit_def is_whitespace_def)

lemma trim_int_to_string:
  assumes "list_all is_whitespace p" and "list_all is_whitespace q"
  shows "trim (p @ chars (int_to_string n) @ q) = chars (int_to_string n)"
proof (rule trim_padded[OF assms])
  have d: "chars (nat_to_string m) \<noteq> [] \<and> is_digit (hd (chars (nat_to_string m))) \<and>
      is_digit (last (chars (nat_to_string m)))" for m
    using nat_to_string_digits[of m] by (auto simp: chars_nat_to_string hd_map last_map)
  show "chars (int_to_string n) \<noteq> []" using d by (auto simp: chars_int_to_string)
  show "\<not> is_whitespace (hd (chars (int_to_string n)))"
    using d digit_not_whitespace by (auto simp: chars_int_to_string is_whitespace_def)
  show "\<not> is_whitespace (last (chars (int_to_string n)))"
    using d digit_not_whitespace by (auto simp: chars_int_to_string)
qed

text \<open>The white space of ASCII, of which padding of a number usually consists.\<close>

definition ascii_space :: "byte \<Rightarrow> bool" where
  "ascii_space b \<longleftrightarrow> (9 \<le> b \<and> b \<le> 13) \<or> b = 32"

lemma chars_padded:
  assumes "list_all ascii_space p" and "list_all ascii_space q"
  shows "chars (p @ int_to_string n @ q) = map unat p @ chars (int_to_string n) @ map unat q"
    and "list_all is_whitespace (map unat p)" and "list_all is_whitespace (map unat q)"
proof -
  have ascii: "b \<le> 0x7F" if "ascii_space b" for b
    using that by (auto simp: ascii_space_def word_le_nat_alt)
  have "\<forall>b \<in> set (int_to_string n). b \<le> 0x7F"
    using nat_to_string_digits digit_ascii by (auto simp: int_to_string_def)
  then have "chars (p @ int_to_string n @ q) = map unat p @ map unat (int_to_string n) @ map unat q"
    and "chars (int_to_string n) = map unat (int_to_string n)"
    using assms ascii chars_ascii[of "int_to_string n"] chars_ascii[of p] chars_ascii[of q "[]"]
      chars_ascii[of "int_to_string n" "[]"] by (auto simp: list_all_iff)
  then show "chars (p @ int_to_string n @ q) = map unat p @ chars (int_to_string n) @ map unat q"
    by simp
  have "is_whitespace (unat b)" if "ascii_space b" for b
    using that by (auto simp: ascii_space_def is_whitespace_def word_le_nat_alt)
  then show "list_all is_whitespace (map unat p)" "list_all is_whitespace (map unat q)"
    using assms by (auto simp: list_all_iff)
qed

section \<open>Widening of floats\<close>

text \<open>The value of a finite \<open>f32\<close> times \<open>2 ^ 149\<close>.\<close>

definition f32_is_nan :: "f32 \<Rightarrow> bool" where
  "f32_is_nan w \<longleftrightarrow> unat w div 2 ^ 23 mod 2 ^ 8 = 255 \<and> unat w mod 2 ^ 23 \<noteq> 0"

definition f32_is_finite :: "f32 \<Rightarrow> bool" where
  "f32_is_finite w \<longleftrightarrow> unat w div 2 ^ 23 mod 2 ^ 8 < 255"

definition f32_num :: "f32 \<Rightarrow> int" where
  "f32_num w =
     (let e = unat w div 2 ^ 23 mod 2 ^ 8; f = int (unat w mod 2 ^ 23);
          m = (if e = 0 then f else (2 ^ 23 + f) * 2 ^ (e - 1))
      in if 2 ^ 31 \<le> unat w then - m else m)"

lemma fields_less: "e < 2048 \<Longrightarrow> f < 2 ^ 52 \<Longrightarrow> e * 2 ^ 52 + f < (2 ^ 63 :: nat)"
proof -
  assume "e < 2048" "f < 2 ^ 52"
  then have "e * 2 ^ 52 + f < (e + 1) * 2 ^ 52" by simp
  also have "\<dots> \<le> 2048 * 2 ^ 52" using \<open>e < 2048\<close> by (intro mult_right_mono) auto
  finally show ?thesis by simp
qed

lemma unat_f64_of_fields:
  assumes "e < 2048" "f < 2 ^ 52"
  shows "unat (f64_of_fields s e f) = (if s then 2 ^ 63 else 0) + (e * 2 ^ 52 + f)"
proof -
  have "(if s then 2 ^ 63 else 0) + e * 2 ^ 52 + f < (2 ^ 64 :: nat)"
    using fields_less[OF assms] by simp
  then show ?thesis unfolding f64_of_fields_def by (simp add: unat_of_nat del: of_nat_add)
qed

lemma f64_of_fields:
  assumes "e < 2048" "f < 2 ^ 52"
  shows "f64_sign (f64_of_fields s e f) = s" and "f64_mag (f64_of_fields s e f) = e * 2 ^ 52 + f"
  using fields_less[OF assms] by (simp_all add: f64_sign_unat f64_mag_def unat_f64_of_fields[OF assms])

lemma f64_scaled_fields:
  assumes "f < 2 ^ 52"
  shows "f64_scaled (e * 2 ^ 52 + f) = (if e = 0 then int f else (2 ^ 52 + int f) * 2 ^ (e - 1))"
  using assms by (simp add: f64_scaled_def Let_def)

lemma top_bit_bounds: "0 < n \<Longrightarrow> 2 ^ top_bit n \<le> n \<and> n < 2 * 2 ^ top_bit n"
proof (induction n rule: top_bit.induct)
  case (1 n)
  show ?case
  proof (cases "n < 2")
    case True
    with 1 show ?thesis by (simp add: top_bit.simps[of n])
  next
    case False
    with 1 have "2 ^ top_bit (n div 2) \<le> n div 2 \<and> n div 2 < 2 * 2 ^ top_bit (n div 2)" by simp
    moreover have "n = 2 * (n div 2) + n mod 2" "n mod 2 < 2" by simp_all
    ultimately have "2 * 2 ^ top_bit (n div 2) \<le> n \<and> n < 2 * (2 * 2 ^ top_bit (n div 2))"
      by linarith
    with False show ?thesis by (simp add: top_bit.simps[of n])
  qed
qed

lemma top_bit_less: "0 < n \<Longrightarrow> n < 2 ^ k \<Longrightarrow> top_bit n < k"
  using top_bit_bounds[of n] by (metis le_less_trans nat_power_less_imp_less zero_less_numeral)

text \<open>Moving the leading bit of a subnormal fraction in front of the point keeps the number.\<close>

lemma subnormal_fraction:
  assumes "0 < f" "f < 2 ^ 23"
  defines "k \<equiv> top_bit f"
  shows "(f - 2 ^ k) * 2 ^ (52 - k) < 2 ^ 52"
    and "(2 ^ 52 + int ((f - 2 ^ k) * 2 ^ (52 - k))) * 2 ^ (873 + k) = int f * 2 ^ 925"
proof -
  have k: "2 ^ k \<le> f" "f < 2 * 2 ^ k" "k < 23"
    using top_bit_bounds[of f] top_bit_less[of f 23] assms by auto
  have e: "(2 :: nat) ^ k * 2 ^ (52 - k) = 2 ^ 52" using k(3) by (simp flip: power_add)
  have "(f - 2 ^ k) * 2 ^ (52 - k) < 2 ^ k * 2 ^ (52 - k)"
    using k by (intro mult_strict_right_mono) auto
  then show "(f - 2 ^ k) * 2 ^ (52 - k) < 2 ^ 52" unfolding e .
  have "2 ^ 52 + (f - 2 ^ k) * 2 ^ (52 - k) = f * 2 ^ (52 - k)"
    using k(1) e by (simp add: diff_mult_distrib)
      (metis le_add_diff_inverse mult_le_mono1 e)
  then have "(2 ^ 52 + int ((f - 2 ^ k) * 2 ^ (52 - k))) = int f * 2 ^ (52 - k)"
    by (metis of_nat_add of_nat_mult of_nat_numeral of_nat_power)
  moreover have "(2 :: int) ^ (52 - k) * 2 ^ (873 + k) = 2 ^ 925"
    using k(3) by (simp flip: power_add)
  ultimately show "(2 ^ 52 + int ((f - 2 ^ k) * 2 ^ (52 - k))) * 2 ^ (873 + k) = int f * 2 ^ 925"
    by (simp only: mult.assoc)
qed

lemma f32_to_f64_num:
  assumes "f32_is_finite w"
  shows "\<not> f64_is_nan (f32_to_f64 w)" and "f64_num (f32_to_f64 w) = f32_num w * 2 ^ 925"
proof -
  define e where "e = unat w div 2 ^ 23 mod 2 ^ 8"
  define f where "f = unat w mod 2 ^ 23"
  define s where "s \<longleftrightarrow> 2 ^ 31 \<le> unat w"
  have f: "f < 2 ^ 23" unfolding f_def by simp
  have e: "e < 255" using assms by (simp add: f32_is_finite_def e_def)
  define m where "m = (if e = 0 then int f else (2 ^ 23 + int f) * 2 ^ (e - 1))"
  have num: "f32_num w = (if s then - m else m)"
    by (simp add: f32_num_def e_def f_def s_def m_def Let_def)
  define fits where "fits e' f' \<longleftrightarrow> f32_to_f64 w = f64_of_fields s e' f' \<and> e' < 2047 \<and> f' < 2 ^ 52 \<and>
      (if e' = 0 then int f' else (2 ^ 52 + int f') * 2 ^ (e' - 1)) = m * 2 ^ 925" for e' f'
  have "\<exists>e' f'. fits e' f'"
  proof (cases "e = 0")
    case True
    show ?thesis
    proof (cases "f = 0")
      case True
      with \<open>e = 0\<close> have "f32_to_f64 w = f64_of_fields s 0 0" "m = 0"
        by (simp_all add: f32_to_f64_def e_def f_def s_def m_def Let_def)
      then have "fits 0 0" by (simp add: fits_def)
      then show ?thesis by blast
    next
      case False
      define g where "g = (f - 2 ^ top_bit f) * 2 ^ (52 - top_bit f)"
      have "f32_to_f64 w = f64_of_fields s (top_bit f + 874) g" "m = int f"
        using False \<open>e = 0\<close> by (simp_all add: f32_to_f64_def e_def f_def s_def m_def g_def Let_def)
      moreover have "top_bit f < 23" using False f top_bit_less by simp
      moreover have "g < 2 ^ 52" "(2 ^ 52 + int g) * 2 ^ (873 + top_bit f) = int f * 2 ^ 925"
        using False f subnormal_fraction[of f] by (simp_all only: g_def neq0_conv)
      ultimately have "fits (top_bit f + 874) g" by (simp add: fits_def)
      then show ?thesis by blast
    qed
  next
    case False
    have "f32_to_f64 w = f64_of_fields s (e + 896) (f * 2 ^ 29)"
      using e False by (simp add: f32_to_f64_def e_def f_def s_def Let_def)
    moreover have "(2 ^ 52 + int (f * 2 ^ 29)) * 2 ^ (895 + e) = m * 2 ^ 925"
    proof -
      have "895 + e + 29 = e - 1 + 925" using False by simp
      then have pow: "(2 :: int) ^ (895 + e) * 2 ^ 29 = 2 ^ (e - 1) * 2 ^ 925"
        by (simp only: flip: power_add)
      have "2 ^ 52 + int (f * 2 ^ 29) = (2 ^ 23 + int f) * 2 ^ 29" by simp
      then have "(2 ^ 52 + int (f * 2 ^ 29)) * 2 ^ (895 + e)
          = (2 ^ 23 + int f) * (2 ^ (895 + e) * 2 ^ 29)" by (simp only: ac_simps)
      then show ?thesis using False by (simp only: pow m_def if_False mult.assoc)
    qed
    ultimately have "fits (e + 896) (f * 2 ^ 29)" using e f by (simp add: fits_def)
    then show ?thesis by blast
  qed
  then obtain e' f' where r: "f32_to_f64 w = f64_of_fields s e' f'" "e' < 2047" "f' < 2 ^ 52"
      "(if e' = 0 then int f' else (2 ^ 52 + int f') * 2 ^ (e' - 1)) = m * 2 ^ 925"
    unfolding fits_def by (elim exE conjE)
  note fields = f64_of_fields[of e' f' s]
  have "e' * 2 ^ 52 + f' < (e' + 1) * 2 ^ 52" using r(3) by simp
  also have "\<dots> \<le> 2047 * 2 ^ 52" using r(2) by (intro mult_right_mono) auto
  finally show "\<not> f64_is_nan (f32_to_f64 w)" using r fields by (simp add: f64_is_nan_def)
  show "f64_num (f32_to_f64 w) = f32_num w * 2 ^ 925"
    using r fields unfolding num f64_num_def by (simp only: f64_scaled_fields) simp
qed

end
