(* ===== verification/Serde.thy ===== *)
theory Serde
  imports Conversions
begin

text \<open>
  The serde bridge of \<open>crates/database/src/document.rs\<close>. What a \<open>Serialize\<close> implementation does
  is the tree of calls it makes on its serializer, the type \<open>ser\<close>; what a \<open>Deserialize\<close>
  implementation does is a function of the value it is driven from, and a visitor is a function
  of the one call a deserializer makes on it, the type \<open>visit\<close>. The file defines \<open>Serializer\<close>
  with its compound serializers, \<open>MapKeySerializer\<close>, \<open>to_value\<close>, \<open>to_document\<close>, the
  deserializer for \<open>Value\<close> with its access types, the visitor of \<open>Value\<close>, \<open>from_document\<close> and
  \<open>from_document_with_id\<close>.
\<close>

section \<open>Errors\<close>

datatype document_error =
    Root_not_document
  | Id_not_allowed
  | Non_string_key
  | Message string

text \<open>\<open>ser::Error::custom\<close> and \<open>de::Error::custom\<close>\<close>

definition custom :: "string \<Rightarrow> document_error" where
  "custom msg = Message msg"

section \<open>The calls of a serialization\<close>

text \<open>
  One constructor per method of \<open>serde::Serializer\<close>. Names of types are left out: no method of
  the two serializers looks at them. A sequence is the list of its elements, a map the list of
  its \<open>serialize_key\<close> and \<open>serialize_value\<close> calls in the order made, which need not alternate, a
  struct the list of its fields. \<open>Ser_custom\<close> is an implementation that fails on its own.
  \<open>Ser_int\<close> is used with the ten integer types of serde.
\<close>

datatype ser =
    Ser_bool bool
  | Ser_int int_type int
  | Ser_f32 f32
  | Ser_f64 f64
  | Ser_char nat
  | Ser_str rstring
  | Ser_bytes bytes
  | Ser_none
  | Ser_some ser
  | Ser_unit
  | Ser_unit_struct
  | Ser_unit_variant rstring
  | Ser_newtype_struct ser
  | Ser_newtype_variant rstring ser
  | Ser_seq "ser list"
  | Ser_tuple "ser list"
  | Ser_tuple_struct "ser list"
  | Ser_tuple_variant rstring "ser list"
  | Ser_map "map_call list"
  | Ser_struct "(rstring \<times> ser) list"
  | Ser_struct_variant rstring "(rstring \<times> ser) list"
  | Ser_custom string
and map_call =
    Serialize_key ser
  | Serialize_value ser

section \<open>Map keys\<close>

text \<open>\<open>MapKeySerializer\<close>. serde's own default for 128-bit integers is an error.\<close>

fun serialize_map_key :: "ser \<Rightarrow> document_error + rstring" where
  "serialize_map_key (Ser_str v) = Inr v"
| "serialize_map_key (Ser_char v) = Inr (char_to_string v)"
| "serialize_map_key (Ser_bool v) = Inr (str (if v then ''true'' else ''false''))"
| "serialize_map_key (Ser_int t v) =
     (if t = I128 then Inl (custom ''i128 is not supported'')
      else if t = U128 then Inl (custom ''u128 is not supported'')
      else Inr (int_to_string v))"
| "serialize_map_key (Ser_unit_variant variant) = Inr variant"
| "serialize_map_key (Ser_newtype_struct s) = serialize_map_key s"
| "serialize_map_key (Ser_custom msg) = Inl (custom msg)"
| "serialize_map_key _ = Inl Non_string_key"

section \<open>The serializer\<close>

text \<open>
  The states of the compound serializers are arguments of the loops that make their calls:
  \<open>ArraySerializer\<close> and \<open>TupleVariantSerializer\<close> are the vector so far, \<open>StructSerializer\<close> and
  \<open>StructVariantSerializer\<close> the document so far, \<open>MapSerializer\<close> the document and the next key.
\<close>

record map_serializer =
  ms_doc :: document
  ms_next_key :: "rstring option"

fun serialize_value :: "ser \<Rightarrow> document_error + value"
  and serialize_elements :: "value list \<Rightarrow> ser list \<Rightarrow> document_error + value list"
  and serialize_fields :: "document \<Rightarrow> (rstring \<times> ser) list \<Rightarrow> document_error + document"
  and serialize_map_calls :: "map_serializer \<Rightarrow> map_call list \<Rightarrow> document_error + map_serializer"
where
  "serialize_value (Ser_bool v) = Inr (Bool v)"
| "serialize_value (Ser_int t v) =
     (if t = I128 then Inl (custom ''i128 is not supported'')
      else if t = U128 then Inl (custom ''u128 is not supported'')
      else Inr (Int64 (i64_of_int v)))"
| "serialize_value (Ser_f32 v) = Inr (Float64 (f32_to_f64 v))"
| "serialize_value (Ser_f64 v) = Inr (Float64 v)"
| "serialize_value (Ser_char v) = Inr (String (char_to_string v))"
| "serialize_value (Ser_str v) = Inr (String v)"
| "serialize_value (Ser_bytes v) = Inr (Bytes v)"
| "serialize_value Ser_none = Inr Null"
| "serialize_value (Ser_some s) = serialize_value s"
| "serialize_value Ser_unit = Inr Null"
| "serialize_value Ser_unit_struct = Inr Null"
| "serialize_value (Ser_unit_variant variant) = Inr (String variant)"
| "serialize_value (Ser_newtype_struct s) = serialize_value s"
| "serialize_value (Ser_newtype_variant variant s) =
     and_then (serialize_value s)
       (\<lambda>v. Inr (Document (fst (doc_insert doc_new variant v))))"
| "serialize_value (Ser_seq xs) = and_then (serialize_elements [] xs) (\<lambda>vec. Inr (Array vec))"
| "serialize_value (Ser_tuple xs) = and_then (serialize_elements [] xs) (\<lambda>vec. Inr (Array vec))"
| "serialize_value (Ser_tuple_struct xs) =
     and_then (serialize_elements [] xs) (\<lambda>vec. Inr (Array vec))"
| "serialize_value (Ser_tuple_variant variant xs) =
     and_then (serialize_elements [] xs)
       (\<lambda>vec. Inr (Document (fst (doc_insert doc_new variant (Array vec)))))"
| "serialize_value (Ser_map calls) =
     and_then (serialize_map_calls \<lparr>ms_doc = doc_new, ms_next_key = None\<rparr> calls)
       (\<lambda>m. Inr (Document (ms_doc m)))"
| "serialize_value (Ser_struct fs) =
     and_then (serialize_fields doc_new fs) (\<lambda>doc. Inr (Document doc))"
| "serialize_value (Ser_struct_variant variant fs) =
     and_then (serialize_fields doc_new fs)
       (\<lambda>doc. Inr (Document (fst (doc_insert doc_new variant (Document doc)))))"
| "serialize_value (Ser_custom msg) = Inl (custom msg)"
| "serialize_elements vec [] = Inr vec"
| "serialize_elements vec (x # xs) =
     and_then (serialize_value x) (\<lambda>v. serialize_elements (vec @ [v]) xs)"
| "serialize_fields doc [] = Inr doc"
| "serialize_fields doc ((key, x) # xs) =
     and_then (serialize_value x) (\<lambda>v. serialize_fields (fst (doc_insert doc key v)) xs)"
| "serialize_map_calls m [] = Inr m"
| "serialize_map_calls m (Serialize_key k # calls) =
     and_then (serialize_map_key k) (\<lambda>key. serialize_map_calls (m\<lparr>ms_next_key := Some key\<rparr>) calls)"
| "serialize_map_calls m (Serialize_value x # calls) =
     (case ms_next_key m of
        None \<Rightarrow> Inl (custom ''value serialized before key'')
      | Some key \<Rightarrow>
          and_then (serialize_value x)
            (\<lambda>v. serialize_map_calls
              (m\<lparr>ms_doc := fst (doc_insert (ms_doc m) key v), ms_next_key := None\<rparr>) calls))"

text \<open>The free functions \<open>to_value\<close> and \<open>to_document\<close>\<close>

definition to_value :: "ser \<Rightarrow> document_error + value" where
  "to_value s = serialize_value s"

definition to_document :: "ser \<Rightarrow> document_error + document" where
  "to_document s =
     and_then (to_value s)
       (\<lambda>v. case v of
              Document doc \<Rightarrow> if doc_contains_key doc id_key then Inl Id_not_allowed else Inr doc
            | _ \<Rightarrow> Inl Root_not_document)"

text \<open>
  \<open>Serialize\<close> for \<open>Value\<close> and for \<open>Document\<close>. \<open>serialize_entry\<close> is a key and then its value; a
  vector serializes as the sequence of its elements.
\<close>

fun value_ser :: "value \<Rightarrow> ser" where
  "value_ser Null = Ser_unit"
| "value_ser (Bool b) = Ser_bool b"
| "value_ser (Int64 n) = Ser_int I64_type (i64_val n)"
| "value_ser (Float64 f) = Ser_f64 f"
| "value_ser (String s) = Ser_str s"
| "value_ser (Bytes b) = Ser_bytes b"
| "value_ser (Array a) = Ser_seq (map value_ser a)"
| "value_ser (Document d) =
     Ser_map (concat (map (\<lambda>(k, v). [Serialize_key (Ser_str k), Serialize_value (value_ser v)]) d))"

definition document_ser :: "document \<Rightarrow> ser" where
  "document_ser d =
     Ser_map (concat (map (\<lambda>(k, v). [Serialize_key (Ser_str k), Serialize_value (value_ser v)]) d))"

section \<open>The deserializer\<close>

text \<open>
  The call a deserializer makes on its visitor. \<open>Visit_seq\<close> carries the iterator of the
  \<open>SeqDeserializer\<close>, \<open>Visit_map\<close> that of a \<open>MapDeserializer\<close> without a pending value,
  \<open>Visit_enum\<close> the two fields of the \<open>EnumDeserializer\<close>.
\<close>

datatype visit =
    Visit_unit
  | Visit_bool bool
  | Visit_i64 i64
  | Visit_u64 u64
  | Visit_f64 f64
  | Visit_str rstring
  | Visit_string rstring
  | Visit_bytes bytes
  | Visit_byte_buf bytes
  | Visit_none
  | Visit_some "value"
  | Visit_newtype_struct "value"
  | Visit_seq "value list"
  | Visit_map "(rstring \<times> value) list"
  | Visit_enum rstring "value option"

text \<open>\<open>deserialize_any\<close>, to which all methods of \<open>forward_to_deserialize_any\<close> come down.\<close>

fun any_call :: "value \<Rightarrow> visit" where
  "any_call Null = Visit_unit"
| "any_call (Bool b) = Visit_bool b"
| "any_call (Int64 n) = Visit_i64 n"
| "any_call (Float64 f) = Visit_f64 f"
| "any_call (String s) = Visit_string s"
| "any_call (Bytes b) = Visit_byte_buf b"
| "any_call (Array arr) = Visit_seq arr"
| "any_call (Document doc) = Visit_map doc"

definition deserialize_any ::
  "value \<Rightarrow> (visit \<Rightarrow> document_error + 'a) \<Rightarrow> document_error + 'a" where
  "deserialize_any v visitor = visitor (any_call v)"

definition deserialize_option ::
  "value \<Rightarrow> (visit \<Rightarrow> document_error + 'a) \<Rightarrow> document_error + 'a" where
  "deserialize_option v visitor =
     (case v of Null \<Rightarrow> visitor Visit_none | other \<Rightarrow> visitor (Visit_some other))"

definition deserialize_bytes ::
  "value \<Rightarrow> (visit \<Rightarrow> document_error + 'a) \<Rightarrow> document_error + 'a" where
  "deserialize_bytes v visitor =
     (case v of Bytes b \<Rightarrow> visitor (Visit_byte_buf b) | other \<Rightarrow> deserialize_any other visitor)"

definition deserialize_byte_buf ::
  "value \<Rightarrow> (visit \<Rightarrow> document_error + 'a) \<Rightarrow> document_error + 'a" where
  "deserialize_byte_buf v visitor = deserialize_bytes v visitor"

definition deserialize_newtype_struct ::
  "value \<Rightarrow> (visit \<Rightarrow> document_error + 'a) \<Rightarrow> document_error + 'a" where
  "deserialize_newtype_struct v visitor = visitor (Visit_newtype_struct v)"

definition deserialize_enum ::
  "value \<Rightarrow> (visit \<Rightarrow> document_error + 'a) \<Rightarrow> document_error + 'a" where
  "deserialize_enum v visitor =
     (case v of
        String s \<Rightarrow> visitor (Visit_enum s None)
      | Document doc \<Rightarrow>
          (case doc of
             [] \<Rightarrow> Inl (custom ''expected an externally tagged enum'')
           | (k, w) # rest \<Rightarrow>
               if rest \<noteq> [] then Inl (custom ''expected a single-entry map for an enum variant'')
               else visitor (Visit_enum k (Some w)))
      | _ \<Rightarrow> Inl (custom ''expected an enum''))"

section \<open>The access types\<close>

text \<open>A seed is what is deserialized next, a function of the value it is driven from.\<close>

definition next_element_seed ::
  "(value \<Rightarrow> document_error + 'a) \<Rightarrow> value list \<Rightarrow> (document_error + 'a option) \<times> value list" where
  "next_element_seed seed iter =
     (case iter of
        v # rest \<Rightarrow> (and_then (seed v) (\<lambda>x. Inr (Some x)), rest)
      | [] \<Rightarrow> (Inr None, []))"

record map_deserializer =
  md_iter :: "(rstring \<times> value) list"
  md_value :: "value option"

definition next_key_seed ::
  "(value \<Rightarrow> document_error + 'a) \<Rightarrow> map_deserializer
   \<Rightarrow> (document_error + 'a option) \<times> map_deserializer" where
  "next_key_seed seed m =
     (case md_iter m of
        (key, v) # rest \<Rightarrow>
          (and_then (seed (String key)) (\<lambda>x. Inr (Some x)), \<lparr>md_iter = rest, md_value = Some v\<rparr>)
      | [] \<Rightarrow> (Inr None, m))"

definition next_value_seed ::
  "(value \<Rightarrow> document_error + 'a) \<Rightarrow> map_deserializer
   \<Rightarrow> (document_error + 'a) \<times> map_deserializer" where
  "next_value_seed seed m =
     (case md_value m of
        None \<Rightarrow> (Inl (custom ''value requested before key''), m)
      | Some v \<Rightarrow> (seed v, m\<lparr>md_value := None\<rparr>))"

text \<open>\<open>EnumDeserializer\<close>: the second result is the \<open>VariantDeserializer\<close>, the value it holds.\<close>

definition variant_seed ::
  "(value \<Rightarrow> document_error + 'a) \<Rightarrow> rstring \<Rightarrow> value option
   \<Rightarrow> document_error + 'a \<times> value option" where
  "variant_seed seed variant v = and_then (seed (String variant)) (\<lambda>x. Inr (x, v))"

definition unit_variant :: "value option \<Rightarrow> document_error + unit" where
  "unit_variant v =
     (case v of None \<Rightarrow> Inr () | Some _ \<Rightarrow> Inl (custom ''expected a unit variant''))"

definition newtype_variant_seed ::
  "(value \<Rightarrow> document_error + 'a) \<Rightarrow> value option \<Rightarrow> document_error + 'a" where
  "newtype_variant_seed seed v =
     (case v of Some w \<Rightarrow> seed w | None \<Rightarrow> Inl (custom ''expected a newtype variant''))"

definition tuple_variant ::
  "(visit \<Rightarrow> document_error + 'a) \<Rightarrow> value option \<Rightarrow> document_error + 'a" where
  "tuple_variant visitor v =
     (case v of
        Some (Array arr) \<Rightarrow> visitor (Visit_seq arr)
      | _ \<Rightarrow> Inl (custom ''expected a tuple variant''))"

definition struct_variant ::
  "(visit \<Rightarrow> document_error + 'a) \<Rightarrow> value option \<Rightarrow> document_error + 'a" where
  "struct_variant visitor v =
     (case v of
        Some (Document doc) \<Rightarrow> visitor (Visit_map doc)
      | _ \<Rightarrow> Inl (custom ''expected a struct variant''))"

section \<open>Deserializing the model's own types\<close>

text \<open>
  \<open>Value::deserialize\<close> with \<open>ValueVisitor\<close> and the loops of \<open>visit_seq\<close> and \<open>visit_map\<close>.
  \<open>string_de\<close> is serde's \<open>String::deserialize\<close>, which reads the keys of a map. The two calls
  without a method of \<open>ValueVisitor\<close> get serde's default error.
\<close>

fun visit_size :: "visit \<Rightarrow> nat" where
  "visit_size (Visit_some v) = Suc (size v)"
| "visit_size (Visit_seq iter) = size (Array iter)"
| "visit_size (Visit_map iter) = size (Document iter)"
| "visit_size _ = 0"

lemma visit_size_any_call [simp]: "visit_size (any_call v) \<le> size v"
  by (cases v) auto

function value_deserialize :: "(value \<Rightarrow> document_error + rstring) \<Rightarrow> value \<Rightarrow> document_error + value"
  and value_visitor :: "(value \<Rightarrow> document_error + rstring) \<Rightarrow> visit \<Rightarrow> document_error + value"
  and visit_seq_loop ::
    "(value \<Rightarrow> document_error + rstring) \<Rightarrow> value list \<Rightarrow> value list
     \<Rightarrow> document_error + value list"
  and visit_map_loop ::
    "(value \<Rightarrow> document_error + rstring) \<Rightarrow> document \<Rightarrow> (rstring \<times> value) list
     \<Rightarrow> document_error + document"
where
  "value_deserialize string_de v = value_visitor string_de (any_call v)"
| "value_visitor string_de (Visit_bool v) = Inr (Bool v)"
| "value_visitor string_de (Visit_i64 v) = Inr (Int64 v)"
| "value_visitor string_de (Visit_u64 v) = Inr (Int64 (I64 v))"
| "value_visitor string_de (Visit_f64 v) = Inr (Float64 v)"
| "value_visitor string_de (Visit_str v) = Inr (String v)"
| "value_visitor string_de (Visit_string v) = Inr (String v)"
| "value_visitor string_de (Visit_bytes v) = Inr (Bytes v)"
| "value_visitor string_de (Visit_byte_buf v) = Inr (Bytes v)"
| "value_visitor string_de Visit_none = Inr Null"
| "value_visitor string_de Visit_unit = Inr Null"
| "value_visitor string_de (Visit_some v) = value_deserialize string_de v"
| "value_visitor string_de (Visit_seq iter) =
     and_then (visit_seq_loop string_de [] iter) (\<lambda>vec. Inr (Array vec))"
| "value_visitor string_de (Visit_map iter) =
     and_then (visit_map_loop string_de doc_new iter) (\<lambda>doc. Inr (Document doc))"
| "value_visitor string_de (Visit_newtype_struct v) =
     Inl (custom ''invalid type: newtype struct, expected any document value'')"
| "value_visitor string_de (Visit_enum k v) =
     Inl (custom ''invalid type: enum, expected any document value'')"
| "visit_seq_loop string_de vec [] = Inr vec"
| "visit_seq_loop string_de vec (x # rest) =
     and_then (value_deserialize string_de x)
       (\<lambda>elem. visit_seq_loop string_de (vec @ [elem]) rest)"
| "visit_map_loop string_de doc [] = Inr doc"
| "visit_map_loop string_de doc ((key, x) # rest) =
     and_then (string_de (String key))
       (\<lambda>k. and_then (value_deserialize string_de x)
         (\<lambda>v. visit_map_loop string_de (fst (doc_insert doc k v)) rest))"
  by pat_completeness auto

termination
  by (relation "measure (\<lambda>x. case x of
      Inl (Inl (_, v)) \<Rightarrow> 2 * size v + 1
    | Inl (Inr (_, c)) \<Rightarrow> 2 * visit_size c
    | Inr (Inl (_, _, iter)) \<Rightarrow> 2 * size_list size iter + 1
    | Inr (Inr (_, _, iter)) \<Rightarrow> 2 * size_list (size_prod (\<lambda>_. 0) size) iter + 1)")
    (auto simp: le_imp_less_Suc)

definition document_deserialize ::
  "(value \<Rightarrow> document_error + rstring) \<Rightarrow> value \<Rightarrow> document_error + document" where
  "document_deserialize string_de v =
     and_then (value_deserialize string_de v)
       (\<lambda>w. case w of Document doc \<Rightarrow> Inr doc | _ \<Rightarrow> Inl (custom ''expected a document''))"

text \<open>\<open>from_document\<close> and \<open>from_document_with_id\<close> for a type that is deserialized by \<open>de\<close>\<close>

definition from_document ::
  "(value \<Rightarrow> document_error + 'a) \<Rightarrow> document \<Rightarrow> document_error + 'a" where
  "from_document de d = de (Document d)"

definition from_document_with_id ::
  "(value \<Rightarrow> document_error + 'a) \<Rightarrow> document \<Rightarrow> document_id \<Rightarrow> document_error + 'a" where
  "from_document_with_id de d i = from_document de (with_id d i)"

section \<open>The loops and the access types\<close>

text \<open>One round of each loop of \<open>ValueVisitor\<close> is one call on the access type it drives.\<close>

lemma visit_seq_loop_round:
  "visit_seq_loop string_de vec iter =
     (case next_element_seed (value_deserialize string_de) iter of
        (Inl e, _) \<Rightarrow> Inl e
      | (Inr None, _) \<Rightarrow> Inr vec
      | (Inr (Some elem), rest) \<Rightarrow> visit_seq_loop string_de (vec @ [elem]) rest)"
  by (cases iter) (auto simp: next_element_seed_def and_then_def split: sum.splits)

lemma visit_map_loop_round:
  "visit_map_loop string_de doc iter =
     (case next_key_seed string_de \<lparr>md_iter = iter, md_value = None\<rparr> of
        (Inl e, _) \<Rightarrow> Inl e
      | (Inr None, _) \<Rightarrow> Inr doc
      | (Inr (Some k), m) \<Rightarrow>
          (case next_value_seed (value_deserialize string_de) m of
             (Inl e, _) \<Rightarrow> Inl e
           | (Inr v, m') \<Rightarrow> visit_map_loop string_de (fst (doc_insert doc k v)) (md_iter m')))"
  by (cases iter)
    (auto simp: next_key_seed_def next_value_seed_def and_then_def split: sum.splits prod.splits)

lemma value_deserialize_any:
  "value_deserialize string_de v = deserialize_any v (value_visitor string_de)"
  by (simp add: deserialize_any_def)

section \<open>Values with distinct keys\<close>

text \<open>What the public operations on documents can build: each key once, at every depth.\<close>

fun value_ok :: "value \<Rightarrow> bool" where
  "value_ok (Array a) = list_all value_ok a"
| "value_ok (Document d) = (doc_ok d \<and> list_all (\<lambda>(_, v). value_ok v) d)"
| "value_ok _ = True"

text \<open>An invariant of documents under insertion.\<close>

definition entries_ok :: "document \<Rightarrow> bool" where
  "entries_ok d \<longleftrightarrow> value_ok (Document d)"

lemma entries_ok_empty [simp]: "entries_ok []"
  by (simp add: entries_ok_def doc_ok_def)

lemma set_doc_insert: "set (fst (doc_insert d k v)) \<subseteq> insert (k, v) (set d)"
  by (induction d) (auto split: if_splits simp del: doc_insert.simps(2))

lemma entries_ok_insert [simp]:
  "entries_ok d \<Longrightarrow> value_ok v \<Longrightarrow> entries_ok (fst (doc_insert d k v))"
  using set_doc_insert[of d k v] by (auto simp: entries_ok_def list_all_iff)

lemma doc_insert_new: "k \<notin> fst ` set d \<Longrightarrow> fst (doc_insert d k v) = d @ [(k, v)]"
  by (induction d) (auto simp del: doc_insert.simps(2))

lemma entries_ok_Cons: "entries_ok ((k, v) # d) \<longleftrightarrow> k \<notin> fst ` set d \<and> value_ok v \<and> entries_ok d"
  by (auto simp: entries_ok_def doc_ok_def)

lemma entries_ok_iff: "entries_ok d \<longleftrightarrow> doc_ok d \<and> list_all (\<lambda>(_, v). value_ok v) d"
  by (simp add: entries_ok_def)

lemma value_ok_Document [simp]: "value_ok (Document d) = entries_ok d"
  by (simp add: entries_ok_def)

declare value_ok.simps(2) [simp del]

section \<open>What the serializer produces\<close>

text \<open>Every value the serializer produces has distinct keys, whatever calls are made on it.\<close>

lemma serialize_ok:
  "serialize_value s = Inr v \<Longrightarrow> value_ok v"
  "serialize_elements vec xs = Inr vec' \<Longrightarrow> list_all value_ok vec \<Longrightarrow> list_all value_ok vec'"
  "serialize_fields d fs = Inr d' \<Longrightarrow> entries_ok d \<Longrightarrow> entries_ok d'"
  "serialize_map_calls m calls = Inr m' \<Longrightarrow> entries_ok (ms_doc m) \<Longrightarrow> entries_ok (ms_doc m')"
proof (induction s and vec xs and d fs and m calls arbitrary: v and vec' and d' and m'
    rule: serialize_value_serialize_elements_serialize_fields_serialize_map_calls.induct)
qed (auto simp: doc_new_def entries_ok_Cons split: if_splits option.splits)

section \<open>Round trips\<close>

lemma i64_of_int_val [simp]: "i64_of_int (i64_val x) = x"
  by (cases x) (simp add: i64_of_int_def i64_val_def)

lemma serialize_elements_ser:
  "(\<And>x. x \<in> set a \<Longrightarrow> serialize_value (value_ser x) = Inr x) \<Longrightarrow>
   serialize_elements vec (map value_ser a) = Inr (vec @ a)"
  by (induction a arbitrary: vec) auto

lemma serialize_map_calls_ser:
  "\<forall>(k, v) \<in> set d. serialize_value (value_ser v) = Inr v \<Longrightarrow> doc_ok (d0 @ d) \<Longrightarrow>
   serialize_map_calls \<lparr>ms_doc = d0, ms_next_key = None\<rparr>
     (concat (map (\<lambda>(k, v). [Serialize_key (Ser_str k), Serialize_value (value_ser v)]) d))
     = Inr \<lparr>ms_doc = d0 @ d, ms_next_key = None\<rparr>"
proof (induction d arbitrary: d0)
  case (Cons p d)
  obtain k v where p: "p = (k, v)" by force
  have "k \<notin> fst ` set d0" using Cons.prems(2) by (auto simp: doc_ok_def p)
  with Cons.prems Cons.IH[of "d0 @ [(k, v)]"] show ?case by (simp add: p doc_insert_new)
qed simp

lemma serialize_value_ser: "value_ok v \<Longrightarrow> serialize_value (value_ser v) = Inr v"
proof (induction v rule: value_ser.induct)
  case (7 a)
  then show ?case using serialize_elements_ser[of a "[]"] by (simp add: list_all_iff)
next
  case (8 d)
  then have "\<forall>(k, v) \<in> set d. serialize_value (value_ser v) = Inr v"
    by (force simp: entries_ok_iff list_all_iff)
  moreover have "doc_ok d" using 8 by (simp add: entries_ok_iff)
  ultimately show ?case using serialize_map_calls_ser[of d "[]"] by (simp add: doc_new_def)
qed simp_all

lemma deserialize_id:
  "\<forall>s. string_de (String s) = Inr s \<Longrightarrow> value_ok v \<Longrightarrow> value_deserialize string_de v = Inr v"
  "\<forall>s. string_de (String s) = Inr s \<Longrightarrow> any_call w = c \<Longrightarrow> value_ok w \<Longrightarrow>
     value_visitor string_de c = Inr w"
  "\<forall>s. string_de (String s) = Inr s \<Longrightarrow> list_all value_ok iter \<Longrightarrow>
     visit_seq_loop string_de vec iter = Inr (vec @ iter)"
  "\<forall>s. string_de (String s) = Inr s \<Longrightarrow> doc_ok (d @ es) \<Longrightarrow> list_all (\<lambda>(_, v). value_ok v) es \<Longrightarrow>
     visit_map_loop string_de d es = Inr (d @ es)"
proof (induction string_de v and string_de c and string_de vec iter and string_de d es
    arbitrary: and w
    rule: value_deserialize_value_visitor_visit_seq_loop_visit_map_loop.induct)
  case (20 string_de d key x rest)
  then have "key \<notin> fst ` set d" by (auto simp: doc_ok_def)
  with 20(1,3-) 20(2)[of key x] show ?case by (simp add: doc_insert_new)
qed (auto simp: entries_ok_iff doc_new_def elim: any_call.elims)

section \<open>The write path\<close>

lemma to_document_Inr:
  "to_document s = Inr d \<longleftrightarrow> to_value s = Inr (Document d) \<and> id_key \<notin> fst ` set d"
proof (cases "to_value s")
  case (Inr v)
  then show ?thesis by (cases v) (auto simp: to_document_def doc_contains_key_iff)
qed (simp add: to_document_def)

lemma doc_remove_absent: "k \<notin> fst ` set d \<Longrightarrow> fst (doc_remove d k) = d"
  by (induction d) (auto simp del: doc_remove.simps(2))

end
