(* ===== verification/Db_Error.thy ===== *)
theory Db_Error
  imports Serde
begin

text \<open>
  \<open>crates/database/src/error.rs\<close>: the error of the database crate, which wraps the errors of the
  layers below it. \<open>'e\<close> is \<open>heed3::Error\<close>, which the storage crate wraps.
\<close>

text \<open>\<open>Error::Other\<close> is only built by \<open>unique()\<close>, from the number of documents found.\<close>

datatype 'e db_error =
    Storage "'e storage_error"
  | Document_error document_error
  | Conversion conversion_error
  | Encoding encoding_error
  | Worker_unavailable
  | Transaction_not_found u64
  | Collection_not_found rstring
  | Conflict
  | Not_unique nat

end
