(* ===== verification/Query.thy ===== *)
theory Query
  imports Db_Error
begin

text \<open>
  \<open>crates/database/src/query.rs\<close> and \<open>crates/database/src/query/builder.rs\<close>: the staged query
  builder and its lowering to the storage-facing \<open>Query\<close>. The builder's stages are types of their
  own, as in the code, where they make illegal chains impossible. \<open>&Transaction\<close>, which every
  stage carries along, only reaches the terminals; there it is the parameter \<open>run\<close>, what
  \<open>run_query\<close> answers.
\<close>

section \<open>The query\<close>

datatype order = Asc | Desc

datatype comparison_operator = Eq | Neq | Gt | Gte | Lt | Lte

datatype filter_tree =
    And "filter_tree list"
  | Or "filter_tree list"
  | Not filter_tree
  | Comparison rstring comparison_operator bytes

record with_index =
  wi_index_name :: rstring
  wi_lower :: "rstring list \<times> bytes bound"
  wi_upper :: "rstring list \<times> bytes bound"

record "query" =
  q_collection_name :: rstring
  q_with_index :: "with_index option"
  q_filter :: "filter_tree option"
  q_order :: "order option"
  q_limit :: "u64 option"

section \<open>The index-range filter builder\<close>

datatype lower_bound = Lower_gt "value" | Lower_gte "value"

datatype upper_bound = Upper_lt "value" | Upper_lte "value"

record index_filter_state =
  fs_index_name :: rstring
  fs_eq :: "(rstring \<times> value) list"
  fs_lower :: "(rstring \<times> lower_bound) option"
  fs_upper :: "(rstring \<times> upper_bound) option"

datatype with_index_filter_builder = Open_builder index_filter_state
datatype with_index_lower_bounded = Lower_bounded index_filter_state
datatype with_index_upper_bounded = Upper_bounded index_filter_state
datatype with_index_filter = With_index_filter (filter_state: index_filter_state)

definition wif_new :: "rstring \<Rightarrow> with_index_filter_builder" where
  "wif_new name = Open_builder
     \<lparr>fs_index_name = name, fs_eq = [], fs_lower = None, fs_upper = None\<rparr>"

fun wif_eq :: "with_index_filter_builder \<Rightarrow> rstring \<Rightarrow> value \<Rightarrow> with_index_filter_builder" where
  "wif_eq (Open_builder s) key v = Open_builder (s\<lparr>fs_eq := fs_eq s @ [(key, v)]\<rparr>)"

fun wif_gt :: "with_index_filter_builder \<Rightarrow> rstring \<Rightarrow> value \<Rightarrow> with_index_lower_bounded" where
  "wif_gt (Open_builder s) key v = Lower_bounded (s\<lparr>fs_lower := Some (key, Lower_gt v)\<rparr>)"

fun wif_gte :: "with_index_filter_builder \<Rightarrow> rstring \<Rightarrow> value \<Rightarrow> with_index_lower_bounded" where
  "wif_gte (Open_builder s) key v = Lower_bounded (s\<lparr>fs_lower := Some (key, Lower_gte v)\<rparr>)"

fun wif_lt :: "with_index_filter_builder \<Rightarrow> rstring \<Rightarrow> value \<Rightarrow> with_index_upper_bounded" where
  "wif_lt (Open_builder s) key v = Upper_bounded (s\<lparr>fs_upper := Some (key, Upper_lt v)\<rparr>)"

fun wif_lte :: "with_index_filter_builder \<Rightarrow> rstring \<Rightarrow> value \<Rightarrow> with_index_upper_bounded" where
  "wif_lte (Open_builder s) key v = Upper_bounded (s\<lparr>fs_upper := Some (key, Upper_lte v)\<rparr>)"

fun wlb_lt :: "with_index_lower_bounded \<Rightarrow> rstring \<Rightarrow> value \<Rightarrow> with_index_filter" where
  "wlb_lt (Lower_bounded s) key v = With_index_filter (s\<lparr>fs_upper := Some (key, Upper_lt v)\<rparr>)"

fun wlb_lte :: "with_index_lower_bounded \<Rightarrow> rstring \<Rightarrow> value \<Rightarrow> with_index_filter" where
  "wlb_lte (Lower_bounded s) key v = With_index_filter (s\<lparr>fs_upper := Some (key, Upper_lte v)\<rparr>)"

fun wub_gt :: "with_index_upper_bounded \<Rightarrow> rstring \<Rightarrow> value \<Rightarrow> with_index_filter" where
  "wub_gt (Upper_bounded s) key v = With_index_filter (s\<lparr>fs_lower := Some (key, Lower_gt v)\<rparr>)"

fun wub_gte :: "with_index_upper_bounded \<Rightarrow> rstring \<Rightarrow> value \<Rightarrow> with_index_filter" where
  "wub_gte (Upper_bounded s) key v = With_index_filter (s\<lparr>fs_lower := Some (key, Lower_gte v)\<rparr>)"

fun from_open_builder :: "with_index_filter_builder \<Rightarrow> with_index_filter" where
  "from_open_builder (Open_builder s) = With_index_filter s"

fun from_lower_bounded :: "with_index_lower_bounded \<Rightarrow> with_index_filter" where
  "from_lower_bounded (Lower_bounded s) = With_index_filter s"

fun from_upper_bounded :: "with_index_upper_bounded \<Rightarrow> with_index_filter" where
  "from_upper_bounded (Upper_bounded s) = With_index_filter s"

section \<open>Filter expressions\<close>

datatype filter_expr =
    Expr_and "filter_expr list"
  | Expr_or "filter_expr list"
  | Expr_not filter_expr
  | Expr_comparison rstring comparison_operator "value"

definition fb_comparison :: "rstring \<Rightarrow> comparison_operator \<Rightarrow> value \<Rightarrow> filter_expr" where
  "fb_comparison field operator v = Expr_comparison field operator v"

definition fb_eq :: "rstring \<Rightarrow> value \<Rightarrow> filter_expr" where "fb_eq f v = fb_comparison f Eq v"
definition fb_neq :: "rstring \<Rightarrow> value \<Rightarrow> filter_expr" where "fb_neq f v = fb_comparison f Neq v"
definition fb_gt :: "rstring \<Rightarrow> value \<Rightarrow> filter_expr" where "fb_gt f v = fb_comparison f Gt v"
definition fb_gte :: "rstring \<Rightarrow> value \<Rightarrow> filter_expr" where "fb_gte f v = fb_comparison f Gte v"
definition fb_lt :: "rstring \<Rightarrow> value \<Rightarrow> filter_expr" where "fb_lt f v = fb_comparison f Lt v"
definition fb_lte :: "rstring \<Rightarrow> value \<Rightarrow> filter_expr" where "fb_lte f v = fb_comparison f Lte v"
definition fb_and :: "filter_expr list \<Rightarrow> filter_expr" where "fb_and es = Expr_and es"
definition fb_or :: "filter_expr list \<Rightarrow> filter_expr" where "fb_or es = Expr_or es"
definition fb_not :: "filter_expr \<Rightarrow> filter_expr" where "fb_not e = Expr_not e"

section \<open>Lowering\<close>

definition encode_key :: "value option list \<Rightarrow> 'e db_error + bytes" where
  "encode_key entry = map_err Encoding (encode_entry entry)"

fun filter_expr_to_filter :: "filter_expr \<Rightarrow> 'e db_error + filter_tree" where
  "filter_expr_to_filter (Expr_and es) =
     and_then (collect_results filter_expr_to_filter es) (\<lambda>fs. Inr (And fs))"
| "filter_expr_to_filter (Expr_or es) =
     and_then (collect_results filter_expr_to_filter es) (\<lambda>fs. Inr (Or fs))"
| "filter_expr_to_filter (Expr_not e) =
     and_then (filter_expr_to_filter e) (\<lambda>f. Inr (Not f))"
| "filter_expr_to_filter (Expr_comparison field operator v) =
     and_then (encode_key [Some v]) (\<lambda>b. Inr (Comparison field operator b))"

definition build_filter :: "filter_expr list \<Rightarrow> 'e db_error + filter_tree option" where
  "build_filter filters =
     and_then (collect_results filter_expr_to_filter filters) (\<lambda>converted.
     Inr (case converted of [] \<Rightarrow> None | [f] \<Rightarrow> Some f | _ \<Rightarrow> Some (And converted)))"

fun attach :: "rstring list \<Rightarrow> bytes bound \<Rightarrow> rstring list \<times> bytes bound" where
  "attach names Bound_unbounded = ([], Bound_unbounded)"
| "attach names b = (names, b)"

text \<open>
  \<open>prefix_successor\<close>: the loop looks at the last byte, drops it when it is \<open>0xFF\<close>, and
  increments it otherwise.
\<close>

function prefix_successor :: "bytes \<Rightarrow> bytes option" where
  "prefix_successor out =
     (if out = [] then None
      else if last out = 0xFF then prefix_successor (butlast out)
      else Some (butlast out @ [last out + 1]))"
  by pat_completeness auto
termination
  by (relation "measure length") auto

declare prefix_successor.simps [simp del]

definition build_with_index :: "with_index_filter \<Rightarrow> 'e db_error + with_index" where
  "build_with_index wif =
     (let s = filter_state wif;
          eq_fields = map fst (fs_eq s);
          prefix_fields = map (\<lambda>(_, v). Some v) (fs_eq s)
      in and_then (encode_key prefix_fields) (\<lambda>prefix.
         let prefix_start = (if fs_eq s \<noteq> [] then Bound_included prefix else Bound_unbounded);
             prefix_end = (case prefix_successor prefix of
                 Some successor \<Rightarrow> Bound_excluded successor | None \<Rightarrow> Bound_unbounded);
             range_key = (\<lambda>v. encode_key (prefix_fields @ [Some v]))
         in and_then
              (case fs_lower s of
                 None \<Rightarrow> Inr (attach eq_fields prefix_start)
               | Some (field, Lower_gt v) \<Rightarrow>
                   and_then (range_key v) (\<lambda>key.
                     Inr (attach (eq_fields @ [field]) (Bound_excluded key)))
               | Some (field, Lower_gte v) \<Rightarrow>
                   and_then (range_key v) (\<lambda>key.
                     Inr (attach (eq_fields @ [field]) (Bound_included key)))) (\<lambda>lower.
            and_then
              (case fs_upper s of
                 None \<Rightarrow> Inr (attach eq_fields prefix_end)
               | Some (field, Upper_lt v) \<Rightarrow>
                   and_then (range_key v) (\<lambda>key.
                     Inr (attach (eq_fields @ [field]) (Bound_excluded key)))
               | Some (field, Upper_lte v) \<Rightarrow>
                   and_then (range_key v) (\<lambda>key.
                     Inr (attach (eq_fields @ [field]) (Bound_included key)))) (\<lambda>upper.
            Inr \<lparr>wi_index_name = fs_index_name s, wi_lower = lower, wi_upper = upper\<rparr>))))"

fun build_with_index_opt :: "with_index_filter option \<Rightarrow> 'e db_error + with_index option" where
  "build_with_index_opt None = Inr None"
| "build_with_index_opt (Some w) = and_then (build_with_index w) (\<lambda>wi. Inr (Some wi))"

definition assemble ::
  "rstring \<Rightarrow> with_index_filter option \<Rightarrow> filter_expr list \<Rightarrow> order option \<Rightarrow> u64 option
   \<Rightarrow> 'e db_error + query" where
  "assemble collection_name wi filters ord limit =
     and_then (build_with_index_opt wi) (\<lambda>wi'.
     and_then (build_filter filters) (\<lambda>f.
     Inr \<lparr>q_collection_name = collection_name, q_with_index = wi', q_filter = f,
          q_order = ord, q_limit = limit\<rparr>))"

section \<open>The stages of the builder\<close>

record query_builder =
  qb_collection_name :: rstring

record query_builder_with_index =
  qi_collection_name :: rstring
  qi_with_index :: with_index_filter

record filtered_query_builder =
  qf_collection_name :: rstring
  qf_with_index :: "with_index_filter option"
  qf_filters :: "filter_expr list"

record ordered_query_builder =
  qo_collection_name :: rstring
  qo_with_index :: "with_index_filter option"
  qo_filters :: "filter_expr list"
  qo_order :: order

definition qb_new :: "rstring \<Rightarrow> query_builder" where
  "qb_new name = \<lparr>qb_collection_name = name\<rparr>"

text \<open>The closures handed to \<open>with_index\<close> and \<open>filter\<close> are functions of the builder they get.\<close>

definition qb_with_index ::
  "query_builder \<Rightarrow> rstring \<Rightarrow> (with_index_filter_builder \<Rightarrow> with_index_filter)
   \<Rightarrow> query_builder_with_index" where
  "qb_with_index b index_name f =
     \<lparr>qi_collection_name = qb_collection_name b, qi_with_index = f (wif_new index_name)\<rparr>"

definition qb_filter :: "query_builder \<Rightarrow> filter_expr \<Rightarrow> filtered_query_builder" where
  "qb_filter b e =
     \<lparr>qf_collection_name = qb_collection_name b, qf_with_index = None, qf_filters = [e]\<rparr>"

definition qb_order :: "query_builder \<Rightarrow> order \<Rightarrow> ordered_query_builder" where
  "qb_order b ord =
     \<lparr>qo_collection_name = qb_collection_name b, qo_with_index = None, qo_filters = [],
      qo_order = ord\<rparr>"

definition qi_filter :: "query_builder_with_index \<Rightarrow> filter_expr \<Rightarrow> filtered_query_builder" where
  "qi_filter b e =
     \<lparr>qf_collection_name = qi_collection_name b, qf_with_index = Some (qi_with_index b),
      qf_filters = [e]\<rparr>"

definition qi_order :: "query_builder_with_index \<Rightarrow> order \<Rightarrow> ordered_query_builder" where
  "qi_order b ord =
     \<lparr>qo_collection_name = qi_collection_name b, qo_with_index = Some (qi_with_index b),
      qo_filters = [], qo_order = ord\<rparr>"

definition qf_filter :: "filtered_query_builder \<Rightarrow> filter_expr \<Rightarrow> filtered_query_builder" where
  "qf_filter b e = b\<lparr>qf_filters := qf_filters b @ [e]\<rparr>"

definition qf_order :: "filtered_query_builder \<Rightarrow> order \<Rightarrow> ordered_query_builder" where
  "qf_order b ord =
     \<lparr>qo_collection_name = qf_collection_name b, qo_with_index = qf_with_index b,
      qo_filters = qf_filters b, qo_order = ord\<rparr>"

definition qb_into_query :: "query_builder \<Rightarrow> u64 option \<Rightarrow> 'e db_error + query" where
  "qb_into_query b limit = assemble (qb_collection_name b) None [] None limit"

definition qi_into_query :: "query_builder_with_index \<Rightarrow> u64 option \<Rightarrow> 'e db_error + query" where
  "qi_into_query b limit =
     assemble (qi_collection_name b) (Some (qi_with_index b)) [] None limit"

definition qf_into_query :: "filtered_query_builder \<Rightarrow> u64 option \<Rightarrow> 'e db_error + query" where
  "qf_into_query b limit =
     assemble (qf_collection_name b) (qf_with_index b) (qf_filters b) None limit"

definition qo_into_query :: "ordered_query_builder \<Rightarrow> u64 option \<Rightarrow> 'e db_error + query" where
  "qo_into_query b limit =
     assemble (qo_collection_name b) (qo_with_index b) (qo_filters b) (Some (qo_order b)) limit"

section \<open>Terminals\<close>

text \<open>
  The macro \<open>impl_terminals\<close> gives every stage the same terminals; here they take the stage's
  \<open>into_query\<close>. \<open>run\<close> is the answer of \<open>Transaction::run_query\<close>.
\<close>

definition exactly_one :: "document list \<Rightarrow> 'e db_error + document" where
  "exactly_one docs =
     (if length docs = 1 then Inr (last docs) else Inl (Not_unique (length docs)))"

definition term_take ::
  "(query \<Rightarrow> 'e db_error + document list) \<Rightarrow> (u64 option \<Rightarrow> 'e db_error + query) \<Rightarrow> u64
   \<Rightarrow> 'e db_error + document list" where
  "term_take run into_query limit = and_then (into_query (Some limit)) run"

definition term_first ::
  "(query \<Rightarrow> 'e db_error + document list) \<Rightarrow> (u64 option \<Rightarrow> 'e db_error + query)
   \<Rightarrow> 'e db_error + document option" where
  "term_first run into_query =
     and_then (into_query (Some 1)) (\<lambda>q. and_then (run q) (\<lambda>docs.
     Inr (case docs of [] \<Rightarrow> None | d # _ \<Rightarrow> Some d)))"

definition term_unique ::
  "(query \<Rightarrow> 'e db_error + document list) \<Rightarrow> (u64 option \<Rightarrow> 'e db_error + query)
   \<Rightarrow> 'e db_error + document" where
  "term_unique run into_query =
     and_then (into_query (Some 2)) (\<lambda>q. and_then (run q) exactly_one)"

definition term_collect ::
  "(query \<Rightarrow> 'e db_error + document list) \<Rightarrow> (u64 option \<Rightarrow> 'e db_error + query)
   \<Rightarrow> 'e db_error + document list" where
  "term_collect run into_query = and_then (into_query None) run"

text \<open>
  The \<open>_as\<close> terminals deserialize what they return into a type read by \<open>de\<close>; \<open>?\<close> and \<open>map_err\<close>
  wrap its error.
\<close>

definition deserialize_all ::
  "(value \<Rightarrow> document_error + 'a) \<Rightarrow> document list \<Rightarrow> 'e db_error + 'a list" where
  "deserialize_all de docs =
     collect_results (\<lambda>doc. map_err Document_error (from_document de doc)) docs"

definition term_take_as ::
  "(value \<Rightarrow> document_error + 'a) \<Rightarrow> (query \<Rightarrow> 'e db_error + document list)
   \<Rightarrow> (u64 option \<Rightarrow> 'e db_error + query) \<Rightarrow> u64 \<Rightarrow> 'e db_error + 'a list" where
  "term_take_as de run into_query limit =
     and_then (into_query (Some limit)) (\<lambda>q. and_then (run q) (deserialize_all de))"

definition term_first_as ::
  "(value \<Rightarrow> document_error + 'a) \<Rightarrow> (query \<Rightarrow> 'e db_error + document list)
   \<Rightarrow> (u64 option \<Rightarrow> 'e db_error + query) \<Rightarrow> 'e db_error + 'a option" where
  "term_first_as de run into_query =
     and_then (into_query (Some 1)) (\<lambda>q. and_then (run q) (\<lambda>docs.
       case docs of
         doc # _ \<Rightarrow>
           and_then (map_err Document_error (from_document de doc)) (\<lambda>x. Inr (Some x))
       | [] \<Rightarrow> Inr None))"

definition term_unique_as ::
  "(value \<Rightarrow> document_error + 'a) \<Rightarrow> (query \<Rightarrow> 'e db_error + document list)
   \<Rightarrow> (u64 option \<Rightarrow> 'e db_error + query) \<Rightarrow> 'e db_error + 'a" where
  "term_unique_as de run into_query =
     and_then (into_query (Some 2)) (\<lambda>q. and_then (run q) (\<lambda>docs.
       and_then (exactly_one docs) (\<lambda>doc. map_err Document_error (from_document de doc))))"

definition term_collect_as ::
  "(value \<Rightarrow> document_error + 'a) \<Rightarrow> (query \<Rightarrow> 'e db_error + document list)
   \<Rightarrow> (u64 option \<Rightarrow> 'e db_error + query) \<Rightarrow> 'e db_error + 'a list" where
  "term_collect_as de run into_query =
     and_then (into_query None) (\<lambda>q. and_then (run q) (deserialize_all de))"

text \<open>\<open>QueryBuilder::get\<close> and \<open>get_as\<close>; \<open>get_document\<close> is the answer of the transaction.\<close>

definition qb_get ::
  "(rstring \<Rightarrow> document_id \<Rightarrow> 'e db_error + document option) \<Rightarrow> query_builder \<Rightarrow> document_id
   \<Rightarrow> 'e db_error + document option" where
  "qb_get get_document q did = get_document (qb_collection_name q) did"

definition qb_get_as ::
  "(value \<Rightarrow> document_error + 'a) \<Rightarrow> (rstring \<Rightarrow> document_id \<Rightarrow> 'e db_error + document option)
   \<Rightarrow> query_builder \<Rightarrow> document_id \<Rightarrow> 'e db_error + 'a option" where
  "qb_get_as de get_document q did =
     and_then (get_document (qb_collection_name q) did) (\<lambda>found.
       case found of
         Some doc \<Rightarrow>
           and_then (map_err Document_error (from_document de doc)) (\<lambda>x. Inr (Some x))
       | None \<Rightarrow> Inr None)"

section \<open>The range of a prefix\<close>

lemma byte_le_max: "(b :: byte) \<le> 0xFF"
  using unsigned_less[of b, where ?'a = nat] by (simp add: word_le_nat_alt)

lemma byte_less_succ: "b \<noteq> 0xFF \<Longrightarrow> c < b + 1 \<longleftrightarrow> c \<le> (b :: byte)"
proof -
  assume "b \<noteq> 0xFF"
  then have "unat b \<noteq> 255" by (simp add: word_unat_eq_iff)
  with unsigned_less[of b, where ?'a = nat] have "unat (b + 1) = unat b + 1"
    by (simp add: unat_word_ariths)
  then show ?thesis by (simp add: word_less_nat_alt word_le_nat_alt less_Suc_eq_le)
qed

lemma prefix_successor_snoc:
  "prefix_successor (p @ [b]) = (if b = 0xFF then prefix_successor p else Some (p @ [b + 1]))"
  by (subst prefix_successor.simps) simp

lemma prefix_successor_Nil [simp]: "prefix_successor [] = None"
  by (simp add: prefix_successor.simps)

lemma between_prefix:
  "p @ x \<le> k \<Longrightarrow> k \<le> p @ (y :: 'a::linorder list) \<Longrightarrow> \<exists>r. k = p @ r"
proof (induction p arbitrary: k)
  case (Cons b p)
  then show ?case by (cases k) auto
qed simp

text \<open>The end of the prefix scan, as \<open>build_with_index\<close> computes it.\<close>

definition prefix_end :: "bytes \<Rightarrow> bytes bound" where
  "prefix_end p = (case prefix_successor p of Some s \<Rightarrow> Bound_excluded s | None \<Rightarrow> Bound_unbounded)"

lemma prefix_end_range: "p \<le> k \<and> below_bound (prefix_end p) k \<longleftrightarrow> (\<exists>r. k = p @ r)"
proof (induction p arbitrary: k rule: rev_induct)
  case Nil
  then show ?case by (simp add: prefix_end_def)
next
  case (snoc b p)
  show ?case
  proof (cases "b = 0xFF")
    case True
    have "p @ [b] \<le> k \<and> below_bound (prefix_end p) k \<longleftrightarrow> (\<exists>r. k = p @ [b] @ r)"
    proof
      assume *: "p @ [b] \<le> k \<and> below_bound (prefix_end p) k"
      then have "p \<le> k" using lex_prefix_le order_trans by blast
      with * snoc obtain r where k: "k = p @ r" by blast
      with * have "[b] \<le> r" by simp
      then show "\<exists>r. k = p @ [b] @ r" using k True leD[OF byte_le_max] by (cases r) auto
    next
      assume "\<exists>r. k = p @ [b] @ r"
      then show "p @ [b] \<le> k \<and> below_bound (prefix_end p) k" using snoc[of k] by auto
    qed
    then show ?thesis using True by (simp add: prefix_end_def prefix_successor_snoc)
  next
    case False
    have "p @ [b] \<le> k \<and> k < p @ [b + 1] \<longleftrightarrow> (\<exists>r. k = p @ [b] @ r)"
    proof
      assume *: "p @ [b] \<le> k \<and> k < p @ [b + 1]"
      then obtain r where k: "k = p @ r" using between_prefix by (metis less_imp_le)
      with * have "[b] \<le> r" "r < [b + 1]" by auto
      then show "\<exists>r. k = p @ [b] @ r" using k False by (cases r) (auto simp: byte_less_succ)
    next
      assume "\<exists>r. k = p @ [b] @ r"
      then show "p @ [b] \<le> k \<and> k < p @ [b + 1]" using False by (auto simp: byte_less_succ)
    qed
    then show ?thesis using False by (simp add: prefix_end_def prefix_successor_snoc)
  qed
qed

section \<open>The key range of an index filter\<close>

text \<open>
  \<open>lower_rest\<close> and \<open>upper_rest\<close> say what a key must look like after the equality prefix; every
  range built from a filter is the prefix and these two conditions.
\<close>

fun lower_rest :: "(rstring \<times> lower_bound) option \<Rightarrow> bytes \<Rightarrow> bool" where
  "lower_rest None r = True"
| "lower_rest (Some (_, Lower_gt v)) r = (field_code (Some v) < r)"
| "lower_rest (Some (_, Lower_gte v)) r = (field_code (Some v) \<le> r)"

fun upper_rest :: "(rstring \<times> upper_bound) option \<Rightarrow> bytes \<Rightarrow> bool" where
  "upper_rest None r = True"
| "upper_rest (Some (_, Upper_lt v)) r = (r < field_code (Some v))"
| "upper_rest (Some (_, Upper_lte v)) r = (r \<le> field_code (Some v))"

definition eq_prefix :: "index_filter_state \<Rightarrow> bytes" where
  "eq_prefix s = concat (map (\<lambda>(_, v). field_code (Some v)) (fs_eq s))"

lemma encode_key_Inr:
  "encode_key fs = Inr b \<longleftrightarrow> list_all scalar fs \<and> b = concat (map field_code fs)"
  by (auto simp: encode_key_def encode_entry_code)

lemma snd_attach [simp]: "snd (attach names b) = b"
  by (cases b) auto

lemma build_with_index_bounds:
  assumes "build_with_index w = Inr wi"
  shows "snd (wi_lower wi) = (case fs_lower (filter_state w) of
      None \<Rightarrow> if fs_eq (filter_state w) \<noteq> [] then Bound_included (eq_prefix (filter_state w))
              else Bound_unbounded
    | Some (_, Lower_gt v) \<Rightarrow> Bound_excluded (eq_prefix (filter_state w) @ field_code (Some v))
    | Some (_, Lower_gte v) \<Rightarrow> Bound_included (eq_prefix (filter_state w) @ field_code (Some v)))"
    (is ?lo)
  and "snd (wi_upper wi) = (case fs_upper (filter_state w) of
      None \<Rightarrow> prefix_end (eq_prefix (filter_state w))
    | Some (_, Upper_lt v) \<Rightarrow> Bound_excluded (eq_prefix (filter_state w) @ field_code (Some v))
    | Some (_, Upper_lte v) \<Rightarrow> Bound_included (eq_prefix (filter_state w) @ field_code (Some v)))"
    (is ?hi)
  using assms
  by (auto simp: build_with_index_def Let_def encode_key_Inr eq_prefix_def comp_def case_prod_unfold
      prefix_end_def split: option.splits lower_bound.splits upper_bound.splits)

lemma build_with_index_range:
  assumes "build_with_index w = Inr wi"
  shows "in_range (snd (wi_lower wi)) (snd (wi_upper wi)) key \<longleftrightarrow>
    (\<exists>r. key = eq_prefix (filter_state w) @ r \<and>
       lower_rest (fs_lower (filter_state w)) r \<and> upper_rest (fs_upper (filter_state w)) r)"
proof -
  define P where "P = eq_prefix (filter_state w)"
  define lo where "lo = fs_lower (filter_state w)"
  define hi where "hi = fs_upper (filter_state w)"
  let ?L = "snd (wi_lower wi)" and ?U = "snd (wi_upper wi)"
  have P0: "fs_eq (filter_state w) = [] \<Longrightarrow> P = []" by (simp add: P_def eq_prefix_def)
  note b = build_with_index_bounds[OF assms, folded P_def lo_def hi_def]
  have rest: "in_range ?L ?U (P @ r) \<longleftrightarrow> lower_rest lo r \<and> upper_rest hi r" for r
    using prefix_end_range[of P "P @ r"]
    by (auto simp: in_range_def b lex_prefix_le split: option.splits lower_bound.splits upper_bound.splits)
  have low: "P \<le> key" if "in_range ?L ?U key"
    using that P0 lex_prefix_le[of P] order_trans less_imp_le
    by (fastforce simp: in_range_def b split: option.splits lower_bound.splits upper_bound.splits if_splits)
  have "\<exists>r. key = P @ r" if r: "in_range ?L ?U key"
  proof (cases hi)
    case None
    with r low[OF r] show ?thesis using prefix_end_range[of P key] by (simp add: in_range_def b)
  next
    case (Some u)
    then have "\<exists>y. key \<le> P @ y"
      using r by (cases "snd u") (auto simp: in_range_def b split: prod.splits dest: less_imp_le)
    then show ?thesis using low[OF r] between_prefix[of P "[]" key] by auto
  qed
  then show ?thesis using rest by (auto simp flip: P_def lo_def hi_def)
qed

text \<open>What the filter asks of an index entry, in the order of fields.\<close>

fun lower_holds :: "(rstring \<times> lower_bound) option \<Rightarrow> value option \<Rightarrow> bool" where
  "lower_holds None x = True"
| "lower_holds (Some (_, Lower_gt v)) x = field_less (Some v) x"
| "lower_holds (Some (_, Lower_gte v)) x = (field_less (Some v) x \<or> field_equiv (Some v) x)"

fun upper_holds :: "(rstring \<times> upper_bound) option \<Rightarrow> value option \<Rightarrow> bool" where
  "upper_holds None x = True"
| "upper_holds (Some (_, Upper_lt v)) x = field_less x (Some v)"
| "upper_holds (Some (_, Upper_lte v)) x = (field_less x (Some v) \<or> field_equiv x (Some v))"

definition eqs_hold :: "index_filter_state \<Rightarrow> value option list \<Rightarrow> bool" where
  "eqs_hold s entry \<longleftrightarrow>
     length (fs_eq s) \<le> length entry \<and>
     list_all2 field_equiv (map (\<lambda>(_, v). Some v) (fs_eq s)) (take (length (fs_eq s)) entry)"

text \<open>
  The range of a filter over an entry that goes on after the range field: the last byte of the
  range key is followed by more bytes, so an exclusive lower bound lets the equal entries through
  and an inclusive upper bound keeps them out.
\<close>

fun relax_lower :: "(rstring \<times> lower_bound) option \<Rightarrow> (rstring \<times> lower_bound) option" where
  "relax_lower (Some (f, Lower_gt v)) = Some (f, Lower_gte v)"
| "relax_lower b = b"

fun relax_upper :: "(rstring \<times> upper_bound) option \<Rightarrow> (rstring \<times> upper_bound) option" where
  "relax_upper (Some (f, Upper_lte v)) = Some (f, Upper_lt v)"
| "relax_upper b = b"

lemma eqs_hold_prefix:
  assumes "list_all scalar entry" "list_all (\<lambda>(_, v). scalar (Some v)) (fs_eq s)"
  shows "concat (map field_code entry) = eq_prefix s @ r \<longleftrightarrow>
    eqs_hold s entry \<and> r = concat (map field_code (drop (length (fs_eq s)) entry))"
  using field.entry_code_prefix[of "map (\<lambda>(_, v). Some v) (fs_eq s)" entry r] assms
  by (auto simp: eq_prefix_def eqs_hold_def list_all_iff comp_def case_prod_unfold)

lemma build_with_index_scalar:
  assumes "build_with_index w = Inr wi"
  shows "list_all (\<lambda>(_, v). scalar (Some v)) (fs_eq (filter_state w))"
    and "fs_lower (filter_state w) = Some (f, Lower_gt v) \<Longrightarrow> scalar (Some v)"
    and "fs_lower (filter_state w) = Some (f, Lower_gte v) \<Longrightarrow> scalar (Some v)"
    and "fs_upper (filter_state w) = Some (f', Upper_lt u) \<Longrightarrow> scalar (Some u)"
    and "fs_upper (filter_state w) = Some (f', Upper_lte u) \<Longrightarrow> scalar (Some u)"
  using assms
  by (auto simp: build_with_index_def Let_def encode_key_Inr list_all_iff split: option.splits)

lemma lower_rest_field:
  assumes "scalar x" "\<And>f v. b = Some (f, Lower_gt v) \<Longrightarrow> scalar (Some v)"
    "\<And>f v. b = Some (f, Lower_gte v) \<Longrightarrow> scalar (Some v)"
  shows "lower_rest b (field_code x @ t) \<longleftrightarrow> lower_holds (if t = [] then b else relax_lower b) x"
proof (cases b)
  case (Some p)
  obtain f lb where p: "p = (f, lb)" by force
  show ?thesis
  proof (cases lb)
    case (Lower_gt v)
    then have "scalar (Some v)" using assms Some p by blast
    then show ?thesis using Some p Lower_gt assms(1)
      by (simp add: field.code_less field.code_append_less field.not_lt_iff)
  next
    case (Lower_gte v)
    then have "scalar (Some v)" using assms Some p by blast
    then have "field_code (Some v) \<le> field_code x @ t \<longleftrightarrow> lower_holds b x"
      using Some p Lower_gte assms(1)
      by (simp add: field.code_less_append field.not_lt_iff flip: not_less)
    then show ?thesis using Some p Lower_gte by simp
  qed
qed simp

lemma upper_rest_field:
  assumes "scalar x" "\<And>f v. b = Some (f, Upper_lt v) \<Longrightarrow> scalar (Some v)"
    "\<And>f v. b = Some (f, Upper_lte v) \<Longrightarrow> scalar (Some v)"
  shows "upper_rest b (field_code x @ t) \<longleftrightarrow> upper_holds (if t = [] then b else relax_upper b) x"
proof (cases b)
  case (Some p)
  obtain f ub where p: "p = (f, ub)" by force
  show ?thesis
  proof (cases ub)
    case (Upper_lt v)
    then have "scalar (Some v)" using assms Some p by blast
    then show ?thesis using Some p Upper_lt assms(1) by (simp add: field.code_less_append)
  next
    case (Upper_lte v)
    then have v: "scalar (Some v)" using assms Some p by blast
    show ?thesis
    proof (cases "t = []")
      case True
      then show ?thesis using Some p Upper_lte assms(1) v
        by (auto simp: field.code_less field.code_eq_iff le_less)
    next
      case False
      then show ?thesis using Some p Upper_lte assms(1) v
        by (simp add: field.code_append_less flip: not_less)
    qed
  qed
qed simp

text \<open>The range of an index filter over an entry that reaches the range field.\<close>

lemma index_range_entry:
  assumes w: "build_with_index w = Inr wi" and key: "encode_entry entry = Inr key"
    and long: "length (fs_eq (filter_state w)) < length entry"
  defines "s \<equiv> filter_state w"
  defines "n \<equiv> length (fs_eq s)"
  defines "tail \<equiv> concat (map field_code (drop (Suc n) entry))"
  shows "in_range (snd (wi_lower wi)) (snd (wi_upper wi)) key \<longleftrightarrow>
    eqs_hold s entry \<and> lower_holds (if tail = [] then fs_lower s else relax_lower (fs_lower s)) (entry ! n)
    \<and> upper_holds (if tail = [] then fs_upper s else relax_upper (fs_upper s)) (entry ! n)"
proof -
  have sc: "list_all scalar entry" and k: "key = concat (map field_code entry)"
    using key by (auto simp: encode_entry_code)
  have x: "scalar (entry ! n)" using sc long by (simp add: list_all_iff n_def s_def)
  have d: "concat (map field_code (drop n entry)) = field_code (entry ! n) @ tail"
    using long by (simp add: tail_def n_def s_def flip: Cons_nth_drop_Suc)
  have "in_range (snd (wi_lower wi)) (snd (wi_upper wi)) key \<longleftrightarrow> eqs_hold s entry \<and>
      lower_rest (fs_lower s) (field_code (entry ! n) @ tail) \<and>
      upper_rest (fs_upper s) (field_code (entry ! n) @ tail)"
    using build_with_index_range[OF w, of key, folded s_def] d
      eqs_hold_prefix[OF sc build_with_index_scalar(1)[OF w], folded s_def]
    by (auto simp: k n_def)
  then show ?thesis
    using lower_rest_field[OF x, of "fs_lower s" tail] upper_rest_field[OF x, of "fs_upper s" tail]
      build_with_index_scalar[OF w, folded s_def] by blast
qed

section \<open>Lowered filters\<close>

text \<open>The operands of an expression from left to right, and the expression with each replaced by its code.\<close>

fun operands :: "filter_expr \<Rightarrow> value list" where
  "operands (Expr_and es) = concat (map operands es)"
| "operands (Expr_or es) = concat (map operands es)"
| "operands (Expr_not e) = operands e"
| "operands (Expr_comparison field operator v) = [v]"

fun with_codes :: "filter_expr \<Rightarrow> filter_tree" where
  "with_codes (Expr_and es) = And (map with_codes es)"
| "with_codes (Expr_or es) = Or (map with_codes es)"
| "with_codes (Expr_not e) = Not (with_codes e)"
| "with_codes (Expr_comparison field operator v) = Comparison field operator (field_code (Some v))"

lemma find_append: "find P (xs @ ys) = (case find P xs of None \<Rightarrow> find P ys | Some x \<Rightarrow> Some x)"
  by (induction xs) auto

lemma collect_lowered:
  assumes "\<forall>x \<in> set xs. f x = (case find P (ops x) of Some v \<Rightarrow> Inl (err v) | None \<Rightarrow> Inr (g x))"
  shows "collect_results f xs =
    (case find P (concat (map ops xs)) of Some v \<Rightarrow> Inl (err v) | None \<Rightarrow> Inr (map g xs))"
  using assms by (induction xs) (auto simp: find_append split: option.splits)

lemma encode_key_single:
  "encode_key [Some v] =
    (if scalar (Some v) then Inr (field_code (Some v)) else Inl (Encoding (Not_a_scalar (kind v))))"
proof (cases "scalar (Some v)")
  case True
  then show ?thesis by (simp add: encode_key_Inr)
next
  case False
  then show ?thesis by (cases v) (simp_all add: encode_key_def encode_entry_def)
qed

lemma collect_filters:
  assumes "\<forall>e \<in> set es. (filter_expr_to_filter e :: 'e db_error + filter_tree) = (case find (\<lambda>v. \<not> scalar (Some v)) (operands e) of
     Some v \<Rightarrow> Inl (Encoding (Not_a_scalar (kind v))) | None \<Rightarrow> Inr (with_codes e))"
  shows "(collect_results filter_expr_to_filter es :: 'e db_error + filter_tree list) =
    (case find (\<lambda>v. \<not> scalar (Some v)) (concat (map operands es)) of
       Some v \<Rightarrow> Inl (Encoding (Not_a_scalar (kind v))) | None \<Rightarrow> Inr (map with_codes es))"
  using assms by (rule collect_lowered)

lemma lowering_eq:
  "filter_expr_to_filter e = (case find (\<lambda>v. \<not> scalar (Some v)) (operands e) of
     Some v \<Rightarrow> Inl (Encoding (Not_a_scalar (kind v))) | None \<Rightarrow> Inr (with_codes e))"
proof (induction e)
  case (Expr_and es)
  then show ?case by (simp add: collect_filters split: option.split)
next
  case (Expr_or es)
  then show ?case by (simp add: collect_filters split: option.split)
qed (simp_all add: encode_key_single split: option.split)

end
