(* ===== verification/Write_Set.thy ===== *)
theory Write_Set
  imports Types
begin

text \<open>
  \<open>crates/storage/src/write_set.rs\<close>: the batch of changes a transaction collects. All maps are
  \<open>BTreeMap\<close>s, so a later write to the same key replaces an earlier one and the engine applies
  them in key order. The file shows that the maps stay well-formed and, with
  \<open>ws_maps\<close>, what each operation changes.
\<close>

datatype document_write = Document_put bytes | Document_deleted

datatype index_write = Index_put | Index_deleted

record index_catalog_write =
  icw_name :: rstring
  icw_metadata :: bytes

record collection_write_set =
  cw_documents :: "(document_id, document_write) btree"
  cw_index_entries :: "(index_id, (index_position, index_write) btree) btree"
  cw_metadata :: "bytes option"

record write_set =
  ws_collections :: "(collection_id, collection_write_set) btree"
  ws_new_collections :: "(collection_id, rstring) btree"
  ws_new_indexes :: "(collection_id, (index_id, index_catalog_write) btree) btree"
  ws_ts :: TS

definition default_collection_write_set :: collection_write_set where
  "default_collection_write_set =
     \<lparr>cw_documents = [], cw_index_entries = [], cw_metadata = None\<rparr>"

definition default_write_set :: write_set where
  "default_write_set =
     \<lparr>ws_collections = [], ws_new_collections = [], ws_new_indexes = [], ws_ts = 0\<rparr>"

section \<open>Operations\<close>

text \<open>\<open>entry(k).or_default()\<close> followed by a change of the value.\<close>

definition bt_entry :: "'k::linorder \<Rightarrow> 'v \<Rightarrow> ('v \<Rightarrow> 'v) \<Rightarrow> ('k, 'v) btree \<Rightarrow> ('k, 'v) btree" where
  "bt_entry k dflt f t =
     bt_insert k (f (case map_of t k of None \<Rightarrow> dflt | Some v \<Rightarrow> v)) t"

text \<open>\<open>collection_mut\<close>, with the change the caller makes to the collection.\<close>

definition collection_mut ::
  "collection_id \<Rightarrow> (collection_write_set \<Rightarrow> collection_write_set) \<Rightarrow> write_set \<Rightarrow> write_set" where
  "collection_mut cid f w =
     w\<lparr>ws_collections := bt_entry cid default_collection_write_set f (ws_collections w)\<rparr>"

definition cw_write_document ::
  "document_id \<Rightarrow> document_write \<Rightarrow> collection_write_set \<Rightarrow> collection_write_set" where
  "cw_write_document key x c = c\<lparr>cw_documents := bt_insert key x (cw_documents c)\<rparr>"

definition cw_write_index ::
  "index_id \<Rightarrow> index_position \<Rightarrow> index_write \<Rightarrow> collection_write_set \<Rightarrow> collection_write_set" where
  "cw_write_index iid pos x c =
     c\<lparr>cw_index_entries := bt_entry iid [] (bt_insert pos x) (cw_index_entries c)\<rparr>"

definition ws_put :: "collection_id \<Rightarrow> document_id \<Rightarrow> bytes \<Rightarrow> write_set \<Rightarrow> write_set" where
  "ws_put cid key v = collection_mut cid (cw_write_document key (Document_put v))"

definition ws_put_many ::
  "collection_id \<Rightarrow> (document_id \<times> bytes) list \<Rightarrow> write_set \<Rightarrow> write_set" where
  "ws_put_many cid docs =
     collection_mut cid (fold (\<lambda>(key, v). cw_write_document key (Document_put v)) docs)"

definition ws_delete :: "collection_id \<Rightarrow> document_id \<Rightarrow> write_set \<Rightarrow> write_set" where
  "ws_delete cid key = collection_mut cid (cw_write_document key Document_deleted)"

definition ws_delete_many :: "collection_id \<Rightarrow> document_id list \<Rightarrow> write_set \<Rightarrow> write_set" where
  "ws_delete_many cid keys =
     collection_mut cid (fold (\<lambda>key. cw_write_document key Document_deleted) keys)"

definition write_index_entry ::
  "collection_id \<Rightarrow> index_id \<Rightarrow> bytes \<Rightarrow> document_id \<Rightarrow> index_write \<Rightarrow> write_set \<Rightarrow> write_set" where
  "write_index_entry cid iid key did x = collection_mut cid (cw_write_index iid (Position key did) x)"

definition ws_put_index_entry ::
  "collection_id \<Rightarrow> index_id \<Rightarrow> bytes \<Rightarrow> document_id \<Rightarrow> write_set \<Rightarrow> write_set" where
  "ws_put_index_entry cid iid key did = write_index_entry cid iid key did Index_put"

definition ws_put_index_entries ::
  "collection_id \<Rightarrow> (index_id \<times> bytes \<times> document_id) list \<Rightarrow> write_set \<Rightarrow> write_set" where
  "ws_put_index_entries cid entries =
     collection_mut cid
       (fold (\<lambda>(iid, key, did). cw_write_index iid (Position key did) Index_put) entries)"

definition ws_delete_index_entry ::
  "collection_id \<Rightarrow> index_id \<Rightarrow> bytes \<Rightarrow> document_id \<Rightarrow> write_set \<Rightarrow> write_set" where
  "ws_delete_index_entry cid iid key did = write_index_entry cid iid key did Index_deleted"

definition ws_delete_index_entries ::
  "collection_id \<Rightarrow> (index_id \<times> bytes \<times> document_id) list \<Rightarrow> write_set \<Rightarrow> write_set" where
  "ws_delete_index_entries cid entries =
     collection_mut cid
       (fold (\<lambda>(iid, key, did). cw_write_index iid (Position key did) Index_deleted) entries)"

definition ws_new_collection :: "collection_id \<Rightarrow> rstring \<Rightarrow> write_set \<Rightarrow> write_set" where
  "ws_new_collection cid name w =
     w\<lparr>ws_new_collections := bt_insert cid name (ws_new_collections w)\<rparr>"

definition ws_new_index ::
  "collection_id \<Rightarrow> index_id \<Rightarrow> rstring \<Rightarrow> bytes \<Rightarrow> write_set \<Rightarrow> write_set" where
  "ws_new_index cid iid name metadata w =
     w\<lparr>ws_new_indexes := bt_entry cid []
         (bt_insert iid \<lparr>icw_name = name, icw_metadata = metadata\<rparr>) (ws_new_indexes w)\<rparr>"

definition ws_update_collection_metadata :: "collection_id \<Rightarrow> bytes \<Rightarrow> write_set \<Rightarrow> write_set" where
  "ws_update_collection_metadata cid metadata =
     collection_mut cid (\<lambda>c. c\<lparr>cw_metadata := Some metadata\<rparr>)"

section \<open>Lookups and well-formedness\<close>

text \<open>The write to a document and to an index position, if the set has one.\<close>

definition ws_document :: "write_set \<Rightarrow> collection_id \<Rightarrow> document_id \<Rightarrow> document_write option" where
  "ws_document w cid key =
     (case map_of (ws_collections w) cid of
        None \<Rightarrow> None | Some c \<Rightarrow> map_of (cw_documents c) key)"

definition ws_index ::
  "write_set \<Rightarrow> collection_id \<Rightarrow> index_id \<Rightarrow> index_position \<Rightarrow> index_write option" where
  "ws_index w cid iid pos =
     (case map_of (ws_collections w) cid of
        None \<Rightarrow> None
      | Some c \<Rightarrow> (case map_of (cw_index_entries c) iid of
          None \<Rightarrow> None | Some t \<Rightarrow> map_of t pos))"

definition cw_ok :: "collection_write_set \<Rightarrow> bool" where
  "cw_ok c \<longleftrightarrow> bt_ok (cw_documents c) \<and> bt_ok (cw_index_entries c) \<and>
     (\<forall>(iid, t) \<in> set (cw_index_entries c). bt_ok t)"

definition ws_ok :: "write_set \<Rightarrow> bool" where
  "ws_ok w \<longleftrightarrow> bt_ok (ws_collections w) \<and> (\<forall>(cid, c) \<in> set (ws_collections w). cw_ok c) \<and>
     bt_ok (ws_new_collections w) \<and> bt_ok (ws_new_indexes w) \<and>
     (\<forall>(cid, t) \<in> set (ws_new_indexes w). bt_ok t)"

lemma bt_ok_entry [simp]: "bt_ok t \<Longrightarrow> bt_ok (bt_entry k x f t)"
  by (simp add: bt_entry_def)

lemma map_of_bt_entry:
  "map_of (bt_entry k x f t) =
     (map_of t)(k \<mapsto> f (case map_of t k of None \<Rightarrow> x | Some v \<Rightarrow> v))"
  by (simp add: bt_entry_def)

lemma Ball_bt_entry:
  assumes "\<forall>(k, v) \<in> set t. P v" "P x" "\<And>v. P v \<Longrightarrow> P (f v)"
  shows "\<forall>(k, v) \<in> set (bt_entry k x f t). P v"
proof -
  have "P (f (case map_of t k of None \<Rightarrow> x | Some v \<Rightarrow> v))"
    using assms by (auto split: option.splits dest: map_of_SomeD)
  then show ?thesis
    using assms(1) set_bt_insert_subset unfolding bt_entry_def by fast
qed

lemma cw_ok_default [simp]: "cw_ok default_collection_write_set"
  by (simp add: cw_ok_def default_collection_write_set_def)

lemma ws_ok_default [simp]: "ws_ok (default_write_set\<lparr>ws_ts := t\<rparr>)"
  by (simp add: ws_ok_def default_write_set_def)

lemma cw_ok_write_document [simp]: "cw_ok c \<Longrightarrow> cw_ok (cw_write_document key x c)"
  by (simp add: cw_ok_def cw_write_document_def)

lemma cw_ok_write_index [simp]: "cw_ok c \<Longrightarrow> cw_ok (cw_write_index iid pos x c)"
  using Ball_bt_entry[of "cw_index_entries c" bt_ok "[]" "bt_insert pos x" iid]
  by (simp add: cw_ok_def cw_write_index_def)

lemma cw_ok_fold: "(\<And>x c. cw_ok c \<Longrightarrow> cw_ok (f x c)) \<Longrightarrow> cw_ok c \<Longrightarrow> cw_ok (fold f xs c)"
  by (induction xs arbitrary: c) auto

lemma ws_ok_collection_mut:
  "ws_ok w \<Longrightarrow> (\<And>c. cw_ok c \<Longrightarrow> cw_ok (f c)) \<Longrightarrow> ws_ok (collection_mut cid f w)"
  using Ball_bt_entry[of "ws_collections w" cw_ok default_collection_write_set f cid]
  by (simp add: ws_ok_def collection_mut_def)

lemma ws_ok_ops [simp]:
  assumes "ws_ok w"
  shows "ws_ok (ws_put cid key v w)" "ws_ok (ws_put_many cid docs w)"
    "ws_ok (ws_delete cid key w)" "ws_ok (ws_delete_many cid keys w)"
    "ws_ok (ws_put_index_entry cid iid k did w)" "ws_ok (ws_put_index_entries cid es w)"
    "ws_ok (ws_delete_index_entry cid iid k did w)" "ws_ok (ws_delete_index_entries cid es w)"
    "ws_ok (ws_update_collection_metadata cid m w)" "ws_ok (ws_new_collection cid name w)"
  using assms
  by (auto simp: ws_put_def ws_put_many_def ws_delete_def ws_delete_many_def ws_put_index_entry_def
      ws_delete_index_entry_def ws_put_index_entries_def ws_delete_index_entries_def
      write_index_entry_def ws_update_collection_metadata_def ws_new_collection_def
      intro!: ws_ok_collection_mut cw_ok_fold) (simp_all add: cw_ok_def ws_ok_def)

lemma ws_ok_new_index [simp]: "ws_ok w \<Longrightarrow> ws_ok (ws_new_index cid iid name m w)"
  using Ball_bt_entry[of "ws_new_indexes w" bt_ok "[]"
      "bt_insert iid \<lparr>icw_name = name, icw_metadata = m\<rparr>" cid]
  by (simp add: ws_ok_def ws_new_index_def)

lemma ws_document_collection_mut:
  "ws_document (collection_mut cid f w) cid' key =
     (if cid' = cid
      then map_of (cw_documents (f (case map_of (ws_collections w) cid of
             None \<Rightarrow> default_collection_write_set | Some c \<Rightarrow> c))) key
      else ws_document w cid' key)"
  by (simp add: ws_document_def collection_mut_def map_of_bt_entry)

lemma ws_index_collection_mut:
  "ws_index (collection_mut cid f w) cid' iid pos =
     (if cid' = cid
      then (case map_of (cw_index_entries (f (case map_of (ws_collections w) cid of
             None \<Rightarrow> default_collection_write_set | Some c \<Rightarrow> c))) iid of
             None \<Rightarrow> None | Some t \<Rightarrow> map_of t pos)
      else ws_index w cid' iid pos)"
  by (simp add: ws_index_def collection_mut_def map_of_bt_entry)

lemma ws_document_default:
  "map_of (cw_documents (case map_of (ws_collections w) cid of
     None \<Rightarrow> default_collection_write_set | Some c \<Rightarrow> c)) key = ws_document w cid key"
  by (simp add: ws_document_def default_collection_write_set_def split: option.splits)

lemma map_of_fold_write_document:
  "map_of (cw_documents (fold (\<lambda>p. cw_write_document (k p) (x p)) ps c)) =
     map_of (cw_documents c) ++ map_of (rev (map (\<lambda>p. (k p, x p)) ps))"
  by (induction ps arbitrary: c) (auto simp: cw_write_document_def fun_eq_iff map_add_def split: option.splits)

section \<open>A write set as maps\<close>

text \<open>
  What a write set says, without the trees: for each collection the last write to each document and
  to each position of each index and the new metadata, and the declarations. A collection the set
  does not mention is one without writes.
\<close>

record collection_maps =
  cm_documents :: "document_id \<rightharpoonup> document_write"
  cm_index :: "index_id \<Rightarrow> index_position \<rightharpoonup> index_write"
  cm_metadata :: "bytes option"

record write_maps =
  wm_collections :: "collection_id \<Rightarrow> collection_maps"
  wm_new_collections :: "collection_id \<rightharpoonup> rstring"
  wm_new_indexes :: "collection_id \<Rightarrow> index_id \<rightharpoonup> index_catalog_write"
  wm_ts :: TS

definition cw_maps :: "collection_write_set \<Rightarrow> collection_maps" where
  "cw_maps c = \<lparr>cm_documents = map_of (cw_documents c),
     cm_index = (\<lambda>iid. case map_of (cw_index_entries c) iid of None \<Rightarrow> Map.empty | Some t \<Rightarrow> map_of t),
     cm_metadata = cw_metadata c\<rparr>"

definition ws_maps :: "write_set \<Rightarrow> write_maps" where
  "ws_maps w = \<lparr>wm_collections = (\<lambda>cid. cw_maps (case map_of (ws_collections w) cid of
       None \<Rightarrow> default_collection_write_set | Some c \<Rightarrow> c)),
     wm_new_collections = map_of (ws_new_collections w),
     wm_new_indexes = (\<lambda>cid. case map_of (ws_new_indexes w) cid of None \<Rightarrow> Map.empty | Some t \<Rightarrow> map_of t),
     wm_ts = ws_ts w\<rparr>"

definition at_collection ::
  "collection_id \<Rightarrow> (collection_maps \<Rightarrow> collection_maps) \<Rightarrow> write_maps \<Rightarrow> write_maps" where
  "at_collection cid f m = m\<lparr>wm_collections := (wm_collections m)(cid := f (wm_collections m cid))\<rparr>"

lemma ws_maps_collection_mut:
  assumes "\<And>c. cw_maps (f c) = g (cw_maps c)"
  shows "ws_maps (collection_mut cid f w) = at_collection cid g (ws_maps w)"
  by (simp add: ws_maps_def at_collection_def collection_mut_def map_of_bt_entry fun_eq_iff assms)

lemma cw_maps_write_document:
  "cw_maps (cw_write_document key x c) = cw_maps c\<lparr>cm_documents := (cm_documents (cw_maps c))(key \<mapsto> x)\<rparr>"
  by (simp add: cw_maps_def cw_write_document_def)

lemma cw_maps_write_index:
  "cw_maps (cw_write_index iid pos x c) = cw_maps c\<lparr>cm_index := (cm_index (cw_maps c))
     (iid := (cm_index (cw_maps c) iid)(pos \<mapsto> x))\<rparr>"
  by (simp add: cw_maps_def cw_write_index_def map_of_bt_entry fun_eq_iff split: option.split)

lemma cw_maps_write_documents:
  "cw_maps (fold (\<lambda>p. cw_write_document (k p) (x p)) ps c) = cw_maps c
     \<lparr>cm_documents := cm_documents (cw_maps c) ++ map_of (rev (map (\<lambda>p. (k p, x p)) ps))\<rparr>"
  by (induction ps arbitrary: c) (simp_all add: cw_maps_write_document)

lemma map_add_const:
  "m ++ map_of (rev (map (\<lambda>k. (k, x)) ks)) = (\<lambda>k. if k \<in> set ks then Some x else m k)"
proof (induction ks arbitrary: m)
  case (Cons a ks)
  then show ?case using Cons.IH[of "m(a \<mapsto> x)"] by (auto simp: fun_eq_iff map_add_def split: option.splits)
qed simp

lemma cw_maps_write_indexes:
  "cw_maps (fold (\<lambda>(iid, key, did). cw_write_index iid (Position key did) x) es c) = cw_maps c
     \<lparr>cm_index := (\<lambda>iid pos. if (iid, pos) \<in> (\<lambda>(iid, key, did). (iid, Position key did)) ` set es
        then Some x else cm_index (cw_maps c) iid pos)\<rparr>"
  by (induction es arbitrary: c) (auto simp: cw_maps_write_index fun_eq_iff)

lemma map_of_map_values: "map_of (map (\<lambda>p. (fst p, f (snd p))) xs) k = map_option f (map_of xs k)"
  by (induction xs) auto

text \<open>Each operation of the write set on these maps.\<close>

lemma ws_maps_put:
  "ws_maps (ws_put cid key v w) = at_collection cid
  (\<lambda>c. c\<lparr>cm_documents := (cm_documents c)(key \<mapsto> Document_put v)\<rparr>) (ws_maps w)"
  unfolding ws_put_def
  by (rule ws_maps_collection_mut) (rule cw_maps_write_document)

lemma ws_maps_put_many:
  "ws_maps (ws_put_many cid docs w) = at_collection cid
  (\<lambda>c. c\<lparr>cm_documents := cm_documents c ++ (\<lambda>key. map_option Document_put (map_of (rev docs) key))\<rparr>)
  (ws_maps w)"
proof -
  have "map_of (rev (map (\<lambda>p. (fst p, Document_put (snd p))) docs)) =
      (\<lambda>key. map_option Document_put (map_of (rev docs) key))"
    by (rule ext) (simp only: rev_map map_of_map_values)
  then show ?thesis
    unfolding ws_put_many_def case_prod_unfold
    by (intro ws_maps_collection_mut) (simp add: cw_maps_write_documents)
qed

lemma ws_maps_delete:
  "ws_maps (ws_delete cid key w) = at_collection cid
  (\<lambda>c. c\<lparr>cm_documents := (cm_documents c)(key \<mapsto> Document_deleted)\<rparr>) (ws_maps w)"
  unfolding ws_delete_def
  by (rule ws_maps_collection_mut) (rule cw_maps_write_document)

lemma ws_maps_delete_many:
  "ws_maps (ws_delete_many cid keys w) = at_collection cid
  (\<lambda>c. c\<lparr>cm_documents := (\<lambda>key. if key \<in> set keys then Some Document_deleted
  else cm_documents c key)\<rparr>) (ws_maps w)"
  unfolding ws_delete_many_def
  by (rule ws_maps_collection_mut) (simp add: cw_maps_write_documents map_add_const)

lemma ws_maps_put_index_entry:
  "ws_maps (ws_put_index_entry cid iid k did w) = at_collection cid
  (\<lambda>c. c\<lparr>cm_index := (cm_index c)(iid := (cm_index c iid)(Position k did \<mapsto> Index_put))\<rparr>) (ws_maps w)"
  unfolding ws_put_index_entry_def write_index_entry_def
  by (rule ws_maps_collection_mut) (rule cw_maps_write_index)

lemma ws_maps_put_index_entries:
  "ws_maps (ws_put_index_entries cid es w) = at_collection cid
  (\<lambda>c. c\<lparr>cm_index := (\<lambda>iid pos. if (iid, pos) \<in> (\<lambda>(iid, k, did). (iid, Position k did)) ` set es
  then Some Index_put else cm_index c iid pos)\<rparr>) (ws_maps w)"
  unfolding ws_put_index_entries_def
  by (rule ws_maps_collection_mut) (rule cw_maps_write_indexes)

lemma ws_maps_delete_index_entry:
  "ws_maps (ws_delete_index_entry cid iid k did w) = at_collection cid
  (\<lambda>c. c\<lparr>cm_index := (cm_index c)(iid := (cm_index c iid)(Position k did \<mapsto> Index_deleted))\<rparr>) (ws_maps w)"
  unfolding ws_delete_index_entry_def write_index_entry_def
  by (rule ws_maps_collection_mut) (rule cw_maps_write_index)

lemma ws_maps_delete_index_entries:
  "ws_maps (ws_delete_index_entries cid es w) = at_collection cid
  (\<lambda>c. c\<lparr>cm_index := (\<lambda>iid pos. if (iid, pos) \<in> (\<lambda>(iid, k, did). (iid, Position k did)) ` set es
  then Some Index_deleted else cm_index c iid pos)\<rparr>) (ws_maps w)"
  unfolding ws_delete_index_entries_def
  by (rule ws_maps_collection_mut) (rule cw_maps_write_indexes)

lemma ws_maps_update_collection_metadata:
  "ws_maps (ws_update_collection_metadata cid m w) = at_collection cid
  (\<lambda>c. c\<lparr>cm_metadata := Some m\<rparr>) (ws_maps w)"
  unfolding ws_update_collection_metadata_def
  by (rule ws_maps_collection_mut) (simp add: cw_maps_def)

lemma ws_maps_new_collection:
  "ws_maps (ws_new_collection cid name w) = (ws_maps w)
  \<lparr>wm_new_collections := (wm_new_collections (ws_maps w))(cid \<mapsto> name)\<rparr>"
  by (simp add: ws_new_collection_def ws_maps_def)

lemma ws_maps_new_index:
  "ws_maps (ws_new_index cid iid name m w) = (ws_maps w)\<lparr>wm_new_indexes := (wm_new_indexes (ws_maps w))
  (cid := (wm_new_indexes (ws_maps w) cid)(iid \<mapsto> \<lparr>icw_name = name, icw_metadata = m\<rparr>))\<rparr>"
  by (simp add: ws_new_index_def ws_maps_def map_of_bt_entry fun_eq_iff split: option.split)

lemmas ws_maps_ops =
  ws_maps_put ws_maps_put_many ws_maps_delete ws_maps_delete_many
  ws_maps_put_index_entry ws_maps_put_index_entries ws_maps_delete_index_entry ws_maps_delete_index_entries
  ws_maps_update_collection_metadata ws_maps_new_collection ws_maps_new_index

end
