(* ===== verification/Codec_Properties.thy ===== *)
theory Codec_Properties
  imports Storage_Encoding Query Write_Set
begin

text \<open>
  The properties of the byte encodings, of the query builder and of the write set, with their
  witnesses. Each rests on the facts of the component's theory and on the interpretations of the
  codec interfaces.
\<close>

section \<open>Keys and values of the store\<close>

text \<open>C30. A byte string decodes as a document key exactly if it is the encoding of the result:
  the codec is exact in both directions, so no two keys meet and no other string is accepted.\<close>

theorem document_key_exact:
  "decode_document_key b = Inr (cid, did, version) \<longleftrightarrow> b = encode_document_key cid did version"
  using document_key.decode_iff[of b "(cid, did, version)"] by simp

text \<open>A collection catalog value decodes exactly if it is the encoding of a UTF-8 name, whose
  length fits the 8-byte length field, and a metadata tail of any length.\<close>

theorem collection_value_exact:
  "decode_collection_catalog_value b = Inr (name, metadata) \<longleftrightarrow>
     utf8_valid name \<and> length name + 8 < 2 ^ 64 \<and> b = encode_collection_catalog_value name metadata"
  using collection_catalog_value.decode_iff[of b "(name, metadata)"] by simp

text \<open>C21. The byte order of document keys of stored collections (ids that are not negative) is the
  order of collection id, document id and version: the versions of a document are adjacent,
  oldest first.\<close>

theorem document_key_order_exact:
  assumes "0 \<le> i64_val c" "0 \<le> i64_val c'"
  shows "encode_document_key c d t < encode_document_key c' d' t' \<longleftrightarrow> (c, d, t) < (c', d', t')"
  using document_key_order.encode_less[of "(c, d, t)" "(c', d', t')"] assms by simp

theorem document_key_order_exact_witness:
  "encode_document_key (I64 1) 7 5 < encode_document_key (I64 2) 3 4 \<longleftrightarrow>
     ((I64 1, 7, 5) :: collection_id \<times> document_id \<times> u64) < (I64 2, 3, 4)"
  using document_key_order_exact[of "I64 1" "I64 2" 7 5 3 4] by (simp add: i64_val_def)

text \<open>C31. An index key is split into segments that concatenate to it, all but the last of full
  length, so that no key of the index databases is longer than the 511 bytes LMDB allows; the
  split is the only one of this kind.\<close>

theorem index_key_segments:
  "concat (split_index_key key) = key \<and> split_index_key key \<noteq> [] \<and>
   list_all (\<lambda>s. length s = MAX_INDEX_SEGMENT_SIZE) (butlast (split_index_key key)) \<and>
   list_all (\<lambda>s. length (encode_index_node_key iid chain s) \<le> 511) (split_index_key key) \<and>
   (last (split_index_key key) = [] \<longleftrightarrow> key = [])"
proof -
  have "length (encode_index_node_key iid chain s) \<le> 511" if "s \<in> set (split_index_key key)" for s
    using length_split_segment[OF that] by simp
  moreover have "length s = 495" if "s \<in> set (butlast (split_index_key key))" for s
    using well_split_split[of key] that by (auto simp: well_split_def)
  moreover have "split_index_key [] = [[]]" by (simp add: split_index_key_def)
  ultimately show ?thesis using last_split_index_key[of key] by (auto simp: list_all_iff)
qed

section \<open>Order-preserving index entries\<close>

text \<open>C8. Comparing two encoded index entries as bytes is comparing the entries field by field in
  the order of the module's table: absent, null, integers by value, floats in IEEE order with NaN
  last, booleans, strings, bytes; a shorter entry comes before its extensions.\<close>

theorem entry_order_exact:
  assumes "encode_entry xs = Inr b" "encode_entry ys = Inr c"
  shows "b < c \<longleftrightarrow> entry_less xs ys"
  using assms field.entry_code_less[of xs ys] by (simp add: encode_entry_code entry_less_def)

theorem entry_order_exact_witness:
  "\<exists>b c. encode_entry [Some (Int64 (I64 (- 1))), None] = Inr b \<and>
     encode_entry [Some (Int64 (I64 2)), Some Null] = Inr c \<and>
     (b < c \<longleftrightarrow> entry_less [Some (Int64 (I64 (- 1))), None] [Some (Int64 (I64 2)), Some Null])"
proof -
  obtain b c where bc: "encode_entry [Some (Int64 (I64 (- 1))), None] = Inr b"
    "encode_entry [Some (Int64 (I64 2)), Some Null] = Inr c" by (simp add: encode_entry_def)
  from entry_order_exact[OF bc] bc show ?thesis by blast
qed

text \<open>C32. Two entries have the same encoding exactly if they agree field by field, up to the two
  zeros and the NaN payloads of floats: the index key identifies the entry.\<close>

theorem entry_code_exact:
  assumes "encode_entry xs = Inr b" "encode_entry ys = Inr c"
  shows "b = c \<longleftrightarrow> list_all2 field_equiv xs ys"
  using assms field.entry_code_eq[of xs ys] by (simp add: encode_entry_code)

theorem entry_code_exact_witness:
  "\<exists>b c. encode_entry [Some (Bytes [0])] = Inr b \<and> encode_entry [Some (Bytes [0, 0])] = Inr c \<and>
     (b = c \<longleftrightarrow> list_all2 field_equiv [Some (Bytes [0])] [Some (Bytes [0, 0])])"
proof -
  obtain b c where bc: "encode_entry [Some (Bytes [0])] = Inr b"
    "encode_entry [Some (Bytes [0, 0])] = Inr c" by (simp add: encode_entry_def)
  from entry_code_exact[OF bc] bc show ?thesis by blast
qed

definition first_non_scalar :: "value option list \<Rightarrow> encoding_error \<Rightarrow> bool" where
  "first_non_scalar xs e \<longleftrightarrow>
     (\<exists>us v vs. xs = us @ Some v # vs \<and> list_all scalar us \<and> \<not> scalar (Some v) \<and>
        e = Not_a_scalar (kind v))"

lemma first_non_scalar_Cons:
  "first_non_scalar (x # xs) e \<longleftrightarrow>
     (if scalar x then first_non_scalar xs e else \<exists>v. x = Some v \<and> e = Not_a_scalar (kind v))"
proof (cases "scalar x")
  case True
  show ?thesis
  proof
    assume "first_non_scalar (x # xs) e"
    then obtain us v vs where us: "x # xs = us @ Some v # vs" "list_all scalar us"
      "\<not> scalar (Some v)" "e = Not_a_scalar (kind v)" by (auto simp: first_non_scalar_def)
    then show "if scalar x then first_non_scalar xs e else \<exists>v. x = Some v \<and> e = Not_a_scalar (kind v)"
      using True by (cases us) (auto simp: first_non_scalar_def)
  next
    assume "if scalar x then first_non_scalar xs e else \<exists>v. x = Some v \<and> e = Not_a_scalar (kind v)"
    then obtain us v vs where "xs = us @ Some v # vs" "list_all scalar us"
      "\<not> scalar (Some v)" "e = Not_a_scalar (kind v)" using True by (auto simp: first_non_scalar_def)
    then have "x # xs = (x # us) @ Some v # vs" "list_all scalar (x # us)" using True by simp_all
    then show "first_non_scalar (x # xs) e"
      using \<open>\<not> scalar (Some v)\<close> \<open>e = _\<close> unfolding first_non_scalar_def by blast
  qed
next
  case False
  show ?thesis
  proof
    assume "first_non_scalar (x # xs) e"
    then obtain us v vs where us: "x # xs = us @ Some v # vs" "list_all scalar us"
      "\<not> scalar (Some v)" "e = Not_a_scalar (kind v)" by (auto simp: first_non_scalar_def)
    then show "if scalar x then first_non_scalar xs e else \<exists>v. x = Some v \<and> e = Not_a_scalar (kind v)"
      using False by (cases us) auto
  next
    assume "if scalar x then first_non_scalar xs e else \<exists>v. x = Some v \<and> e = Not_a_scalar (kind v)"
    then obtain v where "x = Some v" "e = Not_a_scalar (kind v)" using False by auto
    then have "x # xs = [] @ Some v # xs" by simp
    then show "first_non_scalar (x # xs) e"
      using False \<open>x = Some v\<close> \<open>e = _\<close> unfolding first_non_scalar_def
      by (intro exI[of _ "[]"] exI[of _ v] exI[of _ xs]) simp
  qed
qed

text \<open>C33. An entry fails to encode exactly if one of its fields is an array or a document, and the
  error names the kind of the first such field.\<close>

theorem encode_entry_error:
  "encode_entry xs = Inl e \<longleftrightarrow>
     (\<exists>us v vs. xs = us @ Some v # vs \<and> list_all scalar us \<and> \<not> scalar (Some v) \<and>
        e = Not_a_scalar (kind v))"
proof -
  have "encode_fields buf xs = Inl e \<longleftrightarrow> first_non_scalar xs e" for buf
  proof (induction buf xs rule: encode_fields.induct)
    case (3 buf v fs)
    show ?case
    proof (cases "scalar (Some v)")
      case True
      then show ?thesis using 3 by (simp add: encode_value_buf first_non_scalar_Cons)
    next
      case False
      then show ?thesis by (cases v) (auto simp: first_non_scalar_Cons)
    qed
  next
    case (2 buf fs)
    then show ?case by (simp add: first_non_scalar_Cons)
  qed (simp add: first_non_scalar_def)
  then show ?thesis by (simp add: encode_entry_def first_non_scalar_def)
qed

section \<open>Queries\<close>

text \<open>An index filter without range bounds scans exactly the keys that start with the encoding
  of its equality fields, whatever those bytes are (a run of \<open>0xFF\<close> included).\<close>

theorem eq_filter_scans_prefix:
  assumes "build_with_index w = Inr wi" "fs_lower (filter_state w) = None" "fs_upper (filter_state w) = None"
  shows "in_range (snd (wi_lower wi)) (snd (wi_upper wi)) key \<longleftrightarrow>
    (\<exists>r. key = eq_prefix (filter_state w) @ r)"
  using build_with_index_range[OF assms(1), of key] assms(2,3) by simp

theorem eq_filter_scans_prefix_witness:
  "\<exists>wi. build_with_index (from_open_builder (wif_eq (wif_new []) [1] (Bool True))) = (Inr wi :: unit db_error + with_index) \<and>
     (in_range (snd (wi_lower wi)) (snd (wi_upper wi)) [4, 1, 9] \<longleftrightarrow>
      (\<exists>r. [4, 1, 9] = eq_prefix (filter_state (from_open_builder (wif_eq (wif_new []) [1] (Bool True)))) @ r))"
proof -
  let ?w = "from_open_builder (wif_eq (wif_new []) [1] (Bool True))"
  obtain wi where wi: "build_with_index ?w = (Inr wi :: unit db_error + with_index)"
    by (simp add: build_with_index_def wif_new_def encode_key_def encode_entry_def Let_def)
  from eq_filter_scans_prefix[OF wi] wi show ?thesis by (auto simp: wif_new_def)
qed

text \<open>C9. On an index whose last field is the range field, the key range of an index filter selects
  exactly the entries that satisfy the filter: the equalities hold and the range field lies
  within both bounds, in the logical order.\<close>

theorem index_filter_selects:
  assumes "build_with_index w = Inr wi" "encode_entry entry = Inr key"
    and "length entry = Suc (length (fs_eq (filter_state w)))"
  shows "in_range (snd (wi_lower wi)) (snd (wi_upper wi)) key \<longleftrightarrow>
    eqs_hold (filter_state w) entry \<and> lower_holds (fs_lower (filter_state w)) (last entry) \<and>
    upper_holds (fs_upper (filter_state w)) (last entry)"
proof -
  have ne: "entry \<noteq> []" using assms(3) by auto
  have "entry ! length (fs_eq (filter_state w)) = last entry"
    using assms(3) ne by (simp add: last_conv_nth)
  then show ?thesis using index_range_entry[OF assms(1,2)] assms(3) by simp
qed

theorem index_filter_selects_witness:
  "\<exists>wi key. build_with_index (from_lower_bounded (wif_gt (wif_new []) [1] (Bool False))) = (Inr wi :: unit db_error + with_index) \<and>
     encode_entry [Some (Bool True)] = Inr key \<and>
     (in_range (snd (wi_lower wi)) (snd (wi_upper wi)) key \<longleftrightarrow>
      eqs_hold (filter_state (from_lower_bounded (wif_gt (wif_new []) [1] (Bool False)))) [Some (Bool True)] \<and>
      lower_holds (Some ([1], Lower_gt (Bool False))) (Some (Bool True)) \<and> upper_holds None (Some (Bool True)))"
proof -
  let ?w = "from_lower_bounded (wif_gt (wif_new []) [1] (Bool False))"
  obtain wi where wi: "build_with_index ?w = (Inr wi :: unit db_error + with_index)"
    by (simp add: build_with_index_def wif_new_def encode_key_def encode_entry_def Let_def)
  obtain key where key: "encode_entry [Some (Bool True)] = Inr key" by (simp add: encode_entry_def)
  have "length [Some (Bool True)] = Suc (length (fs_eq (filter_state ?w)))" by (simp add: wif_new_def)
  from index_filter_selects[OF wi key this] wi key show ?thesis by (auto simp: wif_new_def)
qed

text \<open>C34. On an index with further fields after the range field the bounds are not the ones asked
  for: \<open>gt\<close> selects what \<open>gte\<close> asks for and \<open>lte\<close> what \<open>lt\<close> asks for, because the range key is
  a proper prefix of every stored key with an equal field.\<close>

theorem trailing_fields_shift_bounds:
  assumes "build_with_index w = Inr wi" "encode_entry entry = Inr key"
    and "Suc (length (fs_eq (filter_state w))) < length entry"
  shows "in_range (snd (wi_lower wi)) (snd (wi_upper wi)) key \<longleftrightarrow>
    eqs_hold (filter_state w) entry \<and>
    lower_holds (relax_lower (fs_lower (filter_state w))) (entry ! length (fs_eq (filter_state w))) \<and>
    upper_holds (relax_upper (fs_upper (filter_state w))) (entry ! length (fs_eq (filter_state w)))"
proof -
  let ?n = "length (fs_eq (filter_state w))"
  have sc: "list_all scalar entry" using assms(2) by (simp add: encode_entry_code)
  have "drop (Suc ?n) entry = entry ! Suc ?n # drop (Suc (Suc ?n)) entry"
    using assms(3) by (simp add: Cons_nth_drop_Suc)
  moreover have "field_code (entry ! Suc ?n) \<noteq> []"
    using sc assms(3) field_code_tag[of "entry ! Suc ?n"] by (auto simp: list_all_length)
  ultimately have "concat (map field_code (drop (Suc ?n) entry)) \<noteq> []" by simp
  then show ?thesis using index_range_entry[OF assms(1,2) Suc_lessD[OF assms(3)]]
    by (simp only: if_not_P if_False)
qed

theorem trailing_fields_shift_bounds_witness:
  "\<exists>wi key. build_with_index (from_lower_bounded (wif_gt (wif_new []) [1] (Bool True))) = (Inr wi :: unit db_error + with_index) \<and>
     encode_entry [Some (Bool True), None] = Inr key \<and>
     in_range (snd (wi_lower wi)) (snd (wi_upper wi)) key"
proof -
  let ?w = "from_lower_bounded (wif_gt (wif_new []) [1] (Bool True))"
  obtain wi where wi: "build_with_index ?w = (Inr wi :: unit db_error + with_index)"
    by (simp add: build_with_index_def wif_new_def encode_key_def encode_entry_def Let_def)
  obtain key where key: "encode_entry [Some (Bool True), None] = Inr key" by (simp add: encode_entry_def)
  have "Suc (length (fs_eq (filter_state ?w))) < length [Some (Bool True), None]"
    by (simp add: wif_new_def)
  from trailing_fields_shift_bounds[OF wi key this] wi key show ?thesis
    by (auto simp: wif_new_def eqs_hold_def field_less_def)
qed

text \<open>C35. A list of filters is lowered to a conjunction, of no filter to none and of one filter to
  it alone, that is the same tree of connectives, fields and operators with each operand replaced by
  the bytes of its one-field index entry, whose order is the logical order of the operands
  (\<open>entry_order_exact\<close>).
  Lowering fails exactly if one of the operands is an array or a document, and the error has the
  kind of the first such operand from left to right.\<close>

theorem filter_lowering_exact:
  "build_filter filters = (case find (\<lambda>v. \<not> scalar (Some v)) (concat (map operands filters)) of
     Some v \<Rightarrow> Inl (Encoding (Not_a_scalar (kind v)))
   | None \<Rightarrow> Inr (case map with_codes filters of
       [] \<Rightarrow> None | [t] \<Rightarrow> Some t | ts \<Rightarrow> Some (And ts)))"
  by (simp add: build_filter_def collect_filters lowering_eq split: option.split list.split)

text \<open>\<open>unique\<close> asks for at most two documents and succeeds exactly if the query yields one, with
  the number of documents it saw as the error otherwise.\<close>

theorem unique_exactly_one:
  "term_unique run into_query =
     (case into_query (Some 2) of
        Inl e \<Rightarrow> Inl e
      | Inr q \<Rightarrow> (case run q of
          Inl e \<Rightarrow> Inl e
        | Inr [d] \<Rightarrow> Inr d
        | Inr docs \<Rightarrow> Inl (Not_unique (length docs))))"
  by (auto simp: term_unique_def exactly_one_def and_then_def split: sum.splits list.splits)

section \<open>Write sets\<close>


text \<open>C40. Every operation of the write set changes what it names and nothing else: read as maps, a
  put, a delete and their list versions override the writes to the named documents of the named
  collection, the later element of a list winning, the index operations those to the named positions
  of the named index, and the declarations the one name, index or metadata. The trees stay sorted
  with distinct keys, as \<open>BTreeMap\<close>s are.\<close>

theorem write_set_refines_maps:
  "ws_maps (ws_put cid key v w) = at_collection cid
     (\<lambda>c. c\<lparr>cm_documents := (cm_documents c)(key \<mapsto> Document_put v)\<rparr>) (ws_maps w) \<and>
   ws_maps (ws_put_many cid docs w) = at_collection cid
     (\<lambda>c. c\<lparr>cm_documents := cm_documents c ++ (\<lambda>key. map_option Document_put (map_of (rev docs) key))\<rparr>)
     (ws_maps w) \<and>
   ws_maps (ws_delete cid key w) = at_collection cid
     (\<lambda>c. c\<lparr>cm_documents := (cm_documents c)(key \<mapsto> Document_deleted)\<rparr>) (ws_maps w) \<and>
   ws_maps (ws_delete_many cid keys w) = at_collection cid
     (\<lambda>c. c\<lparr>cm_documents := (\<lambda>key. if key \<in> set keys then Some Document_deleted
        else cm_documents c key)\<rparr>) (ws_maps w) \<and>
   ws_maps (ws_put_index_entry cid iid k did w) = at_collection cid
     (\<lambda>c. c\<lparr>cm_index := (cm_index c)(iid := (cm_index c iid)(Position k did \<mapsto> Index_put))\<rparr>) (ws_maps w) \<and>
   ws_maps (ws_put_index_entries cid es w) = at_collection cid
     (\<lambda>c. c\<lparr>cm_index := (\<lambda>iid pos. if (iid, pos) \<in> (\<lambda>(iid, k, did). (iid, Position k did)) ` set es
        then Some Index_put else cm_index c iid pos)\<rparr>) (ws_maps w) \<and>
   ws_maps (ws_delete_index_entry cid iid k did w) = at_collection cid
     (\<lambda>c. c\<lparr>cm_index := (cm_index c)(iid := (cm_index c iid)(Position k did \<mapsto> Index_deleted))\<rparr>) (ws_maps w) \<and>
   ws_maps (ws_delete_index_entries cid es w) = at_collection cid
     (\<lambda>c. c\<lparr>cm_index := (\<lambda>iid pos. if (iid, pos) \<in> (\<lambda>(iid, k, did). (iid, Position k did)) ` set es
        then Some Index_deleted else cm_index c iid pos)\<rparr>) (ws_maps w) \<and>
   ws_maps (ws_update_collection_metadata cid m w) = at_collection cid
     (\<lambda>c. c\<lparr>cm_metadata := Some m\<rparr>) (ws_maps w) \<and>
   ws_maps (ws_new_collection cid name w) = (ws_maps w)
     \<lparr>wm_new_collections := (wm_new_collections (ws_maps w))(cid \<mapsto> name)\<rparr> \<and>
   ws_maps (ws_new_index cid iid name m w) = (ws_maps w)\<lparr>wm_new_indexes := (wm_new_indexes (ws_maps w))
     (cid := (wm_new_indexes (ws_maps w) cid)(iid \<mapsto> \<lparr>icw_name = name, icw_metadata = m\<rparr>))\<rparr> \<and>
   (ws_ok w \<longrightarrow> list_all ws_ok [ws_put cid key v w, ws_put_many cid docs w, ws_delete cid key w,
      ws_delete_many cid keys w, ws_put_index_entry cid iid k did w, ws_put_index_entries cid es w,
      ws_delete_index_entry cid iid k did w, ws_delete_index_entries cid es w,
      ws_update_collection_metadata cid m w, ws_new_collection cid name w, ws_new_index cid iid name m w])"
  by (intro conjI ws_maps_ops) simp

theorem write_set_refines_maps_witness:
  "ws_ok (ws_put (I64 1) 7 [3] (default_write_set\<lparr>ws_ts := 4\<rparr>)) \<and>
   cm_documents (wm_collections (ws_maps (ws_put (I64 1) 7 [3] (default_write_set\<lparr>ws_ts := 4\<rparr>))) (I64 1)) 7 =
     Some (Document_put [3])"
  using write_set_refines_maps[where w = "default_write_set\<lparr>ws_ts := 4\<rparr>" and cid = "I64 1" and key = 7 and v = "[3]"]
  by (simp add: at_collection_def)

section \<open>Documents\<close>

text \<open>Giving a document its id puts \<open>_id\<close> first, whatever it held before: the key occurs once,
  the other entries keep their order and values.\<close>

theorem with_id_first:
  assumes "doc_ok d"
  shows "with_id d i = (id_key, Bytes (u128_to_be i)) # filter (\<lambda>(k, _). k \<noteq> id_key) d \<and>
    doc_ok (with_id d i) \<and> doc_get (with_id d i) = (doc_get d)(id_key \<mapsto> Bytes (u128_to_be i))"
  using assms
  by (simp add: with_id_def doc_get_map_of map_of_doc_insert_front)
     (simp add: doc_insert_front_def doc_remove_filter)

theorem with_id_first_witness:
  "with_id [([1], Null), (id_key, Null)] 5 = [(id_key, Bytes (u128_to_be 5)), ([1], Null)]"
  using with_id_first[of "[([1], Null), (id_key, Null)]" 5] by (simp add: doc_ok_def id_key_def str_def)

text \<open>The map operations of a document keep its keys distinct and behave as a map: \<open>insert\<close>
  and \<open>remove\<close> return the old value and change the one key.\<close>

theorem document_is_a_map:
  assumes "doc_ok d"
  shows "doc_ok (fst (doc_insert d k v)) \<and> snd (doc_insert d k v) = doc_get d k \<and>
    doc_get (fst (doc_insert d k v)) = (doc_get d)(k \<mapsto> v) \<and>
    doc_ok (fst (doc_remove d k)) \<and> snd (doc_remove d k) = doc_get d k \<and>
    doc_get (fst (doc_remove d k)) = (doc_get d)(k := None)"
  using assms by (simp add: doc_get_map_of map_of_doc_remove)

theorem document_is_a_map_witness:
  "doc_get (fst (doc_remove [([1], Null), ([2], Bool True)] [1])) =
     (doc_get [([1], Null), ([2], Bool True)])([1] := None)"
proof -
  have "doc_ok [([1], Null), ([2], Bool True)]" by (simp add: doc_ok_def)
  from document_is_a_map[OF this, of "[1]"] show ?thesis by blast
qed

end
