(* ===== verification/Float_Text.thy ===== *)
theory Float_Text
  imports Conversions
begin

text \<open>
  The rest of the conversions of \<open>crates/database/src/document.rs\<close>: \<open>From<Value> for String\<close> and
  \<open>TryFrom<Value>\<close> for \<open>f32\<close> and \<open>f64\<close>. Of the standard library they use the rounding of numbers to
  floats (to the nearest, ties to even), the parsing of floats and their shortest printing. A float
  without its sign is a \<open>nat\<close>, its magnitude: \<open>p\<close> bits of fraction below the exponent.
\<close>

section \<open>Magnitudes\<close>

text \<open>The number of a magnitude, in units of the smallest one; the magnitude at or below a number.\<close>

definition fl_scaled :: "nat \<Rightarrow> nat \<Rightarrow> nat" where
  "fl_scaled p m =
     (let e = m div 2 ^ p; f = m mod 2 ^ p
      in if e = 0 then f else (2 ^ p + f) * 2 ^ (e - 1))"

definition fl_floor :: "nat \<Rightarrow> nat \<Rightarrow> nat" where
  "fl_floor p n =
     (if n < 2 ^ p then n else (top_bit n - p) * 2 ^ p + n div 2 ^ (top_bit n - p))"

text \<open>
  The rounding of \<open>num / den\<close>: to the nearer of two neighbours, to the even one in the middle. What
  rounds past the largest finite magnitude is \<open>huge\<close>.
\<close>

definition fl_round :: "nat \<Rightarrow> nat \<Rightarrow> nat \<Rightarrow> nat \<Rightarrow> nat" where
  "fl_round p huge num den =
     (let m = fl_floor p (num div den);
          middle = (fl_scaled p m + fl_scaled p (m + 1)) * den
      in min huge (if 2 * num < middle \<or> 2 * num = middle \<and> even m then m else m + 1))"

definition F64_INF :: nat where "F64_INF = 0x7FF * 2 ^ 52"
definition F32_INF :: nat where "F32_INF = 0xFF * 2 ^ 23"

text \<open>One, in units of the smallest magnitude.\<close>

definition F64_UNIT :: nat where "F64_UNIT = 2 ^ 1074"
definition F32_UNIT :: nat where "F32_UNIT = 2 ^ 149"

definition f64_of_mag :: "bool \<Rightarrow> nat \<Rightarrow> f64" where
  "f64_of_mag s m = word_of_nat ((if s then 2 ^ 63 else 0) + m)"

definition f32_of_mag :: "bool \<Rightarrow> nat \<Rightarrow> f32" where
  "f32_of_mag s m = word_of_nat ((if s then 2 ^ 31 else 0) + m)"

section \<open>Casts to floats\<close>

text \<open>\<open>i as f64\<close>, \<open>i as f32\<close> and \<open>f as f32\<close>; a NaN keeps the top of its payload and becomes quiet.\<close>

definition i64_as_f64 :: "i64 \<Rightarrow> f64" where
  "i64_as_f64 i =
     f64_of_mag (i64_val i < 0) (fl_round 52 F64_INF (nat \<bar>i64_val i\<bar> * F64_UNIT) 1)"

definition i64_as_f32 :: "i64 \<Rightarrow> f32" where
  "i64_as_f32 i =
     f32_of_mag (i64_val i < 0) (fl_round 23 F32_INF (nat \<bar>i64_val i\<bar> * F32_UNIT) 1)"

definition f64_as_f32 :: "f64 \<Rightarrow> f32" where
  "f64_as_f32 w =
     f32_of_mag (f64_sign w)
       (if f64_is_nan w then F32_INF + 2 ^ 22 + f64_mag w mod 2 ^ 51 div 2 ^ 29
        else if f64_mag w = F64_INF then F32_INF
        else fl_round 23 F32_INF (fl_scaled 52 (f64_mag w)) (2 ^ 925))"

section \<open>Parsing\<close>

text \<open>
  \<open>str::parse\<close> of a float: an optional sign, then \<open>inf\<close>, \<open>infinity\<close> or \<open>nan\<close> in any case, or
  digits with an optional point and an optional exponent, one digit at least. The number \<open>d * 10 ^ q\<close>
  is rounded once.
\<close>

definition digits_value :: "nat list \<Rightarrow> nat" where
  "digits_value cs = foldl (\<lambda>n c. 10 * n + (c - 48)) 0 cs"

definition lower :: "nat \<Rightarrow> nat" where
  "lower c = (if 65 \<le> c \<and> c \<le> 90 then c + 32 else c)"

definition parse_exponent :: "nat list \<Rightarrow> int option" where
  "parse_exponent cs =
     (case cs of
        [] \<Rightarrow> Some 0
      | c # ds \<Rightarrow>
          if lower c \<noteq> 101 then None
          else (case ds of
              [] \<Rightarrow> None
            | s # es \<Rightarrow>
                if s = 43 then parse_digits es
                else if s = 45 then map_option uminus (parse_digits es)
                else parse_digits ds))"

definition parse_number :: "nat list \<Rightarrow> (nat \<times> int) option" where
  "parse_number cs =
     (let int_part = takeWhile is_digit cs;
          rest = dropWhile is_digit cs;
          point = (rest \<noteq> [] \<and> hd rest = 46);
          fraction = (if point then takeWhile is_digit (tl rest) else []);
          rest' = (if point then dropWhile is_digit (tl rest) else rest)
      in if int_part = [] \<and> fraction = [] then None
         else map_option (\<lambda>x. (digits_value (int_part @ fraction), x - int (length fraction)))
                (parse_exponent rest'))"

definition parse_mag :: "nat \<Rightarrow> nat \<Rightarrow> nat \<Rightarrow> nat list \<Rightarrow> nat option" where
  "parse_mag p huge unit cs =
     (let name = map lower cs
      in if name = chars (str ''inf'') \<or> name = chars (str ''infinity'') then Some huge
         else if name = chars (str ''nan'') then Some (huge + 2 ^ (p - 1))
         else map_option (\<lambda>(d, q). fl_round p huge (d * 10 ^ nat q * unit) (10 ^ nat (- q)))
                (parse_number cs))"

definition parse_float :: "(nat list \<Rightarrow> nat option) \<Rightarrow> nat list \<Rightarrow> (bool \<times> nat) option" where
  "parse_float mag cs =
     (case cs of
        [] \<Rightarrow> None
      | c # ds \<Rightarrow>
          if c = 45 then map_option (Pair True) (mag ds)
          else if c = 43 then map_option (Pair False) (mag ds)
          else map_option (Pair False) (mag cs))"

definition parse_f64 :: "nat list \<Rightarrow> f64 option" where
  "parse_f64 cs = map_option (\<lambda>(s, m). f64_of_mag s m) (parse_float (parse_mag 52 F64_INF F64_UNIT) cs)"

definition parse_f32 :: "nat list \<Rightarrow> f32 option" where
  "parse_f32 cs = map_option (\<lambda>(s, m). f32_of_mag s m) (parse_float (parse_mag 23 F32_INF F32_UNIT) cs)"

section \<open>Printing\<close>

text \<open>
  \<open>f64::to_string\<close>: of the decimals \<open>d * 10 ^ q\<close> that round to the float those with the fewest
  digits, of these the nearest, the greater one in the middle. \<open>dec_exp\<close> is the \<open>k\<close> with
  \<open>10 ^ (k - 1) \<le> num / den < 10 ^ k\<close>.
\<close>

function leading_zeros :: "nat \<Rightarrow> nat \<Rightarrow> nat" where
  "leading_zeros num den =
     (if num = 0 \<or> den \<le> num then 0 else Suc (leading_zeros (10 * num) den))"
  by pat_completeness auto

termination
  by (relation "measure (\<lambda>(num, den). den - num)") auto

declare leading_zeros.simps [simp del]

definition dec_exp :: "nat \<Rightarrow> nat \<Rightarrow> int" where
  "dec_exp num den =
     (if den \<le> num then int (length (nat_to_string (num div den)))
      else 1 - int (leading_zeros num den))"

definition decimal_mag :: "nat \<Rightarrow> int \<Rightarrow> nat" where
  "decimal_mag d q = fl_round 52 F64_INF (d * 10 ^ nat q * F64_UNIT) (10 ^ nat (- q))"

text \<open>The decimal with \<open>n\<close> digits, if one of the two neighbours rounds to \<open>m\<close>.\<close>

definition decimal_of :: "nat \<Rightarrow> nat \<Rightarrow> nat option" where
  "decimal_of m n =
     (let q = dec_exp (fl_scaled 52 m) F64_UNIT - int n;
          a = fl_scaled 52 m * 10 ^ nat (- q);
          b = F64_UNIT * 10 ^ nat q;
          d = a div b;
          down = (decimal_mag d q = m);
          up = (decimal_mag (d + 1) q = m)
      in if up \<and> (\<not> down \<or> b \<le> 2 * (a mod b)) then Some (d + 1)
         else if down then Some d else None)"

fun strip_zeros :: "nat \<Rightarrow> int \<Rightarrow> nat \<times> int" where
  "strip_zeros d q = (if d = 0 \<or> d mod 10 \<noteq> 0 then (d, q) else strip_zeros (d div 10) (q + 1))"

declare strip_zeros.simps [simp del]

text \<open>Seventeen digits are always enough, see \<open>decimal_of_17\<close>.\<close>

definition shortest_decimal :: "nat \<Rightarrow> nat \<times> int" where
  "shortest_decimal m =
     (case find (\<lambda>n. decimal_of m n \<noteq> None) [1..<18] of
        None \<Rightarrow> (0, 0)
      | Some n \<Rightarrow>
          strip_zeros (the (decimal_of m n)) (dec_exp (fl_scaled 52 m) F64_UNIT - int n))"

text \<open>The digits with a point and zeros where they belong; there is no exponent.\<close>

definition decimal_to_string :: "nat \<Rightarrow> int \<Rightarrow> rstring" where
  "decimal_to_string d q =
     (let ds = nat_to_string d; point = int (length ds) + q
      in if 0 \<le> q then ds @ replicate (nat q) 48
         else if 0 < point then take (nat point) ds @ [46] @ drop (nat point) ds
         else [48, 46] @ replicate (nat (- point)) 48 @ ds)"

definition mag_to_string :: "nat \<Rightarrow> rstring" where
  "mag_to_string m =
     (if m = F64_INF then str ''inf''
      else if m = 0 then [48]
      else case shortest_decimal m of (d, q) \<Rightarrow> decimal_to_string d q)"

definition f64_to_string :: "f64 \<Rightarrow> rstring" where
  "f64_to_string w =
     (if f64_is_nan w then str ''NaN''
      else (if f64_sign w then [45] else []) @ mag_to_string (f64_mag w))"

section \<open>Values as text and as floats\<close>

text \<open>\<open>collect::<Vec<String>>().join(", ")\<close>; \<open>{:?}\<close> of a byte vector is its numbers in brackets.\<close>

fun join_comma :: "rstring list \<Rightarrow> rstring" where
  "join_comma [] = []"
| "join_comma [s] = s"
| "join_comma (s # ss) = s @ str '', '' @ join_comma ss"

fun value_to_string :: "value \<Rightarrow> rstring"
  and values_to_strings :: "value list \<Rightarrow> rstring list"
  and entries_to_strings :: "(rstring \<times> value) list \<Rightarrow> rstring list"
where
  "value_to_string Null = str ''null''"
| "value_to_string (Bool b) = (if b then str ''true'' else str ''false'')"
| "value_to_string (Int64 i) = int_to_string (i64_val i)"
| "value_to_string (Float64 f) = f64_to_string f"
| "value_to_string (String s) = s"
| "value_to_string (Bytes b) =
     str ''['' @ join_comma (map (\<lambda>x. nat_to_string (unat x)) b) @ str '']''"
| "value_to_string (Array a) = str ''['' @ join_comma (values_to_strings a) @ str '']''"
| "value_to_string (Document d) = str ''{'' @ join_comma (entries_to_strings d) @ str ''}''"
| "values_to_strings [] = []"
| "values_to_strings (v # vs) = value_to_string v # values_to_strings vs"
| "entries_to_strings [] = []"
| "entries_to_strings ((k, v) # es) =
     (k @ str '': '' @ value_to_string v) # entries_to_strings es"

fun try_f64 :: "value \<Rightarrow> conversion_error + f64" where
  "try_f64 (Float64 f) = Inr f"
| "try_f64 (Int64 i) = Inr (i64_as_f64 i)"
| "try_f64 (Bool b) = Inr (if b then f64_of_mag False (0x3FF * 2 ^ 52) else f64_of_mag False 0)"
| "try_f64 (String s) =
     (case parse_f64 (trim (chars s)) of Some f \<Rightarrow> Inr f | None \<Rightarrow> Inl (Parse s ''f64''))"
| "try_f64 other = Inl (Type_mismatch (kind other) ''f64'')"

fun try_f32 :: "value \<Rightarrow> conversion_error + f32" where
  "try_f32 (Float64 f) = Inr (f64_as_f32 f)"
| "try_f32 (Int64 i) = Inr (i64_as_f32 i)"
| "try_f32 (Bool b) = Inr (if b then f32_of_mag False (0x7F * 2 ^ 23) else f32_of_mag False 0)"
| "try_f32 (String s) =
     (case parse_f32 (trim (chars s)) of Some f \<Rightarrow> Inr f | None \<Rightarrow> Inl (Parse s ''f32''))"
| "try_f32 other = Inl (Type_mismatch (kind other) ''f32'')"

section \<open>The order of the magnitudes\<close>

lemma fl_scaled_step: "fl_scaled p (Suc m) = fl_scaled p m + 2 ^ (m div 2 ^ p - 1)"
proof -
  define P where "P = (2 :: nat) ^ p"
  define e f where "e = m div P" and "f = m mod P"
  have P: "0 < P" by (simp add: P_def)
  have m: "m = e * P + f" "f < P" using P by (simp_all add: e_def f_def)
  have scaled: "fl_scaled p n = (if n div P = 0 then n mod P else (P + n mod P) * 2 ^ (n div P - 1))" for n
    by (simp add: fl_scaled_def P_def Let_def)
  show ?thesis
  proof (cases "Suc f < P")
    case True
    have s: "Suc m = e * P + Suc f" using m by simp
    have "Suc m div P = e" "Suc m mod P = Suc f" unfolding s using True
      by (simp_all del: add_Suc_right)
    then show ?thesis unfolding scaled using e_def f_def by (simp add: P_def algebra_simps)
  next
    case False
    then have f: "Suc f = P" using m by simp
    then have "Suc m = Suc e * P" using m by simp
    then have "Suc m div P = Suc e" "Suc m mod P = 0" using P by simp_all
    moreover have "P * 2 ^ e = (P + f) * 2 ^ (e - 1) + 2 ^ (e - 1)" if "e \<noteq> 0"
    proof -
      have "(P + f) * 2 ^ (e - 1) + 2 ^ (e - 1) = (P + Suc f) * 2 ^ (e - 1)" by simp
      also have "\<dots> = P * (2 * 2 ^ (e - 1))" by (simp add: f)
      also have "2 * 2 ^ (e - 1) = (2 :: nat) ^ e" using that by (cases e) simp_all
      finally show ?thesis by simp
    qed
    ultimately show ?thesis unfolding scaled using e_def f_def f by (auto simp: P_def[symmetric])
  qed
qed

lemma fl_scaled_mono: "m < n \<Longrightarrow> fl_scaled p m < fl_scaled p n"
  by (rule lift_Suc_mono_less) (simp_all add: fl_scaled_step)

lemma fl_scaled_less: "fl_scaled p m < fl_scaled p n \<longleftrightarrow> m < n"
  using fl_scaled_mono[of m n p] fl_scaled_mono[of n m p] by (metis linorder_less_linear less_asym)

lemma fl_scaled_0 [simp]: "fl_scaled p 0 = 0"
  by (simp add: fl_scaled_def)

lemma fl_floor_large:
  assumes n: "2 ^ p \<le> n"
  defines "j \<equiv> top_bit n - p"
  shows "fl_scaled p (fl_floor p n) = n div 2 ^ j * 2 ^ j" and "fl_floor p n div 2 ^ p = Suc j"
proof -
  have pos: "0 < n" using n by (rule less_le_trans[rotated]) simp
  note top = top_bit_bounds[OF pos]
  have "p \<le> top_bit n"
  proof (rule ccontr)
    assume "\<not> p \<le> top_bit n"
    then have "(2 :: nat) ^ Suc (top_bit n) \<le> 2 ^ p" by (intro power_increasing) simp_all
    then show False using top n by simp
  qed
  then have k: "top_bit n = p + j" by (simp add: j_def)
  define q where "q = n div 2 ^ j"
  have q: "2 ^ p \<le> q" "q < 2 * 2 ^ p"
    using top unfolding q_def k
    by (simp_all add: power_add div_less_iff_less_mult less_eq_div_iff_mult_less_eq mult.commute mult.left_commute)
  have m: "fl_floor p n = j * 2 ^ p + q" using n by (simp add: fl_floor_def j_def q_def)
  have "q div 2 ^ p = 1" "q mod 2 ^ p = q - 2 ^ p"
    using q by (simp_all add: div_nat_eqI le_mod_geq)
  then have e: "fl_floor p n div 2 ^ p = Suc j" "fl_floor p n mod 2 ^ p = q - 2 ^ p" by (simp_all add: m)
  then show "fl_scaled p (fl_floor p n) = n div 2 ^ j * 2 ^ j"
    using q by (simp add: fl_scaled_def flip: q_def)
  show "fl_floor p n div 2 ^ p = Suc j" by (rule e)
qed

lemma fl_floor_bounds: "fl_scaled p (fl_floor p n) \<le> n \<and> n < fl_scaled p (Suc (fl_floor p n))"
proof (cases "n < 2 ^ p")
  case True
  then show ?thesis by (simp add: fl_floor_def fl_scaled_step) (simp add: fl_scaled_def)
next
  case False
  define j where "j = top_bit n - p"
  have "n = n div 2 ^ j * 2 ^ j + n mod 2 ^ j" by (rule div_mult_mod_eq[symmetric])
  moreover have "n mod 2 ^ j < 2 ^ j" by simp
  ultimately have "n div 2 ^ j * 2 ^ j \<le> n" "n < n div 2 ^ j * 2 ^ j + 2 ^ j" by linarith+
  then show ?thesis
    using fl_floor_large[of p n] False by (simp add: fl_scaled_step flip: j_def)
qed

text \<open>A number of at most \<open>p + 1\<close> bits, times a power of two, is a magnitude.\<close>

lemma fl_floor_exact:
  assumes "n \<le> 2 ^ Suc p"
  shows "fl_scaled p (fl_floor p (n * 2 ^ k)) = n * 2 ^ k"
proof (cases "n * 2 ^ k < 2 ^ p")
  case True
  then show ?thesis by (simp add: fl_floor_def fl_scaled_def)
next
  case False
  define N where "N = n * 2 ^ k"
  have N: "2 ^ p \<le> N" using False by (simp add: N_def)
  have pos: "0 < N" using N by (rule less_le_trans[rotated]) simp
  note top = top_bit_bounds[OF pos]
  have "N \<le> 2 ^ Suc p * 2 ^ k" unfolding N_def using assms by (rule mult_right_mono) simp
  then have le: "N \<le> 2 ^ (Suc p + k)" by (simp add: power_add)
  then have "(2 :: nat) ^ top_bit N \<le> 2 ^ (Suc p + k)" using top by linarith
  then have j: "top_bit N \<le> Suc p + k" by (rule power_le_imp_le_exp[rotated]) simp
  have "2 ^ (top_bit N - p) dvd N"
  proof (cases "top_bit N = Suc p + k")
    case True
    then have "N = 2 ^ (Suc p + k)" using le top by simp
    then show ?thesis using True by (simp add: le_imp_power_dvd)
  next
    case False
    then have "2 ^ (top_bit N - p) dvd (2 :: nat) ^ k" using j by (intro le_imp_power_dvd) simp
    then show ?thesis unfolding N_def by (rule dvd_mult)
  qed
  then show ?thesis using fl_floor_large(1)[OF N] by (simp flip: N_def)
qed

lemma fl_floor_eq: "fl_scaled p m \<le> n \<Longrightarrow> n < fl_scaled p (Suc m) \<Longrightarrow> fl_floor p n = m"
  using fl_floor_bounds[of p n] fl_scaled_less[of p]
  by (metis Suc_leI le_antisym le_less_trans less_Suc_eq_le)

section \<open>Rounding\<close>

text \<open>A number nearer to a magnitude than to its neighbours rounds to it.\<close>

lemma fl_round_near:
  assumes m: "m \<le> huge" and den: "0 < den"
    and up: "2 * num < (fl_scaled p m + fl_scaled p (Suc m)) * den"
    and down: "m = 0 \<or> (fl_scaled p (m - 1) + fl_scaled p m) * den < 2 * num"
  shows "fl_round p huge num den = m"
proof (cases "fl_scaled p m * den \<le> num")
  case True
  have "fl_scaled p m < fl_scaled p (Suc m)" by (rule fl_scaled_mono) simp
  then have "(fl_scaled p m + fl_scaled p (Suc m)) * den \<le> 2 * (fl_scaled p (Suc m) * den)"
    by (simp add: algebra_simps)
  then have "num < fl_scaled p (Suc m) * den" using up by linarith
  then have "fl_floor p (num div den) = m"
    using True den by (intro fl_floor_eq) (simp_all add: div_less_iff_less_mult less_eq_div_iff_mult_less_eq)
  then show ?thesis using up m by (simp add: fl_round_def)
next
  case False
  then obtain k where k: "m = Suc k" by (cases m) simp_all
  have d: "(fl_scaled p k + fl_scaled p m) * den < 2 * num" using down k by simp
  have "fl_scaled p k < fl_scaled p m" by (rule fl_scaled_mono) (simp add: k)
  then have "2 * (fl_scaled p k * den) \<le> (fl_scaled p k + fl_scaled p m) * den" by (simp add: algebra_simps)
  then have "fl_scaled p k * den \<le> num" using d by linarith
  then have "fl_floor p (num div den) = k"
    using False den k by (intro fl_floor_eq) (simp_all add: div_less_iff_less_mult less_eq_div_iff_mult_less_eq)
  then show ?thesis using d m k by (simp add: fl_round_def Let_def)
qed

lemma fl_round_exact:
  assumes "m \<le> huge" "0 < den"
  shows "fl_round p huge (fl_scaled p m * den) den = m"
proof (rule fl_round_near[OF assms])
  show "2 * (fl_scaled p m * den) < (fl_scaled p m + fl_scaled p (Suc m)) * den"
    using assms(2) fl_scaled_mono[of m "Suc m" p] by (simp add: algebra_simps)
  show "m = 0 \<or> (fl_scaled p (m - 1) + fl_scaled p m) * den < 2 * (fl_scaled p m * den)"
    using assms(2) fl_scaled_mono[of "m - 1" m p] by (cases m) (simp_all add: algebra_simps)
qed

lemma fl_round_scale:
  assumes "0 < c"
  shows "fl_round p huge (num * c) (den * c) = fl_round p huge num den"
proof -
  have "num * c div (den * c) = num div den" using assms by simp
  moreover have "2 * (num * c) < s * (den * c) \<longleftrightarrow> 2 * num < s * den"
    "2 * (num * c) = s * (den * c) \<longleftrightarrow> 2 * num = s * den" for s
    using assms by (metis mult.assoc mult_less_cancel2, metis mult.assoc mult_cancel2 less_irrefl)
  ultimately show ?thesis by (simp add: fl_round_def Let_def)
qed

section \<open>Shortest decimals\<close>

lemma F64_UNIT_pos: "0 < F64_UNIT"
  by (simp add: F64_UNIT_def)

text \<open>A magnitude is at most \<open>2 ^ 53\<close> times its distance to either neighbour.\<close>

lemma fl_scaled_upper: "fl_scaled p m + 2 ^ (m div 2 ^ p - 1) \<le> 2 ^ Suc p * 2 ^ (m div 2 ^ p - 1)"
proof -
  define P where "P = (2 :: nat) ^ p"
  define e f where "e = m div P" and "f = m mod P"
  have "0 < P" by (simp add: P_def)
  then have f: "Suc f \<le> P" by (simp add: f_def Suc_leI)
  have scaled: "fl_scaled p m = (if e = 0 then f else (P + f) * 2 ^ (e - 1))"
    by (simp add: fl_scaled_def P_def e_def f_def Let_def)
  have "(P + f) * 2 ^ (e - 1) + 2 ^ (e - 1) = (P + Suc f) * 2 ^ (e - 1)" by simp
  also have "\<dots> \<le> 2 * P * 2 ^ (e - 1)" using f by (intro mult_right_mono) simp_all
  finally have "fl_scaled p m + 2 ^ (e - 1) \<le> 2 * P * 2 ^ (e - 1)"
    using f unfolding scaled by (cases "e = 0") simp_all
  then show ?thesis by (simp add: e_def P_def)
qed

lemma gap_above: "fl_scaled p m \<le> 2 ^ Suc p * (fl_scaled p (Suc m) - fl_scaled p m)"
  using fl_scaled_upper[of p m] unfolding fl_scaled_step diff_add_inverse by linarith

lemma gap_below: "fl_scaled p (Suc m) \<le> 2 ^ Suc p * (fl_scaled p (Suc m) - fl_scaled p m)"
  using fl_scaled_upper[of p m] unfolding fl_scaled_step diff_add_inverse by linarith

lemma leading_zeros_bound:
  "0 < num \<Longrightarrow> num < 10 * den \<Longrightarrow> den \<le> num * 10 ^ leading_zeros num den"
proof (induction num den rule: leading_zeros.induct)
  case (1 num den)
  show ?case
  proof (cases "den \<le> num")
    case True
    then show ?thesis by (simp add: leading_zeros.simps[of num den])
  next
    case False
    then have "den \<le> 10 * num * 10 ^ leading_zeros (10 * num) den" using 1 by simp
    then show ?thesis using False 1 by (simp add: leading_zeros.simps[of num den] ac_simps)
  qed
qed

lemma nat_to_string_bound: "10 ^ (length (nat_to_string n) - 1) \<le> max 1 n"
proof (induction n rule: nat_to_string.induct)
  case (1 n)
  show ?case
  proof (cases "n < 10")
    case True
    then show ?thesis by (simp add: nat_to_string.simps[of n])
  next
    case False
    then have IH: "10 ^ (length (nat_to_string (n div 10)) - 1) \<le> n div 10" using 1 by simp
    have "length (nat_to_string (n div 10)) \<noteq> 0" using nat_to_string_digits[of "n div 10"] by simp
    then have "(10 :: nat) ^ length (nat_to_string (n div 10)) =
        10 * 10 ^ (length (nat_to_string (n div 10)) - 1)" by (cases "length (nat_to_string (n div 10))") simp_all
    also have "\<dots> \<le> 10 * (n div 10)" using IH by simp
    also have "\<dots> \<le> n" by simp
    finally show ?thesis using False by (simp add: nat_to_string.simps[of n])
  qed
qed

text \<open>\<open>10 ^ (k - 1) \<le> num / den\<close>, without fractions.\<close>

lemma dec_exp_bound:
  assumes "0 < num" "0 < den"
  defines "k \<equiv> dec_exp num den"
  shows "10 ^ nat (k - 1) * den \<le> num * 10 ^ nat (1 - k)"
proof (cases "den \<le> num")
  case True
  define n where "n = num div den"
  have n: "1 \<le> n" using True assms by (simp add: n_def less_eq_div_iff_mult_less_eq)
  define l where "l = length (nat_to_string n)"
  have l: "l \<noteq> 0" using nat_to_string_digits[of n] by (simp add: l_def)
  have k: "k = int l" using True by (simp add: k_def dec_exp_def l_def n_def)
  then have "nat (k - 1) = l - 1" "nat (1 - k) = 0" using l by simp_all
  moreover have "10 ^ (l - 1) \<le> n" using nat_to_string_bound[of n] n by (simp add: l_def max_absorb2)
  then have "10 ^ (l - 1) * den \<le> n * den" by (rule mult_right_mono) simp
  then have "10 ^ (l - 1) * den \<le> num" using order_trans n_def div_times_less_eq_dividend by blast
  ultimately show ?thesis by simp
next
  case False
  then have "k = 1 - int (leading_zeros num den)" by (simp add: k_def dec_exp_def)
  then show ?thesis using leading_zeros_bound[of num den] assms(1) False by simp
qed

text \<open>The nearest decimal with seventeen digits rounds to the float.\<close>

lemma decimal_of_17:
  assumes m: "0 < m" "m \<le> F64_INF"
  shows "decimal_of m 17 \<noteq> None"
proof -
  define v where "v = fl_scaled 52 m"
  define q where "q = dec_exp v F64_UNIT - 17"
  define a b d where "a = v * 10 ^ nat (- q)" and "b = F64_UNIT * (10 :: nat) ^ nat q" and "d = a div b"
  have v: "0 < v" using fl_scaled_mono[OF m(1), of 52] by (simp add: v_def)
  have N: "0 < (10 :: nat) ^ nat (- q)" and b: "0 < b" by (simp_all add: b_def F64_UNIT_def)
  have big: "10 ^ 16 * b \<le> a"
  proof -
    have k: "10 ^ nat (q + 16) * F64_UNIT \<le> v * 10 ^ nat (- q - 16)"
      using dec_exp_bound[OF v, of F64_UNIT] by (simp add: q_def F64_UNIT_pos algebra_simps)
    show ?thesis
    proof (cases "0 \<le> q + 16")
      case True
      have "16 + nat q = nat (q + 16) + nat (- q)" using True by simp
      then have "(10 :: nat) ^ 16 * 10 ^ nat q = 10 ^ nat (q + 16) * 10 ^ nat (- q)"
        by (simp only: flip: power_add)
      then have "10 ^ 16 * b = 10 ^ nat (q + 16) * F64_UNIT * 10 ^ nat (- q)" by (simp add: b_def ac_simps)
      also have "\<dots> \<le> v * 10 ^ nat (- q - 16) * 10 ^ nat (- q)" using k by (intro mult_right_mono) simp_all
      also have "\<dots> = a" using True by (simp add: a_def)
      finally show ?thesis .
    next
      case False
      then have "nat (- q) = nat (- q - 16) + 16" "nat q = 0" "nat (q + 16) = 0" by simp_all
      then show ?thesis using k by (simp add: a_def b_def power_add)
    qed
  qed
  have near: "decimal_mag x q = m" if x: "2 * (x * b) \<le> 2 * a + b" "2 * a \<le> 2 * (x * b) + b" for x
  proof -
    have "2 ^ 53 < (10 :: nat) ^ 16" by simp
    then have "2 ^ 53 * b < 10 ^ 16 * b" using b by (simp only: mult_less_cancel2)
    then have ba: "2 ^ 53 * b < a" using big by linarith
    have gap: "b < g * 10 ^ nat (- q)" if "v \<le> 2 ^ 53 * g" for g
    proof -
      have "a \<le> 2 ^ 53 * g * 10 ^ nat (- q)" unfolding a_def using that by (rule mult_right_mono) simp
      then have "2 ^ 53 * b < 2 ^ 53 * (g * 10 ^ nat (- q))" using ba by (simp only: mult.assoc)
      then show ?thesis by (simp only: mult_less_cancel1)
    qed
    have num: "x * 10 ^ nat q * F64_UNIT = x * b" by (simp add: b_def)
    have "fl_round 52 F64_INF (x * b) (10 ^ nat (- q)) = m"
    proof (rule fl_round_near[OF m(2) N])
      let ?g = "fl_scaled 52 (Suc m) - v"
      have g: "b < ?g * 10 ^ nat (- q)" using gap_above[of 52 m] by (intro gap) (simp add: v_def)
      have "v < fl_scaled 52 (Suc m)" unfolding v_def by (rule fl_scaled_mono) simp
      then have w: "fl_scaled 52 (Suc m) = v + ?g" by simp
      have "(v + (v + g)) * 10 ^ nat (- q) = 2 * a + g * 10 ^ nat (- q)" for g
        by (simp add: a_def add_mult_distrib)
      from this[of ?g] have "(v + fl_scaled 52 (Suc m)) * 10 ^ nat (- q) = 2 * a + ?g * 10 ^ nat (- q)"
        by (simp only: w[symmetric])
      then show "2 * (x * b) < (fl_scaled 52 m + fl_scaled 52 (Suc m)) * 10 ^ nat (- q)"
        using x(1) g by (simp add: v_def)
      obtain k where k: "m = Suc k" using m(1) by (cases m) auto
      let ?h = "v - fl_scaled 52 k"
      have h: "b < ?h * 10 ^ nat (- q)" using gap_below[of 52 k] by (intro gap) (simp add: v_def k)
      have "fl_scaled 52 k < v" unfolding v_def k by (rule fl_scaled_mono) simp
      then have "(fl_scaled 52 k + v) * 10 ^ nat (- q) + ?h * 10 ^ nat (- q) = 2 * a"
        by (simp add: a_def flip: add_mult_distrib)
      then show "m = 0 \<or> (fl_scaled 52 (m - 1) + fl_scaled 52 m) * 10 ^ nat (- q) < 2 * (x * b)"
        using x(2) h by (simp add: v_def k)
    qed
    then show ?thesis by (simp only: decimal_mag_def num)
  qed
  have ab: "a = d * b + a mod b" "a mod b < b" using b by (simp_all add: d_def)
  have "decimal_mag d q = m \<or> decimal_mag (d + 1) q = m"
  proof (cases "2 * (a mod b) \<le> b")
    case True
    then show ?thesis using ab by (intro disjI1 near) linarith+
  next
    case False
    have "(d + 1) * b = d * b + b" by simp
    then show ?thesis using ab False by (intro disjI2 near) linarith+
  qed
  then show ?thesis
    by (auto simp: decimal_of_def Let_def v_def[symmetric] q_def[symmetric] a_def[symmetric]
        b_def[symmetric] d_def[symmetric])
qed

lemma decimal_mag_strip:
  "case strip_zeros d q of (d', q') \<Rightarrow> decimal_mag d' q' = decimal_mag d q"
proof (induction d q rule: strip_zeros.induct)
  case (1 d q)
  show ?case
  proof (cases "d = 0 \<or> d mod 10 \<noteq> 0")
    case True
    then show ?thesis by (auto simp: strip_zeros.simps[of d q])
  next
    case False
    define c where "c = d div 10"
    have "c * 10 + d mod 10 = d" unfolding c_def by (rule div_mult_mod_eq)
    then have d: "d = c * 10" using False by simp
    have "decimal_mag c (q + 1) = decimal_mag d q"
    proof (cases "0 \<le> q")
      case True
      then have "nat (q + 1) = Suc (nat q)" "nat (- q) = 0" "nat (- (q + 1)) = 0" by simp_all
      then show ?thesis by (simp add: decimal_mag_def d ac_simps)
    next
      case neg: False
      then have "nat (- q) = Suc (nat (- (q + 1)))" "nat q = 0" "nat (q + 1) = 0" by simp_all
      then show ?thesis
        using fl_round_scale[of 10 52 F64_INF "c * F64_UNIT" "10 ^ nat (- (q + 1))"]
        by (simp add: decimal_mag_def d ac_simps)
    qed
    moreover have "strip_zeros d q = strip_zeros c (q + 1)"
      unfolding strip_zeros.simps[of d q] c_def using False by (rule if_not_P)
    moreover have "case strip_zeros c (q + 1) of (d', q') \<Rightarrow> decimal_mag d' q' = decimal_mag c (q + 1)"
      using 1[OF False] by (simp only: c_def)
    ultimately show ?thesis by simp
  qed
qed

lemma shortest_decimal:
  assumes "0 < m" "m \<le> F64_INF"
  shows "case shortest_decimal m of (d, q) \<Rightarrow> decimal_mag d q = m"
proof -
  have "(17 :: nat) \<in> set [1..<18]" unfolding set_upt by simp
  then obtain n where n: "find (\<lambda>n. decimal_of m n \<noteq> None) [1..<18] = Some n"
    using decimal_of_17[OF assms] find_None_iff[of "\<lambda>n. decimal_of m n \<noteq> None" "[1..<18]"] by blast
  then have "decimal_of m n \<noteq> None" unfolding find_Some_iff by blast
  then obtain d where d: "decimal_of m n = Some d" by blast
  then have "decimal_mag d (dec_exp (fl_scaled 52 m) F64_UNIT - int n) = m"
    by (auto simp: decimal_of_def Let_def split: if_splits)
  moreover have "shortest_decimal m = strip_zeros d (dec_exp (fl_scaled 52 m) F64_UNIT - int n)"
    unfolding shortest_decimal_def n option.case d option.sel ..
  ultimately show ?thesis
    using decimal_mag_strip[of d "dec_exp (fl_scaled 52 m) F64_UNIT - int n"] by simp
qed

section \<open>Parsing what was printed\<close>

lemma digits_value_append:
  "digits_value (xs @ ys) = digits_value xs * 10 ^ length ys + digits_value ys"
proof -
  have "foldl (\<lambda>n c. 10 * n + (c - 48)) a ys = a * 10 ^ length ys + digits_value ys" for a
  proof (induction ys arbitrary: a)
    case (Cons c ys)
    have "digits_value (c # ys) = foldl (\<lambda>n c. 10 * n + (c - 48)) (c - 48) ys"
      by (simp add: digits_value_def)
    then have "digits_value (c # ys) = (c - 48) * 10 ^ length ys + digits_value ys"
      by (simp only: Cons)
    moreover have "foldl (\<lambda>n c. 10 * n + (c - 48)) a (c # ys) =
        (10 * a + (c - 48)) * 10 ^ length ys + digits_value ys" by (simp only: foldl.simps Cons)
    ultimately show ?case by (simp only: add_mult_distrib) simp
  qed (simp add: digits_value_def)
  then show ?thesis unfolding digits_value_def[of "xs @ ys"] digits_value_def[of xs] foldl_append .
qed

lemma digits_value_zero: "digits_value (48 # xs) = digits_value xs"
  by (simp add: digits_value_def)

lemma digits_value_zeros: "digits_value (replicate k 48) = 0"
  by (induction k) (simp_all add: digits_value_def)

lemma digits_value_nat: "digits_value (map unat (nat_to_string n)) = n"
proof (induction n rule: nat_to_string.induct)
  case (1 n)
  show ?case
  proof (cases "n < 10")
    case True
    then show ?thesis
      by (simp add: nat_to_string.simps[of n] digits_value_def unat_digit del: of_nat_add of_nat_numeral)
  next
    case False
    have "digits_value [unat (word_of_nat (48 + n mod 10) :: byte)] = n mod 10"
      by (simp add: digits_value_def unat_digit del: of_nat_add of_nat_numeral)
    then show ?thesis using 1 False
      by (simp add: nat_to_string.simps[of n] digits_value_append del: of_nat_add of_nat_numeral)
  qed
qed

lemma parse_number_digits:
  assumes "list_all is_digit xs" "list_all is_digit ys"
  shows "xs \<noteq> [] \<Longrightarrow> parse_number xs = Some (digits_value xs, 0)"
    "xs @ ys \<noteq> [] \<Longrightarrow> parse_number (xs @ 46 # ys) = Some (digits_value (xs @ ys), - int (length ys))"
proof -
  have all: "takeWhile is_digit zs = zs" "dropWhile is_digit zs = []" if "list_all is_digit zs" for zs
    using that by (simp_all add: list_all_iff)
  have "\<not> is_digit 46" by (simp add: is_digit_def)
  then have span: "takeWhile is_digit (xs @ 46 # ys) = xs" "dropWhile is_digit (xs @ 46 # ys) = 46 # ys"
    using assms(1) by (simp_all add: list_all_iff takeWhile_append dropWhile_append)
  show "xs \<noteq> [] \<Longrightarrow> parse_number xs = Some (digits_value xs, 0)"
    by (simp add: parse_number_def parse_exponent_def Let_def all[OF assms(1)])
  show "xs @ ys \<noteq> [] \<Longrightarrow> parse_number (xs @ 46 # ys) = Some (digits_value (xs @ ys), - int (length ys))"
    by (simp add: parse_number_def span parse_exponent_def Let_def all[OF assms(2)])
qed

definition number_text :: "rstring \<Rightarrow> nat \<Rightarrow> bool" where
  "number_text s m \<longleftrightarrow>
     s \<noteq> [] \<and> (\<forall>b \<in> set s. b \<le> 0x7F) \<and> unat (hd s) \<notin> {43, 45} \<and> \<not> is_whitespace (unat (hd s)) \<and>
     \<not> is_whitespace (unat (last s)) \<and> parse_mag 52 F64_INF F64_UNIT (map unat s) = Some m"

lemma number_textI:
  assumes "s \<noteq> []" "\<forall>b \<in> set s. is_digit (unat b) \<or> b = 46" "is_digit (unat (hd s))" "is_digit (unat (last s))"
    and "parse_number (map unat s) = Some (d, q)" "fl_round 52 F64_INF (d * 10 ^ nat q * F64_UNIT) (10 ^ nat (- q)) = m"
  shows "number_text s m"
proof -
  have "lower (unat (hd s)) \<noteq> 105" "lower (unat (hd s)) \<noteq> 110"
    using assms(3) by (auto simp: lower_def is_digit_def)
  then have "map lower (map unat s) \<noteq> chars (str ''inf'')" "map lower (map unat s) \<noteq> chars (str ''infinity'')"
    "map lower (map unat s) \<noteq> chars (str ''nan'')"
    using assms(1) by (auto simp: str_def hd_conv_nth neq_Nil_conv)
  then have "parse_mag 52 F64_INF F64_UNIT (map unat s) = Some m"
    using assms(5,6) by (simp add: parse_mag_def Let_def)
  moreover have "b \<le> 0x7F" if "b \<in> set s" for b
    using assms(2) that digit_ascii by auto
  moreover have "unat (hd s) \<notin> {43, 45}" using assms(3) by (auto simp: is_digit_def)
  ultimately show ?thesis
    using assms(1,3,4) digit_not_whitespace by (simp add: number_text_def)
qed

lemma decimal_text: "number_text (decimal_to_string d q) (decimal_mag d q)"
proof -
  define ds where "ds = nat_to_string d"
  define len where "len = length ds"
  have ne: "ds \<noteq> []" and dig: "\<forall>b \<in> set ds. is_digit (unat b)"
    using nat_to_string_digits[of d] by (simp_all add: ds_def)
  have val: "digits_value (map unat ds) = d" by (simp add: ds_def digits_value_nat)
  have all: "list_all is_digit (map unat xs)" if "\<forall>b \<in> set xs. b \<in> set ds \<or> b = 48" for xs
    using that dig by (auto simp: list_all_iff is_digit_def)
  consider "0 \<le> q" | "q < 0" "0 < int len + q" | "q < 0" "int len + q \<le> 0" by linarith
  then show ?thesis
  proof cases
    case 1
    let ?s = "ds @ replicate (nat q) 48"
    have "parse_number (map unat ?s) = Some (digits_value (map unat ?s), 0)"
      by (intro parse_number_digits(1)[of _ "[]"] all) (use ne in auto)
    moreover have "digits_value (map unat ?s) = d * 10 ^ nat q"
      by (simp add: digits_value_append digits_value_zeros val)
    ultimately have "number_text ?s (decimal_mag d q)"
      using 1 ne dig by (intro number_textI[where d = "d * 10 ^ nat q" and q = 0])
        (auto simp: decimal_mag_def is_digit_def last_append)
    then show ?thesis using 1 by (simp add: decimal_to_string_def ds_def)
  next
    case 2
    define k where "k = nat (int len + q)"
    have k: "0 < k" "k < len" "int (len - k) = - q" using 2 by (simp_all add: k_def)
    let ?s = "take k ds @ [46] @ drop k ds"
    have sub: "set (take k ds) \<subseteq> set ds" "set (drop k ds) \<subseteq> set ds" by (auto dest: in_set_takeD in_set_dropD)
    have ends: "take k ds \<noteq> []" "drop k ds \<noteq> []" using k ne by (simp_all add: len_def)
    have "parse_number (map unat (take k ds) @ 46 # map unat (drop k ds)) =
        Some (digits_value (map unat (take k ds) @ map unat (drop k ds)), - int (length (map unat (drop k ds))))"
      by (intro parse_number_digits(2) all) (use sub ends in auto)
    moreover have "map unat (take k ds) @ map unat (drop k ds) = map unat ds" by (simp flip: map_append)
    ultimately have "parse_number (map unat ?s) = Some (d, q)" using k(3) by (simp add: val len_def)
    then have "number_text ?s (decimal_mag d q)"
      using dig sub ends by (intro number_textI) (auto simp: decimal_mag_def subset_iff)
    then show ?thesis using 2 by (simp add: decimal_to_string_def ds_def len_def k_def Let_def)
  next
    case 3
    define k where "k = nat (- (int len + q))"
    let ?s = "[48, 46] @ replicate k 48 @ ds"
    have k: "int (k + len) = - q" using 3 by (simp add: k_def)
    have "parse_number ([48] @ 46 # map unat (replicate k 48 @ ds)) =
        Some (digits_value ([48] @ map unat (replicate k 48 @ ds)), - int (length (map unat (replicate k 48 @ ds))))"
      by (intro parse_number_digits(2) all) (auto simp: is_digit_def)
    moreover have "digits_value ([48] @ map unat (replicate k 48 @ ds)) = d"
      by (simp add: digits_value_zero digits_value_append digits_value_zeros val)
    ultimately have "parse_number (map unat ?s) = Some (d, q)" using k by (simp add: len_def)
    then have "number_text ?s (decimal_mag d q)"
      using dig ne by (intro number_textI) (auto simp: decimal_mag_def is_digit_def last_append)
    then show ?thesis using 3 by (simp add: decimal_to_string_def ds_def len_def k_def Let_def)
  qed
qed

lemma mag_text:
  assumes "m \<le> F64_INF"
  shows "number_text (mag_to_string m) m"
proof -
  consider "m = F64_INF" | "m = 0" "m \<noteq> F64_INF" | "0 < m" "m \<noteq> F64_INF" by blast
  then show ?thesis
  proof cases
    case 1
    then show ?thesis
      by (simp add: mag_to_string_def number_text_def parse_mag_def lower_def str_def is_whitespace_def)
  next
    case 2
    have "digits_value [48] = 0" by (simp add: digits_value_def)
    then have "number_text [48] 0"
      using fl_round_exact[of 0 F64_INF 1 52] parse_number_digits(1)[of "[48]" "[]"]
      by (intro number_textI[where d = 0 and q = 0]) (simp_all add: is_digit_def)
    then show ?thesis using 2 by (simp add: mag_to_string_def)
  next
    case 3
    then show ?thesis using shortest_decimal[of m] decimal_text assms
      by (auto simp: mag_to_string_def split: prod.splits)
  qed
qed

lemma f64_of_mag_parts: "f64_of_mag (f64_sign w) (f64_mag w) = w"
proof -
  have "(if f64_sign w then 2 ^ 63 else 0) + f64_mag w = unat w"
    by (simp add: f64_mag_unat f64_sign_unat)
  then show ?thesis by (simp add: f64_of_mag_def)
qed

lemma f64_text:
  assumes "\<not> f64_is_nan w"
  shows "parse_f64 (trim (chars (f64_to_string w))) = Some w"
proof -
  define s where "s = mag_to_string (f64_mag w)"
  have "f64_mag w \<le> F64_INF" using assms by (simp add: f64_is_nan_def F64_INF_def)
  then have t: "number_text s (f64_mag w)" unfolding s_def by (rule mag_text)
  then have cs: "chars s = map unat s" using chars_ascii[of s "[]"] by (simp add: number_text_def)
  have ne: "map unat s \<noteq> []" "\<not> is_whitespace (hd (map unat s))" "\<not> is_whitespace (last (map unat s))"
    "hd (map unat s) \<noteq> 43" "hd (map unat s) \<noteq> 45"
    using t by (auto simp: number_text_def hd_map last_map)
  have printed: "chars (f64_to_string w) = (if f64_sign w then [45] else []) @ map unat s"
    using assms by (simp add: f64_to_string_def cs flip: s_def)
  have "trim (chars (f64_to_string w)) = chars (f64_to_string w)"
    unfolding printed using trim_padded[of "[]" "[]" "map unat s"] trim_padded[of "[]" "[]" "45 # map unat s"] ne
    by (simp add: is_whitespace_def[of 45])
  moreover have "parse_float (parse_mag 52 F64_INF F64_UNIT) (chars (f64_to_string w)) =
      Some (f64_sign w, f64_mag w)"
    using t ne unfolding printed by (cases "map unat s") (auto simp: parse_float_def number_text_def)
  ultimately show ?thesis by (simp add: parse_f64_def f64_of_mag_parts)
qed

section \<open>Casts\<close>

lemma f64_scaled_fl: "f64_scaled m = int (fl_scaled 52 m)"
  by (simp add: f64_scaled_def fl_scaled_def Let_def)

lemma int_scaled: "int a = int b * 2 ^ k \<Longrightarrow> a = b * 2 ^ k"
  by (metis of_nat_eq_iff of_nat_mult of_nat_numeral of_nat_power)

lemma f64_of_mag:
  assumes "m < 2 ^ 63"
  shows "f64_sign (f64_of_mag s m) = s" and "f64_mag (f64_of_mag s m) = m"
proof -
  have "(if s then 2 ^ 63 else 0) + m < (2 ^ 64 :: nat)" using assms by simp
  then have "unat (f64_of_mag s m) = (if s then 2 ^ 63 else 0) + m"
    unfolding f64_of_mag_def by (simp add: unat_of_nat del: of_nat_add)
  then show "f64_sign (f64_of_mag s m) = s" "f64_mag (f64_of_mag s m) = m"
    using assms by (simp_all add: f64_sign_unat f64_mag_def)
qed

text \<open>Casting an integer of at most 53 bits rounds nothing, and casting back gives it again.\<close>

lemma i64_as_f64_exact:
  assumes i: "\<bar>i64_val i\<bar> \<le> 2 ^ 53"
  shows "\<not> f64_is_nan (i64_as_f64 i)"
    and "f64_num (i64_as_f64 i) = i64_val i * int F64_UNIT"
    and "f64_as_i64 (i64_as_f64 i) = i64_val i"
proof -
  define n m where "n = nat \<bar>i64_val i\<bar>" and "m = fl_floor 52 (n * F64_UNIT)"
  have n: "n \<le> 2 ^ 53" using i by (simp add: n_def)
  have s: "fl_scaled 52 m = n * F64_UNIT"
    unfolding m_def F64_UNIT_def by (rule fl_floor_exact) (use n in simp)
  have "n * F64_UNIT \<le> 2 ^ 53 * F64_UNIT" using n by (rule mult_right_mono) simp
  also have "2 ^ 53 * F64_UNIT < 2 ^ 2098" unfolding F64_UNIT_def by (simp flip: power_add)
  also have "(2 :: nat) ^ 2098 = fl_scaled 52 F64_INF" by (simp add: fl_scaled_def F64_INF_def)
  finally have m: "m < F64_INF" unfolding s[symmetric] fl_scaled_less .
  have "fl_round 52 F64_INF (n * F64_UNIT) 1 = m"
    using fl_round_exact[of m F64_INF 1 52] m unfolding s by simp
  then have w: "i64_as_f64 i = f64_of_mag (i64_val i < 0) m"
    unfolding i64_as_f64_def n_def by simp
  have "m < 2 ^ 63" using m by (simp add: F64_INF_def)
  note parts = f64_of_mag[OF this, of "i64_val i < 0", folded w]
  have scaled: "f64_scaled m = int n * int F64_UNIT" unfolding f64_scaled_fl s by simp
  show nan: "\<not> f64_is_nan (i64_as_f64 i)" using m by (simp add: f64_is_nan_def parts F64_INF_def)
  have val: "(if i64_val i < 0 then - int n else int n) = i64_val i" by (simp add: n_def)
  show "f64_num (i64_as_f64 i) = i64_val i * int F64_UNIT"
    unfolding f64_num_def parts scaled by (subst (2) val[symmetric]) simp
  have "int F64_UNIT = 2 ^ 1074" unfolding F64_UNIT_def by (simp only: of_nat_power of_nat_numeral)
  then have "f64_scaled m div 2 ^ 1074 = int n"
    unfolding scaled by (simp only: nonzero_mult_div_cancel_right power_eq_0_iff zero_neq_numeral[symmetric] simp_thms)
  then have "f64_trunc (i64_as_f64 i) = i64_val i"
    unfolding f64_trunc_def parts using val by (simp add: Let_def)
  then show "f64_as_i64 (i64_as_f64 i) = i64_val i"
    using nan abs_le_D1[OF i] abs_le_D2[OF i] by (simp add: f64_as_i64_def max_def min_def)
qed

lemma f32_num_fl:
  "f32_num w = (let m = int (fl_scaled 23 (unat w mod 2 ^ 31)) in if 2 ^ 31 \<le> unat w then - m else m)"
proof -
  have "unat w mod 2 ^ 31 div 2 ^ 23 = unat w div 2 ^ 23 mod 2 ^ 8"
    using mod_mult2_eq[of "unat w" "2 ^ 23" "2 ^ 8"] by simp
  moreover have "unat w mod 2 ^ 31 mod 2 ^ 23 = unat w mod 2 ^ 23"
    by (rule mod_mod_cancel) (simp add: le_imp_power_dvd)
  ultimately show ?thesis by (simp add: f32_num_def fl_scaled_def Let_def)
qed

lemma f32_of_mag_parts: "f32_of_mag (2 ^ 31 \<le> unat w) (unat w mod 2 ^ 31) = w"
proof -
  have "unat w < 2 ^ 32" using unsigned_less[of w, where ?'a = nat] by simp
  then have "(if 2 ^ 31 \<le> unat w then 2 ^ 31 else 0) + unat w mod 2 ^ 31 = unat w"
    by (auto simp: le_mod_geq)
  then show ?thesis by (simp add: f32_of_mag_def)
qed

text \<open>Widening keeps the sign, also of zero and of the infinities.\<close>

lemma f32_to_f64_sign: "f64_sign (f32_to_f64 w) \<longleftrightarrow> 2 ^ 31 \<le> unat w"
proof -
  define e f where "e = unat w div 2 ^ 23 mod 2 ^ 8" and "f = unat w mod 2 ^ 23"
  have f: "f < 2 ^ 23" and e: "e < 256" by (simp_all add: f_def e_def)
  have sign: "f64_sign (f64_of_fields s a b) = s" if "a < 2048" "b < 2 ^ 52" for s a b
    using f64_of_fields(1)[OF that] .
  have w: "f32_to_f64 w =
      (if e = 255 then f64_of_fields (2 ^ 31 \<le> unat w) 2047 (if f = 0 then 0 else f mod 2 ^ 22 * 2 ^ 29 + 2 ^ 51)
       else if e = 0 then (if f = 0 then f64_of_fields (2 ^ 31 \<le> unat w) 0 0
         else f64_of_fields (2 ^ 31 \<le> unat w) (top_bit f + 874) ((f - 2 ^ top_bit f) * 2 ^ (52 - top_bit f)))
       else f64_of_fields (2 ^ 31 \<le> unat w) (e + 896) (f * 2 ^ 29))"
    by (simp only: f32_to_f64_def Let_def e_def f_def)
  consider "e = 255" | "e = 0" "f = 0" | "e = 0" "0 < f" | "0 < e" "e < 255" using e by linarith
  then show ?thesis
  proof cases
    case 1
    have "f mod 2 ^ 22 < 2 ^ 22" by simp
    then have "(if f = 0 then 0 else f mod 2 ^ 22 * 2 ^ 29 + 2 ^ 51) < (2 ^ 52 :: nat)" by simp
    then show ?thesis unfolding w if_P[OF 1] by (intro sign) simp_all
  next
    case 2
    then show ?thesis using w sign[of 0 0] by simp
  next
    case 3
    then have v: "f32_to_f64 w =
        f64_of_fields (2 ^ 31 \<le> unat w) (top_bit f + 874) ((f - 2 ^ top_bit f) * 2 ^ (52 - top_bit f))"
      using w by simp
    show ?thesis unfolding v
      by (rule sign) (use 3 f subnormal_fraction(1) top_bit_less[of f 23] in simp_all)
  next
    case 4
    then have v: "f32_to_f64 w = f64_of_fields (2 ^ 31 \<le> unat w) (e + 896) (f * 2 ^ 29)" using w by simp
    show ?thesis unfolding v by (rule sign) (use 4 f in simp_all)
  qed
qed

lemma f32_cast_back:
  assumes "\<not> f32_is_nan w"
  shows "f64_as_f32 (f32_to_f64 w) = w"
proof -
  define m where "m = unat w mod 2 ^ 31"
  define W where "W = f32_to_f64 w"
  have m: "m div 2 ^ 23 = unat w div 2 ^ 23 mod 2 ^ 8" "m mod 2 ^ 23 = unat w mod 2 ^ 23"
    using mod_mult2_eq[of "unat w" "2 ^ 23" "2 ^ 8"] mod_mod_cancel[of "2 ^ 23" "2 ^ 31" "unat w"]
    by (simp_all add: m_def le_imp_power_dvd)
  have "(if f64_is_nan W then F32_INF + 2 ^ 22 + f64_mag W mod 2 ^ 51 div 2 ^ 29
      else if f64_mag W = F64_INF then F32_INF
      else fl_round 23 F32_INF (fl_scaled 52 (f64_mag W)) (2 ^ 925)) = m"
  proof (cases "f32_is_finite w")
    case True
    have "m < F32_INF" using True m(1) unfolding F32_INF_def f32_is_finite_def
      by (metis div_less_iff_less_mult zero_less_numeral zero_less_power)
    note num = f32_to_f64_num[OF True, folded W_def]
    have "f32_num w = (if 2 ^ 31 \<le> unat w then - int (fl_scaled 23 m) else int (fl_scaled 23 m))"
      unfolding f32_num_fl m_def Let_def ..
    then have "int (fl_scaled 52 (f64_mag W)) = int (fl_scaled 23 m) * 2 ^ 925"
      using num(2) f32_to_f64_sign[of w, folded W_def]
      by (simp add: f64_num_def f64_scaled_fl split: if_splits)
    then have s: "fl_scaled 52 (f64_mag W) = fl_scaled 23 m * 2 ^ 925"
      by (rule int_scaled)
    have "fl_scaled 23 m < fl_scaled 23 F32_INF" by (rule fl_scaled_mono) fact
    also have "fl_scaled 23 F32_INF = 2 ^ 277" by (simp add: fl_scaled_def F32_INF_def)
    finally have "fl_scaled 52 (f64_mag W) < 2 ^ 277 * 2 ^ 925"
      unfolding s by (rule mult_strict_right_mono) simp
    also have "(2 :: nat) ^ 277 * 2 ^ 925 \<le> 2 ^ 2098" by (simp only: flip: power_add) simp
    also have "(2 :: nat) ^ 2098 = fl_scaled 52 F64_INF" by (simp add: fl_scaled_def F64_INF_def)
    finally have "fl_scaled 52 (f64_mag W) < fl_scaled 52 F64_INF" .
    then have "f64_mag W \<noteq> F64_INF" by auto
    moreover have "fl_round 23 F32_INF (fl_scaled 23 m * 2 ^ 925) (2 ^ 925) = m"
      by (rule fl_round_exact) (use \<open>m < F32_INF\<close> in simp_all)
    ultimately show ?thesis unfolding s using num(1) by simp
  next
    case False
    have e: "unat w div 2 ^ 23 mod 2 ^ 8 = 255"
      using False mod_less_divisor[of "2 ^ 8" "unat w div 2 ^ 23"] by (simp add: f32_is_finite_def)
    then have f: "unat w mod 2 ^ 23 = 0" using assms by (simp add: f32_is_nan_def)
    have "m div 2 ^ 23 = 255" "m mod 2 ^ 23 = 0" using e f m by simp_all
    then have "m = 255 * 2 ^ 23" by (metis add_0_right div_mult_mod_eq)
    then have "m = F32_INF" by (simp add: F32_INF_def)
    moreover have "W = f64_of_fields (2 ^ 31 \<le> unat w) 2047 0"
      using e f by (simp add: W_def f32_to_f64_def Let_def)
    then have "f64_mag W = F64_INF" using f64_of_fields(2)[of 2047 0] by (simp add: F64_INF_def)
    moreover have "\<not> f64_is_nan W" using calculation(2) by (simp add: f64_is_nan_def F64_INF_def)
    ultimately show ?thesis by simp
  qed
  then have "f64_as_f32 W = f32_of_mag (f64_sign W) m" unfolding f64_as_f32_def by (rule arg_cong)
  also have "\<dots> = w" unfolding W_def m_def f32_to_f64_sign by (rule f32_of_mag_parts)
  finally show ?thesis unfolding W_def .
qed

end
