(* ===== verification/Document_Properties.thy ===== *)
theory Document_Properties
  imports Serde Float_Text
begin

text \<open>
  Properties of the document model and its conversions, \<open>crates/database/src/document.rs\<close>: the
  serde bridge loses nothing on the values it produces and reads enums as they were written, the write path and the read
  path of a document fit together, integers convert exactly or report why not, and two places
  where a number is changed without an error.
\<close>

section \<open>The serde bridge\<close>

text \<open>C14. A value that serialization produced has each key once at every depth, serializes to
  itself and deserializes to itself: the bridge is the identity on its own data model.\<close>

theorem serialized_value_round_trip:
  assumes "to_value s = Inr v" "\<forall>k. string_de (String k) = Inr k"
  shows "value_ok v \<and> to_value (value_ser v) = Inr v \<and> value_deserialize string_de v = Inr v"
  using assms serialize_ok(1)[of s v] serialize_value_ser[of v] deserialize_id(1)[of string_de v]
  by (simp add: to_value_def)

text \<open>A reader of strings, as serde's, and a struct with a repeated and a nested field.\<close>

fun read_string :: "value \<Rightarrow> document_error + rstring" where
  "read_string (String s) = Inr s"
| "read_string v = Inl (custom (''invalid type: '' @ kind v @ '', expected a string''))"

definition sample_struct :: ser where
  "sample_struct = Ser_struct
     [(str ''name'', Ser_str (str ''ada'')),
      (str ''tags'', Ser_seq [Ser_char 0xE9, Ser_some (Ser_int U32 7)]),
      (str ''name'', Ser_map [Serialize_key (Ser_int I8 (- 5)), Serialize_value Ser_none])]"

definition sample_document :: document where
  "sample_document =
     [(str ''name'', Document [(str ''-5'', Null)]),
      (str ''tags'', Array [String [0xC3, 0xA9], Int64 (I64 7)])]"

lemma sample_struct_value: "to_value sample_struct = Inr (Document sample_document)"
  by code_simp

theorem serialized_value_round_trip_witness:
  "value_ok (Document sample_document) \<and>
   to_value (value_ser (Document sample_document)) = Inr (Document sample_document) \<and>
   value_deserialize read_string (Document sample_document) = Inr (Document sample_document)"
  using serialized_value_round_trip[OF sample_struct_value, of read_string] by simp

text \<open>C15. What the write path accepts, the read path gives back: a document that was accepted for
  writing and is read with its id is the same list of entries behind the \<open>_id\<close> entry.\<close>

theorem written_document_reads_back:
  assumes "to_document s = Inr d" "\<forall>k. string_de (String k) = Inr k"
  shows "from_document_with_id (document_deserialize string_de) d i
           = Inr ((id_key, Bytes (u128_to_be i)) # d)"
proof -
  have v: "to_value s = Inr (Document d)" and new: "id_key \<notin> fst ` set d"
    using assms(1) by (simp_all add: to_document_Inr)
  have id: "with_id d i = (id_key, Bytes (u128_to_be i)) # d"
    using new by (simp add: with_id_def doc_insert_front_def doc_remove_absent)
  have "value_ok (Document (with_id d i))"
    using serialize_ok(1)[of s "Document d"] v new by (simp add: to_value_def id entries_ok_Cons)
  then show ?thesis
    using deserialize_id(1)[OF assms(2)]
    by (simp add: from_document_with_id_def from_document_def document_deserialize_def id
        del: value_deserialize.simps)
qed

theorem written_document_reads_back_witness:
  "from_document_with_id (document_deserialize read_string) sample_document 7
     = Inr ((id_key, Bytes (u128_to_be 7)) # sample_document)"
proof (rule written_document_reads_back[of sample_struct])
  show "to_document sample_struct = Inr sample_document"
    by (simp add: to_document_def sample_struct_value) code_simp
qed simp

section \<open>Enums\<close>

text \<open>
  serde's derived code is not part of the repository: a type's reader is a visitor of
  \<open>deserialize_enum\<close>, any function of the call it gets, and asks the \<open>VariantDeserializer\<close>, the second
  field of the call, for its payload by one of the four methods, with any seed or visitor.
\<close>

lemma serialize_elements_map:
  "serialize_elements vec xs = Inr vs \<Longrightarrow> \<exists>ws. vs = vec @ ws \<and> map to_value xs = map Inr ws"
proof (induction xs arbitrary: vec)
  case (Cons x xs)
  then obtain v where v: "serialize_value x = Inr v" "serialize_elements (vec @ [v]) xs = Inr vs"
    by auto
  obtain ws where "vs = (vec @ [v]) @ ws" "map to_value xs = map Inr ws" using Cons.IH[OF v(2)] by blast
  then show ?case using v(1) by (intro exI[of _ "v # ws"]) (simp add: to_value_def[abs_def])
qed simp

text \<open>C16. The variants of an enum are written and read consistently. A unit variant is read as its
  name without a payload, a newtype, tuple or struct variant as its name with the value of its
  content, the elements and the fields of a tuple and a struct being those they are written with
  outside an enum. The access method of the form that was written gets exactly this payload; a unit
  variant is an error for the other three methods, a payload for the unit method, a tuple for the
  struct method and a struct for the tuple method. The newtype method takes any payload as a value,
  and what was written as a newtype is taken by the tuple and the struct method exactly when it is
  an array and a document. A value that is neither a string nor a document with one entry, which no
  variant is written as, is an error before the visitor sees it.\<close>

theorem enum_round_trip:
  assumes "\<forall>k. string_de (String k) = Inr k"
  shows "(to_value (Ser_unit_variant n) = Inr v \<longrightarrow>
      deserialize_enum v enum_visitor = enum_visitor (Visit_enum n None) \<and>
      unit_variant None = Inr () \<and>
      newtype_variant_seed seed None = Inl (custom ''expected a newtype variant'') \<and>
      tuple_variant seq_visitor None = Inl (custom ''expected a tuple variant'') \<and>
      struct_variant map_visitor None = Inl (custom ''expected a struct variant'')) \<and>
    (to_value (Ser_newtype_variant n x) = Inr v \<longrightarrow>
      (\<exists>w. to_value x = Inr w \<and> deserialize_enum v enum_visitor = enum_visitor (Visit_enum n (Some w)) \<and>
        newtype_variant_seed seed (Some w) = seed w \<and> value_deserialize string_de w = Inr w \<and>
        unit_variant (Some w) = Inl (custom ''expected a unit variant'') \<and>
        tuple_variant seq_visitor (Some w) = (if \<exists>vs. w = Array vs then seq_visitor (any_call w)
          else Inl (custom ''expected a tuple variant'')) \<and>
        struct_variant map_visitor (Some w) = (if \<exists>d. w = Document d then map_visitor (any_call w)
          else Inl (custom ''expected a struct variant'')))) \<and>
    (to_value (Ser_tuple_variant n xs) = Inr v \<longrightarrow>
      (\<exists>vs. map to_value xs = map Inr vs \<and> to_value (Ser_tuple xs) = Inr (Array vs) \<and>
        deserialize_enum v enum_visitor = enum_visitor (Visit_enum n (Some (Array vs))) \<and>
        tuple_variant seq_visitor (Some (Array vs)) = seq_visitor (Visit_seq vs) \<and>
        newtype_variant_seed seed (Some (Array vs)) = seed (Array vs) \<and>
        unit_variant (Some (Array vs)) = Inl (custom ''expected a unit variant'') \<and>
        struct_variant map_visitor (Some (Array vs)) = Inl (custom ''expected a struct variant''))) \<and>
    (to_value (Ser_struct_variant n fs) = Inr v \<longrightarrow>
      (\<exists>d. entries_ok d \<and> to_value (Ser_struct fs) = Inr (Document d) \<and>
        deserialize_enum v enum_visitor = enum_visitor (Visit_enum n (Some (Document d))) \<and>
        struct_variant map_visitor (Some (Document d)) = map_visitor (Visit_map d) \<and>
        newtype_variant_seed seed (Some (Document d)) = seed (Document d) \<and>
        unit_variant (Some (Document d)) = Inl (custom ''expected a unit variant'') \<and>
        tuple_variant seq_visitor (Some (Document d)) = Inl (custom ''expected a tuple variant''))) \<and>
    ((\<forall>m w. v \<noteq> String m \<and> v \<noteq> Document [(m, w)]) \<longrightarrow>
      (\<exists>msg. deserialize_enum v enum_visitor = Inl (Message msg)))"
proof -
  note access = unit_variant_def newtype_variant_seed_def tuple_variant_def struct_variant_def
    deserialize_enum_def to_value_def doc_new_def
  have read: "value_deserialize string_de w = Inr w" if "to_value x = Inr w" for w
    using serialize_ok(1)[of x w] deserialize_id(1)[OF assms] that by (simp add: to_value_def)
  have "entries_ok d" if "to_value (Ser_struct fs) = Inr (Document d)" for d
    using serialize_ok(1)[of "Ser_struct fs" "Document d"] that by (simp add: to_value_def)
  then have struct: "to_value (Ser_struct_variant n fs) = Inr v \<longrightarrow>
      (\<exists>d. entries_ok d \<and> to_value (Ser_struct fs) = Inr (Document d) \<and> v = Document [(n, Document d)])"
    by (auto simp: access)
  have tuple: "to_value (Ser_tuple_variant n xs) = Inr v \<longrightarrow>
      (\<exists>vs. map to_value xs = map Inr vs \<and> to_value (Ser_tuple xs) = Inr (Array vs) \<and>
        v = Document [(n, Array vs)])"
    using serialize_elements_map[of "[]" xs] by (auto simp: access)
  have newtype: "to_value (Ser_newtype_variant n x) = Inr v \<longrightarrow>
      (\<exists>w. to_value x = Inr w \<and> v = Document [(n, w)])"
    by (auto simp: access)
  have other: "\<exists>msg. deserialize_enum v enum_visitor = Inl (Message msg)"
    if "\<forall>m w. v \<noteq> String m \<and> v \<noteq> Document [(m, w)]"
    using that by (cases v) (auto simp: deserialize_enum_def custom_def split: list.split)
  have unit: "to_value (Ser_unit_variant n) = Inr v \<longrightarrow> v = String n" by (auto simp: to_value_def)
  have compound: "tuple_variant seq_visitor (Some w) = (if \<exists>vs. w = Array vs then seq_visitor (any_call w)
      else Inl (custom ''expected a tuple variant''))"
    "struct_variant map_visitor (Some w) = (if \<exists>d. w = Document d then map_visitor (any_call w)
      else Inl (custom ''expected a struct variant''))" for w
    by (cases w; simp add: tuple_variant_def struct_variant_def)+
  have none: "tuple_variant seq_visitor None = Inl (custom ''expected a tuple variant'')"
    "struct_variant map_visitor None = Inl (custom ''expected a struct variant'')"
    by (simp_all add: tuple_variant_def struct_variant_def)
  show ?thesis
  proof (intro conjI)
    show "(\<forall>m w. v \<noteq> String m \<and> v \<noteq> Document [(m, w)]) \<longrightarrow>
        (\<exists>msg. deserialize_enum v enum_visitor = Inl (Message msg))"
      using other by blast
  qed (use unit struct tuple newtype read in
      \<open>fastforce simp: unit_variant_def newtype_variant_seed_def compound none deserialize_enum_def\<close>)+
qed

text \<open>A tuple variant, read by a visitor that keeps the payload of the call.\<close>

theorem enum_round_trip_witness:
  "\<exists>v. to_value (Ser_tuple_variant (str ''Tuple'') [Ser_int I8 1, Ser_none]) = Inr v \<and>
     deserialize_enum v (\<lambda>call. Inr call) =
       Inr (Visit_enum (str ''Tuple'') (Some (Array [Int64 (I64 1), Null])))"
proof -
  let ?v = "Document [(str ''Tuple'', Array [Int64 (I64 1), Null])]"
  have v: "to_value (Ser_tuple_variant (str ''Tuple'') [Ser_int I8 1, Ser_none]) = Inr ?v"
    "to_value (Ser_tuple [Ser_int I8 1, Ser_none]) = Inr (Array [Int64 (I64 1), Null])"
    by code_simp+
  have "\<forall>k. read_string (String k) = Inr k" by simp
  from enum_round_trip[OF this, of "str ''Tuple''" ?v Inr Inr Inr Inr Ser_none
      "[Ser_int I8 1, Ser_none]" "[]", THEN conjunct2, THEN conjunct2, THEN conjunct1, THEN mp, OF v(1)]
  show ?thesis using v by auto
qed

section \<open>Numbers\<close>

lemma try_int_range: "try_int t v = Inr m \<Longrightarrow> in_int_type t m"
proof (cases v)
  case (String s)
  then show "try_int t v = Inr m \<Longrightarrow> ?thesis"
    by (auto simp: parse_int_def split: option.splits if_splits)
next
  case (Bool b)
  then show "try_int t v = Inr m \<Longrightarrow> ?thesis"
    by (cases t) (auto simp: int_range_defs)
qed (auto split: if_splits)

lemma fits_i64_val:
  assumes "fits_i64 s" "in_int_type s n"
  shows "i64_val (i64_of_int n) = n"
proof -
  have "- (2 ^ 63) \<le> n \<and> n < 2 ^ 63" using assms by (cases s) (auto simp: int_range_defs)
  then show ?thesis by (simp add: i64_val_of_int)
qed

text \<open>C18. Integers convert exactly or are reported: a number of a primitive type becomes a value and
  comes back in every type that holds it, and is an overflow in the others; its decimal text, with
  white space around it, parses in exactly the types that hold it; and whatever a conversion
  returns is in the range of its type.\<close>

theorem integers_convert_exactly:
  assumes "list_all ascii_space p" "list_all ascii_space q"
  shows "(fits_i64 s \<and> in_int_type s n \<longrightarrow>
      try_int t (from_int n) =
        (if in_int_type t n then Inr n else Inl (Overflow (i64_of_int n) (int_name t)))) \<and>
    try_int t (String (p @ int_to_string n @ q)) =
      (if in_int_type t n then Inr n else Inl (Parse (p @ int_to_string n @ q) (int_name t))) \<and>
    (try_int t v = Inr m \<longrightarrow> in_int_type t m)"
  using chars_padded(1)[OF assms, of n] chars_padded(2,3)[OF assms] trim_int_to_string[of "map unat p" "map unat q" n]
    fits_i64_val[of s n] try_int_range[of t v m]
  by (simp add: from_int_def parse_int_to_string)

theorem integers_convert_exactly_witness:
  "try_int U8 (from_int 300) = Inl (Overflow (i64_of_int 300) ''u8'') \<and>
   try_int I16 (String ([32] @ int_to_string (- 300) @ [10])) = Inr (- 300)"
  using integers_convert_exactly[of "[]" "[]" I32 300 U8 Null 0]
    integers_convert_exactly[of "[32]" "[10]" I32 "- 300" I16 Null 0]
  by (simp add: ascii_space_def int_range_defs)

text \<open>C36. A float converts to its integer part as long as that is in the range of \<open>i64\<close>, and is an
  overflow if the target does not hold it. Above that range nothing is reported to a target of 64
  bits or more: the result is the largest \<open>i64\<close>, also for an unsigned or 128-bit target that does
  hold the number. Below it the result is the smallest \<open>i64\<close> in a signed target of 64 bits or more,
  without an error; every other target gets an overflow that names this bound, not the number. A
  target of fewer than 64 bits gets an overflow above the range too. A NaN converts to zero.\<close>

theorem float_conversion_saturates:
  "(f64_is_nan w \<longrightarrow> try_int t (Float64 w) = Inr 0) \<and>
   (\<not> f64_is_nan w \<and> - (2 ^ 63) \<le> f64_trunc w \<and> f64_trunc w < 2 ^ 63 \<longrightarrow>
      try_int t (Float64 w) =
        (if in_int_type t (f64_trunc w) then Inr (f64_trunc w)
         else Inl (Overflow (i64_of_int (f64_trunc w)) (int_name t)))) \<and>
   (\<not> f64_is_nan w \<and> 2 ^ 63 \<le> f64_trunc w \<longrightarrow>
      try_int t (Float64 w) =
        (if 64 \<le> int_width t then Inr (2 ^ 63 - 1)
         else Inl (Overflow (i64_of_int (2 ^ 63 - 1)) (int_name t)))) \<and>
   (\<not> f64_is_nan w \<and> f64_trunc w < - (2 ^ 63) \<longrightarrow>
      try_int t (Float64 w) =
        (if 64 \<le> int_width t \<and> int_signed t then Inr (- (2 ^ 63))
         else Inl (Overflow (i64_of_int (- (2 ^ 63))) (int_name t))))"
proof -
  have "in_int_type t 0" by (cases t) (simp_all add: int_range_defs)
  moreover have "in_int_type t (2 ^ 63 - 1) \<longleftrightarrow> 64 \<le> int_width t"
    by (cases t) (simp_all add: int_range_defs)
  moreover have "in_int_type t (- (2 ^ 63)) \<longleftrightarrow> 64 \<le> int_width t \<and> int_signed t"
    by (cases t) (simp_all add: int_range_defs)
  ultimately show ?thesis by (auto simp: f64_as_i64_def)
qed

text \<open>\<open>1.5e19\<close>, which a \<open>u64\<close> holds.\<close>

theorem float_conversion_saturates_witness:
  "f64_trunc 0x43EA055690D9DB80 = 15000000000000000000 \<and>
   in_int_type U64 15000000000000000000 \<and>
   try_int U64 (Float64 0x43EA055690D9DB80) = Inr 9223372036854775807"
proof -
  have "f64_trunc 0x43EA055690D9DB80 = 15000000000000000000"
    by (simp add: f64_trunc_def f64_scaled_def f64_mag_def f64_sign_unat)
  moreover have "\<not> f64_is_nan 0x43EA055690D9DB80" by (simp add: f64_is_nan_def f64_mag_def)
  ultimately show ?thesis
    using float_conversion_saturates[of "0x43EA055690D9DB80" U64] by (simp add: int_range_defs)
qed

text \<open>C37. A \<open>u64\<close> above the range of \<open>i64\<close> serializes without an error as a negative number, the
  same that a different number serializes as; as a map key it keeps its own decimal text.\<close>

theorem u64_serializes_negative:
  assumes "2 ^ 63 \<le> n" "n < 2 ^ 64"
  shows "to_value (Ser_int U64 n) = Inr (Int64 (i64_of_int (n - 2 ^ 64))) \<and>
    to_value (Ser_int I64_type (n - 2 ^ 64)) = to_value (Ser_int U64 n) \<and>
    i64_val (i64_of_int (n - 2 ^ 64)) = n - 2 ^ 64 \<and> n - 2 ^ 64 < 0 \<and>
    serialize_map_key (Ser_int U64 n) = Inr (int_to_string n)"
proof -
  have "(2 :: u64) ^ 64 = 0" by (simp only: exp_eq_zero_iff) simp
  then have "(word_of_int n :: u64) = word_of_int (n - 2 ^ 64)"
    by (simp only: of_int_diff of_int_power of_int_numeral diff_zero)
  moreover have "i64_val (i64_of_int (n - 2 ^ 64)) = n - 2 ^ 64"
    using assms by (intro i64_val_of_int) simp_all
  ultimately show ?thesis using assms by (simp add: to_value_def i64_of_int_def)
qed

theorem u64_serializes_negative_witness:
  "to_value (Ser_int U64 18446744073709551615) = Inr (Int64 (i64_of_int (- 1)))"
  using u64_serializes_negative[of 18446744073709551615] by simp

text \<open>Widening an \<open>f32\<close> to the \<open>f64\<close> of a value keeps every finite number exactly, also
  a subnormal one: the value times \<open>2 ^ 1074\<close> is the one times \<open>2 ^ 149\<close>,
  rescaled.\<close>

theorem f32_widening_exact:
  assumes "f32_is_finite w"
  shows "\<exists>v. to_value (Ser_f32 w) = Inr (Float64 v) \<and> from_f32 w = Float64 v \<and>
    \<not> f64_is_nan v \<and> f64_num v = f32_num w * 2 ^ 925"
  using f32_to_f64_num[OF assms] by (simp add: to_value_def from_f32_def)

theorem f32_widening_exact_witness:
  "\<exists>v. to_value (Ser_f32 1) = Inr (Float64 v) \<and> f64_num v = 2 ^ 925"
  using f32_widening_exact[of 1] by (auto simp: f32_is_finite_def f32_num_def)

text \<open>C19. Floats convert exactly: the text of an \<open>f64\<close> that is not NaN parses back to the same
  float, infinities, subnormal numbers and the sign of zero included; an \<open>f32\<close> that is not NaN
  comes back from the value it became; an integer of at most 53 bits becomes the float of the same
  number, which converts back to it.\<close>

theorem floats_convert_exactly:
  assumes "\<not> f64_is_nan w" "\<not> f32_is_nan x" "\<bar>i64_val i\<bar> \<le> 2 ^ 53"
  shows "try_f64 (String (value_to_string (Float64 w))) = Inr w \<and>
    try_f64 (Float64 w) = Inr w \<and>
    try_f32 (from_f32 x) = Inr x \<and>
    (\<exists>v. try_f64 (Int64 i) = Inr v \<and> \<not> f64_is_nan v \<and>
      f64_num v = i64_val i * int F64_UNIT \<and> try_int I64_type (Float64 v) = Inr (i64_val i))"
proof -
  have "in_int_type I64_type (i64_val i)"
    using abs_le_D1[OF assms(3)] abs_le_D2[OF assms(3)] by (simp add: int_range_defs)
  then show ?thesis
    using i64_as_f64_exact[OF assms(3)] f64_text[OF assms(1)] f32_cast_back[OF assms(2)]
    by (simp add: from_f32_def Let_def)
qed

theorem floats_convert_exactly_witness:
  "try_f64 (String (value_to_string (Float64 0x3FB999999999999A))) = Inr 0x3FB999999999999A \<and>
   try_f32 (from_f32 0x80000001) = Inr 0x80000001 \<and>
   (\<exists>v. try_f64 (Int64 (I64 7)) = Inr v \<and> f64_num v = 7 * int F64_UNIT)"
proof -
  have "\<not> f64_is_nan 0x3FB999999999999A" by (simp add: f64_is_nan_def f64_mag_def)
  moreover have "\<not> f32_is_nan 0x80000001" by (simp add: f32_is_nan_def)
  moreover have "i64_val (I64 7) = 7" by (simp add: i64_val_def)
  ultimately show ?thesis
    using floats_convert_exactly[of "0x3FB999999999999A" "0x80000001" "I64 7"] by auto
qed

end
