(* ===== verification/Heed.thy ===== *)
theory Heed
  imports Storage_Encoding
begin

text \<open>
  The interface of the \<open>heed3\<close> crate (LMDB) as the storage engine uses it. The crate is not part
  of the repository: a value of type \<open>heed\<close> is an argument of every definition that calls it, its
  error type is the type variable \<open>'e\<close>, and its databases are the opaque types \<open>'d\<close> (one value
  per key) and \<open>'l\<close> (\<open>DUP_SORT\<close>, several values per key). \<open>heed_laws\<close> states the documented
  behaviour of the calls; \<open>heed_live\<close> that calls with legal keys succeed (no I/O error, map not
  full). \<open>log_heed\<close> is a store that satisfies both, for concrete runs.
\<close>

section \<open>The databases of the environment\<close>

record ('d, 'l) dbs =
  indexes_catalog :: 'd
  collections_catalog :: 'd
  collection_ids_by_name :: 'd
  index_edges :: 'd
  index_leaves :: 'l
  documents :: 'd
  metadata_db :: 'd
  vacuum_targets :: 'd

text \<open>An iterator yields results one by one: each is an error or a pair of key and value.\<close>

type_synonym 'e raw = "('e + bytes \<times> bytes) list"

record ('d, 'l, 'e) heed =
  h_get :: "'d \<Rightarrow> bytes \<Rightarrow> 'e + bytes option"
  h_put :: "'d \<Rightarrow> bytes \<Rightarrow> bytes \<Rightarrow> 'e + 'd"
  h_delete :: "'d \<Rightarrow> bytes \<Rightarrow> 'e + 'd"
  h_get_le :: "'d \<Rightarrow> bytes \<Rightarrow> 'e + (bytes \<times> bytes) option"
  h_range :: "'d \<Rightarrow> bytes bound \<Rightarrow> bytes bound \<Rightarrow> 'e + 'e raw"
  h_rev_range :: "'d \<Rightarrow> bytes bound \<Rightarrow> bytes bound \<Rightarrow> 'e + 'e raw"
  h_prefix :: "'d \<Rightarrow> bytes \<Rightarrow> 'e + 'e raw"
  h_rev_prefix :: "'d \<Rightarrow> bytes \<Rightarrow> 'e + 'e raw"
  h_dup_put :: "'l \<Rightarrow> bytes \<Rightarrow> bytes \<Rightarrow> 'e + 'l"
  h_dup_delete :: "'l \<Rightarrow> bytes \<Rightarrow> bytes \<Rightarrow> 'e + 'l"
  h_dup_prefix :: "'l \<Rightarrow> bytes \<Rightarrow> 'e + 'e raw"
  h_dup_rev_prefix :: "'l \<Rightarrow> bytes \<Rightarrow> 'e + 'e raw"
  h_write_txn :: "('d, 'l) dbs \<Rightarrow> 'e + unit"
  h_read_txn :: "('d, 'l) dbs \<Rightarrow> 'e + unit"
  h_commit :: "('d, 'l) dbs \<Rightarrow> 'e + unit"
  h_force_sync :: "('d, 'l) dbs \<Rightarrow> 'e + unit"

section \<open>Documented behaviour\<close>

definition has_prefix :: "bytes \<Rightarrow> bytes \<Rightarrow> bool" where
  "has_prefix p k \<longleftrightarrow> take (length p) k = p"

definition legal_key :: "bytes \<Rightarrow> bool" where
  "legal_key k \<longleftrightarrow> k \<noteq> [] \<and> length k \<le> 511"

fun legal_bound :: "bytes bound \<Rightarrow> bool" where
  "legal_bound (Bound_included k) = (k \<noteq> [])"
| "legal_bound (Bound_excluded k) = (k \<noteq> [])"
| "legal_bound Bound_unbounded = True"

text \<open>
  \<open>it d\<close> is the content of a database in key order, \<open>dit l\<close> that of a \<open>DUP_SORT\<close> database in
  order of keys and, under one key, of values. Reads answer from it, writes that succeed change it.
\<close>

definition heed_laws ::
  "('d, 'l, 'e) heed \<Rightarrow> ('d \<Rightarrow> (bytes \<times> bytes) list) \<Rightarrow> ('l \<Rightarrow> (bytes \<times> bytes) list) \<Rightarrow> bool" where
  "heed_laws H it dit \<longleftrightarrow>
     (\<forall>d. bt_ok (it d)) \<and>
     (\<forall>d k. k \<noteq> [] \<longrightarrow> h_get H d k = Inr (map_of (it d) k)) \<and>
     (\<forall>d k v d'. h_put H d k v = Inr d' \<longrightarrow> map_of (it d') = (map_of (it d))(k \<mapsto> v)) \<and>
     (\<forall>d k d'. h_delete H d k = Inr d' \<longrightarrow> map_of (it d') = (map_of (it d))(k := None)) \<and>
     (\<forall>d k. k \<noteq> [] \<longrightarrow> h_get_le H d k = Inr (find (\<lambda>(k', _). k' \<le> k) (rev (it d)))) \<and>
     (\<forall>d lo hi. legal_bound lo \<longrightarrow> legal_bound hi \<longrightarrow>
        h_range H d lo hi = Inr (map Inr (filter (\<lambda>(k, _). in_range lo hi k) (it d)))) \<and>
     (\<forall>d lo hi. legal_bound lo \<longrightarrow> legal_bound hi \<longrightarrow>
        h_rev_range H d lo hi = Inr (map Inr (rev (filter (\<lambda>(k, _). in_range lo hi k) (it d))))) \<and>
     (\<forall>d p. p \<noteq> [] \<longrightarrow> h_prefix H d p = Inr (map Inr (filter (\<lambda>(k, _). has_prefix p k) (it d)))) \<and>
     (\<forall>d p. p \<noteq> [] \<longrightarrow>
        h_rev_prefix H d p = Inr (map Inr (rev (filter (\<lambda>(k, _). has_prefix p k) (it d))))) \<and>
     (\<forall>l. sorted_wrt (<) (dit l)) \<and>
     (\<forall>l k v l'. h_dup_put H l k v = Inr l' \<longrightarrow> set (dit l') = insert (k, v) (set (dit l))) \<and>
     (\<forall>l k v l'. h_dup_delete H l k v = Inr l' \<longrightarrow> set (dit l') = set (dit l) - {(k, v)}) \<and>
     (\<forall>l p. p \<noteq> [] \<longrightarrow>
        h_dup_prefix H l p = Inr (map Inr (filter (\<lambda>(k, _). has_prefix p k) (dit l)))) \<and>
     (\<forall>l p. p \<noteq> [] \<longrightarrow>
        h_dup_rev_prefix H l p = Inr (map Inr (rev (filter (\<lambda>(k, _). has_prefix p k) (dit l)))))"

definition heed_live :: "('d, 'l, 'e) heed \<Rightarrow> bool" where
  "heed_live H \<longleftrightarrow>
     (\<forall>d k v. legal_key k \<longrightarrow> (\<exists>d'. h_put H d k v = Inr d')) \<and>
     (\<forall>d k. legal_key k \<longrightarrow> (\<exists>d'. h_delete H d k = Inr d')) \<and>
     (\<forall>l k v. legal_key k \<longrightarrow> length v \<le> 511 \<longrightarrow> (\<exists>l'. h_dup_put H l k v = Inr l')) \<and>
     (\<forall>l k v. legal_key k \<longrightarrow> (\<exists>l'. h_dup_delete H l k v = Inr l')) \<and>
     (\<forall>s. h_write_txn H s = Inr ()) \<and> (\<forall>s. h_read_txn H s = Inr ()) \<and>
     (\<forall>s. h_commit H s = Inr ())"

lemma heed_it_ok: "heed_laws H it dit \<Longrightarrow> bt_ok (it d)"
  by (simp add: heed_laws_def)

lemma heed_get: "heed_laws H it dit \<Longrightarrow> k \<noteq> [] \<Longrightarrow> h_get H d k = Inr (map_of (it d) k)"
  by (simp add: heed_laws_def)

lemma heed_put:
  "heed_laws H it dit \<Longrightarrow> h_put H d k v = Inr d' \<Longrightarrow> map_of (it d') = (map_of (it d))(k \<mapsto> v)"
  by (simp add: heed_laws_def)

lemma heed_delete:
  "heed_laws H it dit \<Longrightarrow> h_delete H d k = Inr d' \<Longrightarrow> map_of (it d') = (map_of (it d))(k := None)"
  by (simp add: heed_laws_def)

lemma heed_get_le:
  "heed_laws H it dit \<Longrightarrow> k \<noteq> [] \<Longrightarrow>
   h_get_le H d k = Inr (find (\<lambda>(k', _). k' \<le> k) (rev (it d)))"
  by (simp add: heed_laws_def)

lemma heed_range:
  "heed_laws H it dit \<Longrightarrow> legal_bound lo \<Longrightarrow> legal_bound hi \<Longrightarrow>
   h_range H d lo hi = Inr (map Inr (filter (\<lambda>(k, _). in_range lo hi k) (it d)))"
  by (simp add: heed_laws_def)

lemma heed_rev_range:
  "heed_laws H it dit \<Longrightarrow> legal_bound lo \<Longrightarrow> legal_bound hi \<Longrightarrow>
   h_rev_range H d lo hi = Inr (map Inr (rev (filter (\<lambda>(k, _). in_range lo hi k) (it d))))"
  by (simp add: heed_laws_def)

lemma heed_prefix:
  "heed_laws H it dit \<Longrightarrow> p \<noteq> [] \<Longrightarrow>
   h_prefix H d p = Inr (map Inr (filter (\<lambda>(k, _). has_prefix p k) (it d)))"
  by (simp add: heed_laws_def)

lemma heed_rev_prefix:
  "heed_laws H it dit \<Longrightarrow> p \<noteq> [] \<Longrightarrow>
   h_rev_prefix H d p = Inr (map Inr (rev (filter (\<lambda>(k, _). has_prefix p k) (it d))))"
  by (simp add: heed_laws_def)

lemma heed_dit_sorted: "heed_laws H it dit \<Longrightarrow> sorted_wrt (<) (dit l)"
  by (simp add: heed_laws_def)

lemma heed_dup_put:
  "heed_laws H it dit \<Longrightarrow> h_dup_put H l k v = Inr l' \<Longrightarrow> set (dit l') = insert (k, v) (set (dit l))"
  by (simp add: heed_laws_def)

lemma heed_dup_delete:
  "heed_laws H it dit \<Longrightarrow> h_dup_delete H l k v = Inr l' \<Longrightarrow> set (dit l') = set (dit l) - {(k, v)}"
  by (simp add: heed_laws_def)

lemma heed_dup_prefix:
  "heed_laws H it dit \<Longrightarrow> p \<noteq> [] \<Longrightarrow>
   h_dup_prefix H l p = Inr (map Inr (filter (\<lambda>(k, _). has_prefix p k) (dit l)))"
  by (simp add: heed_laws_def)

lemma heed_dup_rev_prefix:
  "heed_laws H it dit \<Longrightarrow> p \<noteq> [] \<Longrightarrow>
   h_dup_rev_prefix H l p = Inr (map Inr (rev (filter (\<lambda>(k, _). has_prefix p k) (dit l))))"
  by (simp add: heed_laws_def)

section \<open>The entry at or below a key\<close>

text \<open>\<open>get_lower_than_or_equal_to\<close> finds the entry with the greatest key that is not above.\<close>

lemma find_rev_le_Some:
  assumes "bt_ok t"
  shows "find (\<lambda>(k', _). k' \<le> k) (rev t) = Some (k', v) \<longleftrightarrow>
    map_of t k' = Some v \<and> k' \<le> k \<and> (\<forall>k''. map_of t k'' \<noteq> None \<and> k'' \<le> k \<longrightarrow> k'' \<le> k')"
  using assms
proof (induction t rule: rev_induct)
  case (snoc p t)
  obtain a b where p: "p = (a, b)" by force
  have ok: "bt_ok t" and last: "\<forall>x \<in> fst ` set t. x < a"
    using snoc.prems p by (auto simp: bt_ok_def sorted_wrt_append)
  then have na: "map_of t a = None" by (force simp: map_of_eq_None_iff)
  have below: "map_of t x \<noteq> None \<Longrightarrow> x < a" for x
    using last unfolding map_of_eq_None_iff by blast
  show ?case
  proof (cases "a \<le> k")
    case True
    have "map_of (t @ [p]) k' = Some v \<and> k' \<le> k \<and>
        (\<forall>k''. map_of (t @ [p]) k'' \<noteq> None \<and> k'' \<le> k \<longrightarrow> k'' \<le> k') \<longleftrightarrow> k' = a \<and> v = b"
    proof
      assume *: "map_of (t @ [p]) k' = Some v \<and> k' \<le> k \<and>
        (\<forall>k''. map_of (t @ [p]) k'' \<noteq> None \<and> k'' \<le> k \<longrightarrow> k'' \<le> k')"
      then have "a \<le> k'" using True p na by (auto simp: map_add_def split: option.splits)
      then have "map_of t k' = None" using below[of k'] by (meson not_less)
      then show "k' = a \<and> v = b" using * p by (auto simp: map_add_def split: if_splits)
    next
      assume "k' = a \<and> v = b"
      then show "map_of (t @ [p]) k' = Some v \<and> k' \<le> k \<and>
        (\<forall>k''. map_of (t @ [p]) k'' \<noteq> None \<and> k'' \<le> k \<longrightarrow> k'' \<le> k')"
        using True p na below less_imp_le
        by (auto simp: map_add_def split: if_splits option.splits)
    qed
    then show ?thesis using True p by auto
  next
    case False
    then have same: "map_of (t @ [p]) x = map_of t x" if "x \<le> k" for x
      using that p by (auto simp: map_add_def split: option.splits)
    have "(map_of (t @ [p]) k' = Some v \<and> k' \<le> k \<and>
        (\<forall>k''. map_of (t @ [p]) k'' \<noteq> None \<and> k'' \<le> k \<longrightarrow> k'' \<le> k')) =
      (map_of t k' = Some v \<and> k' \<le> k \<and> (\<forall>k''. map_of t k'' \<noteq> None \<and> k'' \<le> k \<longrightarrow> k'' \<le> k'))"
      using same by metis
    then show ?thesis using False p snoc.IH[OF ok] by simp
  qed
qed simp

lemma find_rev_le_None:
  "find (\<lambda>(k', _). k' \<le> k) (rev t) = None \<longleftrightarrow> (\<forall>k'. map_of t k' \<noteq> None \<longrightarrow> \<not> k' \<le> k)"
  by (auto simp: find_None_iff map_of_eq_None_iff)

section \<open>A store that obeys the laws\<close>

text \<open>
  A database is the log of the writes made to it, newest first; its content is what they leave.
  Keys LMDB refuses (empty, or longer than 511 bytes) are refused with \<open>Bad_val_size\<close>.
\<close>

datatype log_error = Bad_val_size

type_synonym log_db = "(bytes \<times> bytes option) list"
type_synonym log_dup_db = "(bool \<times> bytes \<times> bytes) list"

fun log_items :: "log_db \<Rightarrow> (bytes \<times> bytes) list" where
  "log_items [] = []"
| "log_items ((k, Some v) # d) = bt_insert k v (log_items d)"
| "log_items ((k, None) # d) = bt_delete k (log_items d)"

fun log_pairs :: "log_dup_db \<Rightarrow> ((bytes \<times> bytes) \<times> unit) list" where
  "log_pairs [] = []"
| "log_pairs ((True, p) # l) = bt_insert p () (log_pairs l)"
| "log_pairs ((False, p) # l) = bt_delete p (log_pairs l)"

definition log_dup_items :: "log_dup_db \<Rightarrow> (bytes \<times> bytes) list" where
  "log_dup_items l = map fst (log_pairs l)"

definition log_heed :: "(log_db, log_dup_db, log_error) heed" where
  "log_heed = \<lparr>
     h_get = (\<lambda>d k. if k = [] then Inl Bad_val_size else Inr (map_of (log_items d) k)),
     h_put = (\<lambda>d k v. if legal_key k then Inr ((k, Some v) # d) else Inl Bad_val_size),
     h_delete = (\<lambda>d k. if legal_key k then Inr ((k, None) # d) else Inl Bad_val_size),
     h_get_le = (\<lambda>d k. if k = [] then Inl Bad_val_size
                else Inr (find (\<lambda>(k', _). k' \<le> k) (rev (log_items d)))),
     h_range = (\<lambda>d lo hi. Inr (map Inr (filter (\<lambda>(k, _). in_range lo hi k) (log_items d)))),
     h_rev_range = (\<lambda>d lo hi.
       Inr (map Inr (rev (filter (\<lambda>(k, _). in_range lo hi k) (log_items d))))),
     h_prefix = (\<lambda>d p. Inr (map Inr (filter (\<lambda>(k, _). has_prefix p k) (log_items d)))),
     h_rev_prefix = (\<lambda>d p. Inr (map Inr (rev (filter (\<lambda>(k, _). has_prefix p k) (log_items d))))),
     h_dup_put = (\<lambda>l k v. if legal_key k \<and> length v \<le> 511 then Inr ((True, k, v) # l)
                 else Inl Bad_val_size),
     h_dup_delete = (\<lambda>l k v. if legal_key k then Inr ((False, k, v) # l) else Inl Bad_val_size),
     h_dup_prefix = (\<lambda>l p. Inr (map Inr (filter (\<lambda>(k, _). has_prefix p k) (log_dup_items l)))),
     h_dup_rev_prefix = (\<lambda>l p.
       Inr (map Inr (rev (filter (\<lambda>(k, _). has_prefix p k) (log_dup_items l))))),
     h_write_txn = (\<lambda>_. Inr ()), h_read_txn = (\<lambda>_. Inr ()), h_commit = (\<lambda>_. Inr ()),
     h_force_sync = (\<lambda>_. Inr ())\<rparr>"

definition log_dbs :: "(log_db, log_dup_db) dbs" where
  "log_dbs = \<lparr>indexes_catalog = [], collections_catalog = [], collection_ids_by_name = [],
     index_edges = [], index_leaves = [], documents = [], metadata_db = [], vacuum_targets = []\<rparr>"

lemma bt_ok_log_items [simp]: "bt_ok (log_items d)"
  by (induction d rule: log_items.induct) auto

lemma bt_ok_log_pairs [simp]: "bt_ok (log_pairs l)"
  by (induction l rule: log_pairs.induct) auto

lemma bt_delete_keys: "bt_ok t \<Longrightarrow> fst ` set (bt_delete k t) = fst ` set t - {k}"
proof -
  assume ok: "bt_ok t"
  have "dom (map_of (bt_delete k t)) = dom (map_of t) - {k}" using map_of_bt_delete[OF ok] by simp
  then show ?thesis by (simp add: dom_map_of_conv_image_fst)
qed

lemma log_heed_laws: "heed_laws log_heed log_items log_dup_items"
  unfolding heed_laws_def
  by (intro conjI)
     (simp_all add: log_heed_def map_of_bt_delete log_dup_items_def bt_delete_keys
       flip: bt_ok_def split: if_splits)

lemma log_heed_live: "heed_live log_heed"
  by (simp add: heed_live_def log_heed_def)

end
