(* ===== verification/Engine_State.thy ===== *)
theory Engine_State
  imports Heed
begin

text \<open>
  The state of \<open>HeedStorageEngine\<close> (\<open>implementations/heed/datastore.rs\<close>) and the calls its
  operations make inside a write transaction. The databases are the working copy of the open
  write transaction; the timestamps, the id counters and their changed flags are the atomics of
  the engine, which live outside the transaction: an abort restores the databases only.
\<close>

record ('d, 'l) engine =
  e_dbs :: "('d, 'l) dbs"
  e_ts :: TS
  e_visible_ts :: TS
  collection_id_counter :: u64
  collection_id_counter_changed :: bool
  index_id_counter :: u64
  index_id_counter_changed :: bool
  index_chain_id_counter :: u64
  index_chain_id_counter_changed :: bool

type_synonym ('d, 'l, 'e, 'a) engine_act = "(('d, 'l) engine, 'e storage_error, 'a) act"

section \<open>Calls on the databases\<close>

text \<open>\<open>database.get(tx, key)?\<close>, and \<open>put\<close> and \<open>delete\<close> on the database a selector names.\<close>

definition db_get ::
  "('d, 'l, 'e) heed \<Rightarrow> (('d, 'l) dbs \<Rightarrow> 'd) \<Rightarrow> bytes \<Rightarrow> ('d, 'l, 'e, bytes option) engine_act" where
  "db_get H sel k = act_read (\<lambda>e. heed_call (h_get H (sel (e_dbs e)) k))"

definition db_write ::
  "(('d, 'l) dbs \<Rightarrow> 'd) \<Rightarrow> (('d \<Rightarrow> 'd) \<Rightarrow> ('d, 'l) dbs \<Rightarrow> ('d, 'l) dbs) \<Rightarrow> ('d \<Rightarrow> 'e + 'd) \<Rightarrow>
   ('d, 'l, 'e, unit) engine_act" where
  "db_write sel upd f =
     act_update (\<lambda>e. and_then (heed_call (f (sel (e_dbs e)))) (\<lambda>d.
       Inr (e\<lparr>e_dbs := upd (\<lambda>_. d) (e_dbs e)\<rparr>)))"

definition leaves_write ::
  "('l \<Rightarrow> 'e + 'l) \<Rightarrow> ('d, 'l, 'e, unit) engine_act" where
  "leaves_write f =
     act_update (\<lambda>e. and_then (heed_call (f (index_leaves (e_dbs e)))) (\<lambda>l.
       Inr (e\<lparr>e_dbs := (e_dbs e)\<lparr>index_leaves := l\<rparr>\<rparr>)))"

section \<open>Id allocation\<close>

text \<open>\<open>fetch_add(1) + 1\<close>, wrapping, and the flag that has the counter saved with the batch.\<close>

definition allocate_collection_id :: "('d, 'l, 'e, collection_id) engine_act" where
  "allocate_collection_id = (\<lambda>e.
     let id = collection_id_counter e + 1
     in (Inr (I64 id), e\<lparr>collection_id_counter := id, collection_id_counter_changed := True\<rparr>))"

definition allocate_index_id :: "('d, 'l, 'e, index_id) engine_act" where
  "allocate_index_id = (\<lambda>e.
     let id = index_id_counter e + 1
     in (Inr (I64 id), e\<lparr>index_id_counter := id, index_id_counter_changed := True\<rparr>))"

definition allocate_chain_id :: "('d, 'l, 'e, u64) engine_act" where
  "allocate_chain_id = (\<lambda>e.
     let id = index_chain_id_counter e + 1
     in (Inr id, e\<lparr>index_chain_id_counter := id, index_chain_id_counter_changed := True\<rparr>))"

section \<open>Write transactions\<close>

text \<open>
  \<open>env.write_txn()?\<close>, the body, \<open>commit()?\<close>. When the body or the commit fails the transaction is
  dropped: the databases are those before it, the atomics keep what the body stored in them.
\<close>

definition write_txn ::
  "('d, 'l, 'e) heed \<Rightarrow> ('d, 'l, 'e, 'a) engine_act \<Rightarrow> ('d, 'l, 'e, 'a) engine_act" where
  "write_txn H body = (\<lambda>e.
     case heed_call (h_write_txn H (e_dbs e)) of
       Inl x \<Rightarrow> (Inl x, e)
     | Inr _ \<Rightarrow>
         (case body e of
            (Inl x, e') \<Rightarrow> (Inl x, e'\<lparr>e_dbs := e_dbs e\<rparr>)
          | (Inr r, e') \<Rightarrow>
              (case heed_call (h_commit H (e_dbs e')) of
                 Inl x \<Rightarrow> (Inl x, e'\<lparr>e_dbs := e_dbs e\<rparr>)
               | Inr _ \<Rightarrow> (Inr r, e'))))"

lemma write_txn_Inl: "write_txn H body e = (Inl x, e') \<Longrightarrow> e_dbs e' = e_dbs e"
  by (auto simp: write_txn_def split: sum.splits prod.splits)

lemma write_txn_Inr: "write_txn H body e = (Inr r, e') \<Longrightarrow> body e = (Inr r, e')"
  by (auto simp: write_txn_def split: sum.splits prod.splits)

lemma act_bind_Inr:
  "act_bind m f s = (Inr y, s') \<longleftrightarrow> (\<exists>x s1. m s = (Inr x, s1) \<and> f x s1 = (Inr y, s'))"
  by (auto simp: act_bind_def split: prod.splits sum.splits)

lemma act_then_Inr:
  "act_then m k s = (Inr y, s') \<longleftrightarrow> (\<exists>x s1. m s = (Inr x, s1) \<and> k s1 = (Inr y, s'))"
  by (simp add: act_then_def act_bind_Inr)

lemma act_return_Inr: "act_return x s = (Inr y, s') \<longleftrightarrow> y = x \<and> s' = s"
  by (auto simp: act_return_def)

lemma db_get_Inr:
  "db_get H sel k e = (Inr r, e') \<longleftrightarrow> h_get H (sel (e_dbs e)) k = Inr r \<and> e' = e"
  by (auto simp: db_get_def act_read_def)

lemma db_write_Inr:
  "db_write sel upd f e = (Inr u, e') \<longleftrightarrow>
   (\<exists>d. f (sel (e_dbs e)) = Inr d \<and> e' = e\<lparr>e_dbs := upd (\<lambda>_. d) (e_dbs e)\<rparr>)"
  by (auto simp: db_write_def act_update_def split: sum.splits)

lemma leaves_write_Inr:
  "leaves_write f e = (Inr u, e') \<longleftrightarrow>
   (\<exists>l. f (index_leaves (e_dbs e)) = Inr l \<and> e' = e\<lparr>e_dbs := (e_dbs e)\<lparr>index_leaves := l\<rparr>\<rparr>)"
  by (auto simp: leaves_write_def act_update_def split: sum.splits)

lemma act_read_Inr: "act_read f e = (Inr r, e') \<longleftrightarrow> f e = Inr r \<and> e' = e"
  by (auto simp: act_read_def)

lemmas act_Inr = act_bind_Inr act_then_Inr act_return_Inr db_get_Inr db_write_Inr leaves_write_Inr
  act_read_Inr

section \<open>What an action leaves alone\<close>

text \<open>\<open>preserves f m\<close>: whether it returns or fails, \<open>m\<close> does not change \<open>f\<close> of the state.\<close>

definition preserves :: "('s \<Rightarrow> 'x) \<Rightarrow> ('s, 'e, 'a) act \<Rightarrow> bool" where
  "preserves f m \<longleftrightarrow> (\<forall>s. f (snd (m s)) = f s)"

named_theorems frame "what the operations of the engine leave alone"

lemma preserves_eq: "preserves f m \<Longrightarrow> m s = (r, s') \<Longrightarrow> f s' = f s"
  by (metis preserves_def snd_conv)

lemma preserves_return [frame]: "preserves f (act_return x)"
  by (simp add: preserves_def act_return_def)

lemma preserves_fail [frame]: "preserves f (act_fail x)"
  by (simp add: preserves_def act_fail_def)

lemma preserves_read [frame]: "preserves f (act_read g)"
  by (simp add: preserves_def act_read_def)

lemma preserves_modify: "(\<And>s. f (g s) = f s) \<Longrightarrow> preserves f (act_modify g)"
  by (simp add: preserves_def act_modify_def)

lemma preserves_get [frame]: "preserves f (db_get H sel k)"
  by (simp add: db_get_def preserves_read)

lemma preserves_bind [frame]: "preserves f m \<Longrightarrow> (\<And>x. preserves f (k x)) \<Longrightarrow> preserves f (act_bind m k)"
  by (auto simp: preserves_def act_bind_def split: prod.splits sum.splits) (metis snd_conv)+

lemma preserves_then [frame]: "preserves f m \<Longrightarrow> preserves f k \<Longrightarrow> preserves f (act_then m k)"
  by (simp add: act_then_def preserves_bind)

lemma preserves_for [frame]: "(\<And>x. preserves f (g x)) \<Longrightarrow> preserves f (act_for xs g)"
  by (induction xs) (auto intro: frame)

lemma preserves_db_write:
  "(\<And>e d. f (e\<lparr>e_dbs := upd (\<lambda>_. d) (e_dbs e)\<rparr>) = f e) \<Longrightarrow> preserves f (db_write sel upd g)"
  by (auto simp: preserves_def db_write_def act_update_def split: sum.splits)

lemma preserves_leaves_write:
  "(\<And>e l. f (e\<lparr>e_dbs := (e_dbs e)\<lparr>index_leaves := l\<rparr>\<rparr>) = f e) \<Longrightarrow> preserves f (leaves_write g)"
  by (auto simp: preserves_def leaves_write_def act_update_def split: sum.splits)

lemma preserves_option [frame]:
  "preserves f a \<Longrightarrow> (\<And>x. preserves f (b x)) \<Longrightarrow> preserves f (case r of None \<Rightarrow> a | Some x \<Rightarrow> b x)"
  by (simp split: option.splits)

lemma preserves_if [frame]: "preserves f a \<Longrightarrow> preserves f b \<Longrightarrow> preserves f (if c then a else b)"
  by simp

lemma preserves_prod [frame]: "(\<And>x y. preserves f (g x y)) \<Longrightarrow> preserves f (case p of (x, y) \<Rightarrow> g x y)"
  by (simp split: prod.splits)

end
