(* ===== verification/Index_Trie.thy ===== *)
theory Index_Trie
  imports Engine_State
begin

text \<open>
  The index trie of \<open>implementations/heed/datastore.rs\<close>: \<open>index_edges\<close> maps (index, chain,
  495-byte segment) to a child chain, \<open>index_leaves\<close> holds the document ids under (index, chain,
  last segment). \<open>trie_mem\<close> is the abstract content, a set of (index, key, document id);
  \<open>put_index_entry\<close> adds exactly one element and \<open>delete_index_entry\<close> removes exactly one.
\<close>

section \<open>Operations\<close>

definition find_or_create_index_edge ::
  "('d, 'l, 'e) heed \<Rightarrow> index_id \<Rightarrow> u64 \<Rightarrow> bytes \<Rightarrow> ('d, 'l, 'e, u64) engine_act" where
  "find_or_create_index_edge H iid parent segment =
     (let key = encode_index_node_key iid parent segment
      in act_bind (db_get H index_edges key) (\<lambda>r.
           case r of
             Some v \<Rightarrow> act_read (\<lambda>_. decode_u64 v)
           | None \<Rightarrow>
               act_bind allocate_chain_id (\<lambda>child.
               act_then (db_write index_edges index_edges_update (\<lambda>d. h_put H d key (u64_to_be child)))
               (act_return child))))"

text \<open>The chain at the end of a path of segments, edges created on the way.\<close>

fun make_path ::
  "('d, 'l, 'e) heed \<Rightarrow> index_id \<Rightarrow> u64 \<Rightarrow> bytes list \<Rightarrow> ('d, 'l, 'e, u64) engine_act" where
  "make_path H iid chain [] = act_return chain"
| "make_path H iid chain (s # ss) =
     act_bind (find_or_create_index_edge H iid chain s) (\<lambda>c. make_path H iid c ss)"

definition put_index_entry ::
  "('d, 'l, 'e) heed \<Rightarrow> index_id \<Rightarrow> bytes \<Rightarrow> document_id \<Rightarrow> ('d, 'l, 'e, unit) engine_act" where
  "put_index_entry H iid index_key did =
     (let segments = split_index_key index_key
      in act_bind (make_path H iid ROOT_INDEX_CHAIN_ID (butlast segments)) (\<lambda>chain.
         let key = encode_index_node_key iid chain (last segments);
             d = encode_index_document_id did
         in act_then (leaves_write (\<lambda>l. h_dup_delete H l key d))
            (leaves_write (\<lambda>l. h_dup_put H l key d))))"

definition index_node_has_entries ::
  "('d, 'l, 'e) heed \<Rightarrow> index_id \<Rightarrow> u64 \<Rightarrow> ('d, 'l, 'e, bool) engine_act" where
  "index_node_has_entries H iid chain =
     (let prefix = index_node_prefix iid chain
      in act_bind (act_read (\<lambda>e. heed_call (h_dup_prefix H (index_leaves (e_dbs e)) prefix))) (\<lambda>ls.
         if ls \<noteq> [] then act_return True
         else act_bind (act_read (\<lambda>e. heed_call (h_prefix H (index_edges (e_dbs e)) prefix))) (\<lambda>es.
              act_return (es \<noteq> []))))"

record index_path_edge =
  ipe_parent_chain_id :: u64
  ipe_segment :: bytes
  ipe_child_chain_id :: u64

text \<open>The edges along a path, or \<open>None\<close> when one is missing.\<close>

fun find_path ::
  "('d, 'l, 'e) heed \<Rightarrow> index_id \<Rightarrow> u64 \<Rightarrow> bytes list \<Rightarrow>
   ('d, 'l, 'e, (u64 \<times> index_path_edge list) option) engine_act" where
  "find_path H iid chain [] = act_return (Some (chain, []))"
| "find_path H iid chain (s # ss) =
     act_bind (db_get H index_edges (encode_index_node_key iid chain s)) (\<lambda>r.
       case r of
         None \<Rightarrow> act_return None
       | Some v \<Rightarrow>
           act_bind (act_read (\<lambda>_. decode_u64 v)) (\<lambda>child.
           act_bind (find_path H iid child ss) (\<lambda>p.
           act_return (case p of
             None \<Rightarrow> None
           | Some (c, path) \<Rightarrow>
               Some (c, \<lparr>ipe_parent_chain_id = chain, ipe_segment = s, ipe_child_chain_id = child\<rparr> # path)))))"

text \<open>The edges of the reversed path are removed up to the first chain that has entries.\<close>

fun prune_path ::
  "('d, 'l, 'e) heed \<Rightarrow> index_id \<Rightarrow> index_path_edge list \<Rightarrow> ('d, 'l, 'e, unit) engine_act" where
  "prune_path H iid [] = act_return ()"
| "prune_path H iid (edge # path) =
     act_bind (index_node_has_entries H iid (ipe_child_chain_id edge)) (\<lambda>busy.
       if busy then act_return ()
       else act_then (db_write index_edges index_edges_update (\<lambda>d.
              h_delete H d (encode_index_node_key iid (ipe_parent_chain_id edge) (ipe_segment edge))))
            (prune_path H iid path))"

definition delete_index_entry ::
  "('d, 'l, 'e) heed \<Rightarrow> index_id \<Rightarrow> bytes \<Rightarrow> document_id \<Rightarrow> ('d, 'l, 'e, unit) engine_act" where
  "delete_index_entry H iid index_key did =
     (let segments = split_index_key index_key
      in act_bind (find_path H iid ROOT_INDEX_CHAIN_ID (butlast segments)) (\<lambda>p.
         case p of
           None \<Rightarrow> act_return ()
         | Some (chain, path) \<Rightarrow>
             let key = encode_index_node_key iid chain (last segments);
                 d = encode_index_document_id did
             in act_then (leaves_write (\<lambda>l. h_dup_delete H l key d))
                (prune_path H iid (rev path))))"

section \<open>Abstract content\<close>

type_synonym edges = "bytes \<Rightarrow> bytes option"
type_synonym leaves = "(bytes \<times> bytes) set"

fun walk :: "edges \<Rightarrow> index_id \<Rightarrow> u64 \<Rightarrow> bytes list \<Rightarrow> u64 option" where
  "walk E iid n [] = Some n"
| "walk E iid n (s # ss) =
     (case E (encode_index_node_key iid n s) of
        None \<Rightarrow> None | Some v \<Rightarrow> walk E iid (u64_from_be v) ss)"

definition leaf :: "index_id \<Rightarrow> u64 \<Rightarrow> bytes \<Rightarrow> document_id \<Rightarrow> bytes \<times> bytes" where
  "leaf iid n s d = (encode_index_node_key iid n s, encode_index_document_id d)"

definition trie_mem :: "edges \<Rightarrow> leaves \<Rightarrow> index_id \<Rightarrow> bytes \<Rightarrow> document_id \<Rightarrow> bool" where
  "trie_mem E L iid key d =
     (case walk E iid ROOT_INDEX_CHAIN_ID (butlast (split_index_key key)) of
        None \<Rightarrow> False
      | Some n \<Rightarrow> leaf iid n (last (split_index_key key)) d \<in> L)"

definition trie_ok :: "edges \<Rightarrow> leaves \<Rightarrow> u64 \<Rightarrow> bool" where
  "trie_ok E L counter \<longleftrightarrow>
     (\<forall>k v. E k = Some v \<longrightarrow> (\<exists>iid p s c. k = encode_index_node_key iid p s \<and> v = u64_to_be c \<and>
        length s = 495 \<and> p < c \<and> c \<le> counter)) \<and>
     (\<forall>k k' v. E k = Some v \<longrightarrow> E k' = Some v \<longrightarrow> k = k') \<and>
     (\<forall>x \<in> L. \<exists>iid n s d. x = leaf iid n s d \<and> n \<le> counter \<and> length s \<le> 495 \<and> (s = [] \<longrightarrow> n = 0))"

lemma leaf_inject [simp]:
  "leaf iid n s d = leaf iid' n' s' d' \<longleftrightarrow> iid = iid' \<and> n = n' \<and> s = s' \<and> d = d'"
  by (simp add: leaf_def encode_index_document_id_def)

lemma trie_edge:
  assumes "trie_ok E L counter" "E (encode_index_node_key iid p s) = Some v"
  obtains c where "v = u64_to_be c" "length s = 495" "p < c" "c \<le> counter"
proof -
  have "\<forall>k v. E k = Some v \<longrightarrow> (\<exists>iid p s c. k = encode_index_node_key iid p s \<and> v = u64_to_be c \<and>
      length s = 495 \<and> p < c \<and> c \<le> counter)"
    using assms(1) unfolding trie_ok_def by (rule conjunct1)
  then obtain iid' p' s' c where "encode_index_node_key iid p s = encode_index_node_key iid' p' s'"
    "v = u64_to_be c" "length s' = 495" "p' < c" "c \<le> counter" using assms(2) by blast
  then show thesis using that by simp
qed

lemma trie_edge_unique: "trie_ok E L counter \<Longrightarrow> E k = Some v \<Longrightarrow> E k' = Some v \<Longrightarrow> k = k'"
  by (simp add: trie_ok_def)

lemma trie_leaf:
  assumes "trie_ok E L counter" "leaf iid n s d \<in> L"
  shows "n \<le> counter \<and> length s \<le> 495 \<and> (s = [] \<longrightarrow> n = 0)"
proof -
  have "\<forall>x \<in> L. \<exists>iid n s d. x = leaf iid n s d \<and> n \<le> counter \<and> length s \<le> 495 \<and> (s = [] \<longrightarrow> n = 0)"
    using assms(1) unfolding trie_ok_def by blast
  then obtain iid' n' s' d' where "leaf iid n s d = leaf iid' n' s' d'"
    "n' \<le> counter" "length s' \<le> 495" "s' = [] \<longrightarrow> n' = 0" using assms(2) by blast
  then show ?thesis by simp
qed

lemma walk_append:
  "walk E iid n (ss @ ts) = (case walk E iid n ss of None \<Rightarrow> None | Some m \<Rightarrow> walk E iid m ts)"
  by (induction E iid n ss rule: walk.induct) (auto split: option.splits)

lemma walk_last:
  assumes "trie_ok E L counter" "walk E iid n (ss @ [s]) = Some c"
  obtains p where "walk E iid n ss = Some p" "E (encode_index_node_key iid p s) = Some (u64_to_be c)"
    "p < c" "c \<le> counter"
proof -
  obtain p v where p: "walk E iid n ss = Some p" "E (encode_index_node_key iid p s) = Some v"
    "u64_from_be v = c" using assms(2) by (auto simp: walk_append split: option.splits)
  obtain c' where c': "v = u64_to_be c'" "length s = 495" "p < c'" "c' \<le> counter"
    by (rule trie_edge[OF assms(1) p(2)])
  then have "c' = c" using p(3) by simp
  then show thesis using that p c' by simp
qed

text \<open>Two paths from the root that end in the same chain are the same path.\<close>

lemma walk_inject:
  assumes "trie_ok E L counter"
  shows "walk E iid 0 ss = Some n \<Longrightarrow> walk E iid' 0 ts = Some n \<Longrightarrow> n \<noteq> 0 \<or> iid = iid' \<Longrightarrow>
    iid = iid' \<and> ss = ts"
proof (induction ss arbitrary: ts n rule: rev_induct)
  case Nil
  then have n: "n = 0" by simp
  show ?case
  proof (cases ts rule: rev_cases)
    case Nil
    then show ?thesis using Nil n \<open>n \<noteq> 0 \<or> iid = iid'\<close> by simp
  next
    case (snoc ts' t)
    from Nil.prems(2) have "walk E iid' 0 (ts' @ [t]) = Some 0" using n snoc by simp
    then show ?thesis by (rule walk_last[OF assms]) simp
  qed
next
  case (snoc s ss)
  obtain p where p: "walk E iid 0 ss = Some p" "E (encode_index_node_key iid p s) = Some (u64_to_be n)"
    "p < n" by (rule walk_last[OF assms snoc.prems(1)])
  show ?case
  proof (cases ts rule: rev_cases)
    case Nil
    then show ?thesis using snoc.prems(2) p(3) by simp
  next
    case (snoc ts' t)
    with snoc.prems(2) have "walk E iid' 0 (ts' @ [t]) = Some n" by simp
    then obtain q where q: "walk E iid' 0 ts' = Some q"
      "E (encode_index_node_key iid' q t) = Some (u64_to_be n)" by (rule walk_last[OF assms])
    then have e: "encode_index_node_key iid p s = encode_index_node_key iid' q t"
      using trie_edge_unique[OF assms p(2)] by blast
    then show ?thesis using snoc.IH[OF p(1), of ts'] q(1) snoc by simp
  qed
qed

lemma walk_le: "trie_ok E L counter \<Longrightarrow> walk E iid 0 ss = Some n \<Longrightarrow> n \<le> counter"
  by (cases ss rule: rev_cases) (auto elim: walk_last)

section \<open>Adding an edge to a fresh chain, removing an edge to an empty chain\<close>

definition empty_chain :: "edges \<Rightarrow> leaves \<Rightarrow> u64 \<Rightarrow> index_id \<Rightarrow> bool" where
  "empty_chain E L c iid \<longleftrightarrow>
     (\<forall>s. E (encode_index_node_key iid c s) = None) \<and> (\<forall>s d. leaf iid c s d \<notin> L)"

lemma walk_upd:
  assumes "E (encode_index_node_key iid p s) = None" "p \<noteq> c"
    and "\<And>s. E (encode_index_node_key iid c s) = None"
    and E': "E' = E(encode_index_node_key iid p s \<mapsto> u64_to_be c)"
  shows "walk E' iid' n ss =
    (case walk E iid' n ss of
       Some m \<Rightarrow> Some m
     | None \<Rightarrow> if iid' = iid \<and> (\<exists>ts. ss = ts @ [s] \<and> walk E iid n ts = Some p) then Some c else None)"
proof (induction ss arbitrary: n)
  case (Cons a ss)
  have at: "E' (encode_index_node_key iid p s) = Some (u64_to_be c)" by (simp add: E')
  have off: "E' (encode_index_node_key i q t) = E (encode_index_node_key i q t)"
    if "\<not> (i = iid \<and> q = p \<and> t = s)" for i q t using that by (auto simp: E')
  have stuck: "walk E' iid c ss = (if ss = [] then Some c else None)"
    using assms(2,3) off by (cases ss) auto
  show ?case
  proof (cases "iid' = iid \<and> n = p \<and> a = s")
    case True
    have "(\<exists>ts. a # ss = ts @ [s] \<and> walk E iid n ts = Some p) \<longleftrightarrow> ss = []"
    proof
      assume "\<exists>ts. a # ss = ts @ [s] \<and> walk E iid n ts = Some p"
      then obtain ts where "a # ss = ts @ [s]" "walk E iid n ts = Some p" by blast
      then show "ss = []" using True assms(1) by (cases ts) auto
    next
      assume "ss = []"
      then show "\<exists>ts. a # ss = ts @ [s] \<and> walk E iid n ts = Some p"
        using True by (intro exI[of _ "[]"]) simp
    qed
    moreover have "walk E iid' n (a # ss) = None" using True assms(1) by simp
    moreover have "walk E' iid' n (a # ss) = walk E' iid c ss" using True at by simp
    ultimately show ?thesis using True stuck by simp
  next
    case False
    have "(\<exists>ts. a # ss = ts @ [s] \<and> walk E iid n ts = Some p) \<longleftrightarrow>
        (\<exists>ts v. ss = ts @ [s] \<and> E (encode_index_node_key iid n a) = Some v \<and>
          walk E iid (u64_from_be v) ts = Some p)" if "iid' = iid"
    proof
      assume "\<exists>ts. a # ss = ts @ [s] \<and> walk E iid n ts = Some p"
      then obtain ts where "a # ss = ts @ [s]" "walk E iid n ts = Some p" by blast
      then show "\<exists>ts v. ss = ts @ [s] \<and> E (encode_index_node_key iid n a) = Some v \<and>
          walk E iid (u64_from_be v) ts = Some p"
        using that False by (cases ts) (auto split: option.splits)
    next
      assume "\<exists>ts v. ss = ts @ [s] \<and> E (encode_index_node_key iid n a) = Some v \<and>
          walk E iid (u64_from_be v) ts = Some p"
      then obtain ts v where "ss = ts @ [s]" "E (encode_index_node_key iid n a) = Some v"
        "walk E iid (u64_from_be v) ts = Some p" by blast
      then show "\<exists>ts. a # ss = ts @ [s] \<and> walk E iid n ts = Some p"
        by (intro exI[of _ "a # ts"]) simp
    qed
    then show ?thesis using off[of iid' n a] False Cons.IH
      by (cases "E (encode_index_node_key iid' n a)") (auto split: option.splits)
  qed
qed simp

lemma trie_mem_add_edge:
  assumes "E (encode_index_node_key iid p s) = None" "p \<noteq> c" "empty_chain E L c iid"
  shows "trie_mem (E(encode_index_node_key iid p s \<mapsto> u64_to_be c)) L = trie_mem E L"
proof (intro ext)
  fix iid' key d
  have "walk (E(encode_index_node_key iid p s \<mapsto> u64_to_be c)) iid' n ss =
    (case walk E iid' n ss of
       Some m \<Rightarrow> Some m
     | None \<Rightarrow> if iid' = iid \<and> (\<exists>ts. ss = ts @ [s] \<and> walk E iid n ts = Some p) then Some c else None)"
    for n ss using assms by (intro walk_upd) (auto simp: empty_chain_def)
  then show "trie_mem (E(encode_index_node_key iid p s \<mapsto> u64_to_be c)) L iid' key d = trie_mem E L iid' key d"
    using assms(3) by (auto simp: trie_mem_def empty_chain_def split: option.splits)
qed

lemma trie_mem_remove_edge:
  assumes "trie_ok E L counter" "E (encode_index_node_key iid p s) = Some (u64_to_be c)"
    and "empty_chain E L c iid"
  shows "trie_mem (E(encode_index_node_key iid p s := None)) L = trie_mem E L"
proof -
  let ?k = "encode_index_node_key iid p s"
  have "p < c" by (rule trie_edge[OF assms(1,2)]) simp
  then have "trie_mem ((E(?k := None))(?k \<mapsto> u64_to_be c)) L = trie_mem (E(?k := None)) L"
    using assms(3) by (intro trie_mem_add_edge) (auto simp: empty_chain_def)
  moreover have "(E(?k := None))(?k \<mapsto> u64_to_be c) = E" using assms(2) by auto
  ultimately show ?thesis by simp
qed

lemma u64_succ: "c + 1 \<noteq> 0 \<Longrightarrow> x \<le> c \<Longrightarrow> x < c + 1 \<and> unat (c + 1) = unat c + 1" for x c :: u64
proof -
  assume a: "c + 1 \<noteq> 0" "x \<le> c"
  then have "unat (c + 1) = unat c + 1" using unatSuc[of c] by (simp add: add.commute)
  then show ?thesis using a(2) by (simp add: word_less_nat_alt word_le_nat_alt)
qed

lemma empty_chain_fresh:
  assumes "trie_ok E L counter" "counter + 1 \<noteq> 0"
  shows "empty_chain E L (counter + 1) iid"
proof -
  have lt: "counter < counter + 1" using u64_succ[OF assms(2)] by simp
  have "E (encode_index_node_key iid (counter + 1) s) = None" for s
  proof (rule ccontr)
    assume "E (encode_index_node_key iid (counter + 1) s) \<noteq> None"
    then obtain v where "E (encode_index_node_key iid (counter + 1) s) = Some v" by blast
    from trie_edge[OF assms(1) this] show False using lt by (metis less_le_not_le less_trans not_less)
  qed
  moreover have "leaf iid (counter + 1) s d \<notin> L" for s d
    using trie_leaf[OF assms(1), of iid "counter + 1" s d] lt by auto
  ultimately show ?thesis by (simp add: empty_chain_def)
qed

lemma trie_ok_add_edge:
  assumes "trie_ok E L counter" "counter + 1 \<noteq> 0" "p \<le> counter" "length s = 495"
  shows "trie_ok (E(encode_index_node_key iid p s \<mapsto> u64_to_be (counter + 1))) L (counter + 1)"
proof -
  note suc = u64_succ[OF assms(2)]
  have old: "\<exists>iid p s c. k = encode_index_node_key iid p s \<and> v = u64_to_be c \<and> length s = 495 \<and>
      p < c \<and> c \<le> counter" if "E k = Some v" for k v
    using assms(1) that unfolding trie_ok_def by blast
  have new: "E k \<noteq> Some (u64_to_be (counter + 1))" for k
    using old[of k "u64_to_be (counter + 1)"] suc[of counter] by auto
  have leaves: "\<forall>x \<in> L. \<exists>iid n s d. x = leaf iid n s d \<and> n \<le> counter + 1 \<and> length s \<le> 495 \<and> (s = [] \<longrightarrow> n = 0)"
    using assms(1) suc less_imp_le unfolding trie_ok_def by fast
  show ?thesis
    unfolding trie_ok_def
  proof (intro conjI allI impI leaves)
    fix k v assume "(E(encode_index_node_key iid p s \<mapsto> u64_to_be (counter + 1))) k = Some v"
    then show "\<exists>iid p s c. k = encode_index_node_key iid p s \<and> v = u64_to_be c \<and> length s = 495 \<and>
      p < c \<and> c \<le> counter + 1"
    proof (cases "k = encode_index_node_key iid p s")
      case True
      then have "v = u64_to_be (counter + 1)"
        using \<open>(E(encode_index_node_key iid p s \<mapsto> u64_to_be (counter + 1))) k = Some v\<close> by simp
      then show ?thesis using True suc[OF assms(3)] assms(4) by blast
    next
      case False
      then have "E k = Some v"
        using \<open>(E(encode_index_node_key iid p s \<mapsto> u64_to_be (counter + 1))) k = Some v\<close> by simp
      then show ?thesis using old suc less_imp_le by blast
    qed
  next
    fix k k' v
    assume "(E(encode_index_node_key iid p s \<mapsto> u64_to_be (counter + 1))) k = Some v"
      "(E(encode_index_node_key iid p s \<mapsto> u64_to_be (counter + 1))) k' = Some v"
    then show "k = k'" using new trie_edge_unique[OF assms(1)]
      by (auto split: if_splits)
  qed
qed

lemma trie_ok_subset: "trie_ok E L counter \<Longrightarrow> E' \<subseteq>\<^sub>m E \<Longrightarrow> L' \<subseteq> L \<Longrightarrow> trie_ok E' L' counter"
  unfolding trie_ok_def map_le_def dom_def by (auto 0 4)

section \<open>Adding and removing a leaf\<close>

text \<open>The leaf of a key determines the key: its chain determines the path, the path the key.\<close>

lemma same_leaf:
  assumes "trie_ok E L counter" "walk E iid 0 (butlast (split_index_key key)) = Some n"
    and "walk E iid' 0 (butlast (split_index_key key')) = Some n'"
  shows "leaf iid n (last (split_index_key key)) d = leaf iid' n' (last (split_index_key key')) d' \<longleftrightarrow>
    iid = iid' \<and> key = key' \<and> d = d'"
proof
  assume "leaf iid n (last (split_index_key key)) d = leaf iid' n' (last (split_index_key key')) d'"
  then have *: "iid = iid'" "n = n'" "last (split_index_key key) = last (split_index_key key')" "d = d'"
    by simp_all
  with walk_inject[OF assms(1)] assms(2,3)
  have "butlast (split_index_key key) = butlast (split_index_key key')" by blast
  then have "split_index_key key = split_index_key key'"
    using *(3) by (metis append_butlast_last_id split_index_key_ne)
  then have "key = key'" by (metis concat_split_index_key)
  then show "iid = iid' \<and> key = key' \<and> d = d'" using * by simp
qed (use assms in simp)

lemma trie_mem_insert_leaf:
  assumes "trie_ok E L counter" "walk E iid 0 (butlast (split_index_key key)) = Some n"
  shows "trie_mem E (insert (leaf iid n (last (split_index_key key)) d) L) iid' key' d' \<longleftrightarrow>
    (iid', key', d') = (iid, key, d) \<or> trie_mem E L iid' key' d'"
  using same_leaf[OF assms, of iid' key' _ d d'] assms(2)
  by (cases "walk E iid' 0 (butlast (split_index_key key'))")
     (auto simp: trie_mem_def ROOT_INDEX_CHAIN_ID_def)

lemma trie_mem_remove_leaf:
  assumes "trie_ok E L counter" "walk E iid 0 (butlast (split_index_key key)) = Some n"
  shows "trie_mem E (L - {leaf iid n (last (split_index_key key)) d}) iid' key' d' \<longleftrightarrow>
    (iid', key', d') \<noteq> (iid, key, d) \<and> trie_mem E L iid' key' d'"
  using same_leaf[OF assms, of iid' key' _ d d'] assms(2)
  by (cases "walk E iid' 0 (butlast (split_index_key key'))")
     (auto simp: trie_mem_def ROOT_INDEX_CHAIN_ID_def)

lemma split_segments:
  "s \<in> set (butlast (split_index_key key)) \<Longrightarrow> length s = 495"
  "length (last (split_index_key key)) \<le> 495"
  "last (split_index_key key) = [] \<Longrightarrow> split_index_key key = [[]]"
proof -
  show "s \<in> set (butlast (split_index_key key)) \<Longrightarrow> length s = 495"
    using well_split_split[of key] by (auto simp: well_split_def)
  show "length (last (split_index_key key)) \<le> 495"
    by (rule length_split_segment[of _ key]) simp
  show "last (split_index_key key) = [] \<Longrightarrow> split_index_key key = [[]]"
    using last_split_index_key[of key] by (cases "key = []") (auto simp: split_index_key_def)
qed

lemma trie_ok_insert_leaf:
  assumes ok: "trie_ok E L counter" and w: "walk E iid 0 (butlast (split_index_key key)) = Some n"
  shows "trie_ok E (insert (leaf iid n (last (split_index_key key)) d) L) counter"
proof -
  have "last (split_index_key key) = [] \<longrightarrow> n = 0" using w split_segments(3)[of key] by auto
  moreover have "n \<le> counter" by (rule walk_le[OF ok w])
  ultimately have "\<exists>iid' n' s d'. leaf iid n (last (split_index_key key)) d = leaf iid' n' s d' \<and>
      n' \<le> counter \<and> length s \<le> 495 \<and> (s = [] \<longrightarrow> n' = 0)"
    using split_segments(2)[of key] by blast
  then show ?thesis using ok unfolding trie_ok_def by blast
qed

section \<open>The operations on the engine\<close>

text \<open>
  \<open>index_ok\<close> is the invariant of the trie in an engine state, \<open>index_mem\<close> its content. The first
  parameters are the contents of the LMDB databases.
\<close>

definition edges_of :: "('d \<Rightarrow> (bytes \<times> bytes) list) \<Rightarrow> ('d, 'l) engine \<Rightarrow> edges" where
  "edges_of it e = map_of (it (index_edges (e_dbs e)))"

definition leaves_of :: "('l \<Rightarrow> (bytes \<times> bytes) list) \<Rightarrow> ('d, 'l) engine \<Rightarrow> leaves" where
  "leaves_of dit e = set (dit (index_leaves (e_dbs e)))"

definition index_ok ::
  "('d \<Rightarrow> (bytes \<times> bytes) list) \<Rightarrow> ('l \<Rightarrow> (bytes \<times> bytes) list) \<Rightarrow> ('d, 'l) engine \<Rightarrow> bool" where
  "index_ok it dit e \<longleftrightarrow> trie_ok (edges_of it e) (leaves_of dit e) (index_chain_id_counter e)"

definition index_mem ::
  "('d \<Rightarrow> (bytes \<times> bytes) list) \<Rightarrow> ('l \<Rightarrow> (bytes \<times> bytes) list) \<Rightarrow> ('d, 'l) engine \<Rightarrow>
   index_id \<Rightarrow> bytes \<Rightarrow> document_id \<Rightarrow> bool" where
  "index_mem it dit e = trie_mem (edges_of it e) (leaves_of dit e)"

text \<open>Chain ids left before the 64-bit counter wraps.\<close>

definition chain_room :: "('d, 'l) engine \<Rightarrow> nat \<Rightarrow> bool" where
  "chain_room e n \<longleftrightarrow> unat (index_chain_id_counter e) + n < 2 ^ 64"

lemma chain_room_succ:
  "chain_room e (Suc n) \<Longrightarrow>
   index_chain_id_counter e + 1 \<noteq> 0 \<and> unat (index_chain_id_counter e + 1) + n < 2 ^ 64"
proof -
  assume r: "chain_room e (Suc n)"
  have "unat (index_chain_id_counter e + 1) = unat (index_chain_id_counter e) + 1"
    using r by (simp add: chain_room_def unat_word_ariths)
  then show ?thesis using r by (auto simp: chain_room_def)
qed

lemma walk_mono: "E \<subseteq>\<^sub>m E' \<Longrightarrow> walk E iid n ss = Some m \<Longrightarrow> walk E' iid n ss = Some m"
proof (induction E iid n ss rule: walk.induct)
  case (2 E iid n s ss)
  then obtain v where v: "E (encode_index_node_key iid n s) = Some v" "walk E iid (u64_from_be v) ss = Some m"
    by (auto split: option.splits)
  moreover have "E' (encode_index_node_key iid n s) = Some v"
    using v(1) 2(2) by (metis domI map_le_def)
  ultimately show ?case using 2(1)[OF v(1) 2(2)] by simp
qed simp

lemma find_or_create_spec:
  assumes H: "heed_laws H it dit" and run: "find_or_create_index_edge H iid p s e = (Inr c, e')"
    and ok: "index_ok it dit e" "p \<le> index_chain_id_counter e" "length s = 495" "chain_room e (Suc n)"
  shows "index_ok it dit e' \<and> c \<le> index_chain_id_counter e' \<and> chain_room e' n \<and>
    edges_of it e' (encode_index_node_key iid p s) = Some (u64_to_be c) \<and>
    edges_of it e \<subseteq>\<^sub>m edges_of it e' \<and> index_mem it dit e' = index_mem it dit e"
proof -
  let ?k = "encode_index_node_key iid p s" and ?cnt = "index_chain_id_counter e"
  have get: "h_get H (index_edges (e_dbs e)) ?k = Inr (edges_of it e ?k)"
    using heed_get[OF H, of ?k] by (simp add: edges_of_def)
  have ok': "trie_ok (edges_of it e) (leaves_of dit e) ?cnt" using ok(1) by (simp add: index_ok_def)
  show ?thesis
  proof (cases "edges_of it e ?k")
    case (Some v)
    obtain c' where c': "v = u64_to_be c'" "c' \<le> ?cnt" by (rule trie_edge[OF ok' Some])
    have "e' = e" "c = c'" using run get Some c'(1)
      by (auto simp: find_or_create_index_edge_def act_Inr Let_def)
    then show ?thesis using Some c' ok by (auto simp: chain_room_def)
  next
    case None
    then obtain d where d: "h_put H (index_edges (e_dbs e)) ?k (u64_to_be (?cnt + 1)) = Inr d"
      and e': "e' = e\<lparr>index_chain_id_counter := ?cnt + 1, index_chain_id_counter_changed := True,
         e_dbs := (e_dbs e)\<lparr>index_edges := d\<rparr>\<rparr>" and c: "c = ?cnt + 1"
      using run get by (auto simp: find_or_create_index_edge_def act_Inr allocate_chain_id_def Let_def)
    have E': "edges_of it e' = (edges_of it e)(?k \<mapsto> u64_to_be (?cnt + 1))"
      and L': "leaves_of dit e' = leaves_of dit e"
      using heed_put[OF H d] by (simp_all add: e' edges_of_def leaves_of_def)
    note room = chain_room_succ[OF ok(4)]
    have "p \<noteq> ?cnt + 1" using u64_succ[OF conjunct1[OF room] ok(2)] by auto
    then have "index_mem it dit e' = index_mem it dit e"
      unfolding index_mem_def E' L'
      by (intro trie_mem_add_edge None empty_chain_fresh[OF ok' conjunct1[OF room]])
    moreover have "index_ok it dit e'"
      using trie_ok_add_edge[OF ok' conjunct1[OF room] ok(2,3)] by (simp add: index_ok_def E' L') (simp add: e')
    moreover have "edges_of it e \<subseteq>\<^sub>m edges_of it e'" using None by (auto simp: E' map_le_def)
    ultimately show ?thesis using room by (simp add: E' c) (simp add: e' chain_room_def)
  qed
qed

lemma make_path_spec:
  assumes H: "heed_laws H it dit"
  shows "make_path H iid p ss e = (Inr c, e') \<Longrightarrow> index_ok it dit e \<Longrightarrow> p \<le> index_chain_id_counter e \<Longrightarrow>
    \<forall>s \<in> set ss. length s = 495 \<Longrightarrow> chain_room e (length ss + n) \<Longrightarrow>
    index_ok it dit e' \<and> walk (edges_of it e') iid p ss = Some c \<and> chain_room e' n \<and>
    edges_of it e \<subseteq>\<^sub>m edges_of it e' \<and> index_mem it dit e' = index_mem it dit e"
proof (induction ss arbitrary: p e)
  case Nil
  then show ?case by (simp add: act_Inr)
next
  case (Cons s ss)
  then obtain c1 e1 where 1: "find_or_create_index_edge H iid p s e = (Inr c1, e1)"
    and 2: "make_path H iid c1 ss e1 = (Inr c, e')" by (auto simp: act_Inr)
  have "chain_room e (Suc (length ss + n))" using Cons.prems(5) by simp
  note f = find_or_create_spec[OF H 1 Cons.prems(2,3) _ this]
  have IH: "index_ok it dit e'" "walk (edges_of it e') iid c1 ss = Some c" "chain_room e' n"
    "edges_of it e1 \<subseteq>\<^sub>m edges_of it e'" "index_mem it dit e' = index_mem it dit e1"
    using Cons.IH[OF 2] f Cons.prems(4) by simp_all
  then have "edges_of it e' (encode_index_node_key iid p s) = Some (u64_to_be c1)"
    using f Cons.prems(4) by (metis domI list.set_intros(1) map_le_def)
  then show ?case using IH f Cons.prems(4) by (auto intro: map_le_trans)
qed

theorem put_index_entry_spec:
  assumes H: "heed_laws H it dit" and run: "put_index_entry H iid key did e = (Inr (), e')"
    and ok: "index_ok it dit e" and room: "chain_room e (length (split_index_key key) + n)"
  shows "index_ok it dit e' \<and> chain_room e' n \<and>
    (\<forall>iid' key' did'. index_mem it dit e' iid' key' did' \<longleftrightarrow>
       (iid', key', did') = (iid, key, did) \<or> index_mem it dit e iid' key' did')"
proof -
  let ?segs = "split_index_key key"
  obtain c e1 l1 l2 where 1: "make_path H iid ROOT_INDEX_CHAIN_ID (butlast ?segs) e = (Inr c, e1)"
    and l: "h_dup_delete H (index_leaves (e_dbs e1)) (encode_index_node_key iid c (last ?segs))
        (encode_index_document_id did) = Inr l1"
      "h_dup_put H l1 (encode_index_node_key iid c (last ?segs)) (encode_index_document_id did) = Inr l2"
    and e': "e' = e1\<lparr>e_dbs := (e_dbs e1)\<lparr>index_leaves := l2\<rparr>\<rparr>"
    using run by (auto simp: put_index_entry_def act_Inr Let_def)
  have "chain_room e (length (butlast ?segs) + n)" using room by (auto simp: chain_room_def)
  with make_path_spec[OF H 1 ok]
  have p: "index_ok it dit e1" "walk (edges_of it e1) iid 0 (butlast ?segs) = Some c" "chain_room e1 n"
    "index_mem it dit e1 = index_mem it dit e"
    using split_segments(1) by (simp_all add: ROOT_INDEX_CHAIN_ID_def)
  have E: "edges_of it e' = edges_of it e1" by (simp add: e' edges_of_def)
  have L: "leaves_of dit e' = insert (leaf iid c (last ?segs) did) (leaves_of dit e1)"
    using heed_dup_delete[OF H l(1)] heed_dup_put[OF H l(2)] by (auto simp: e' leaves_of_def leaf_def)
  have t: "trie_ok (edges_of it e1) (leaves_of dit e1) (index_chain_id_counter e1)"
    using p(1) by (simp add: index_ok_def)
  have "index_ok it dit e'"
    using trie_ok_insert_leaf[OF t p(2)] unfolding index_ok_def E L by (simp add: e')
  moreover have "chain_room e' n" using p(3) by (simp add: e' chain_room_def)
  moreover have "index_mem it dit e' iid' key' did' \<longleftrightarrow>
      (iid', key', did') = (iid, key, did) \<or> index_mem it dit e iid' key' did'" for iid' key' did'
    using trie_mem_insert_leaf[OF t p(2), of did iid' key' did'] p(4)
    unfolding index_mem_def E L by metis
  ultimately show ?thesis by blast
qed

lemma find_path_spec:
  assumes H: "heed_laws H it dit"
  shows "find_path H iid p ss e = (Inr r, e') \<Longrightarrow>
    e' = e \<and> walk (edges_of it e) iid p ss = map_option fst r \<and>
    (\<forall>c path. r = Some (c, path) \<longrightarrow> (\<forall>edge \<in> set path.
       edges_of it e (encode_index_node_key iid (ipe_parent_chain_id edge) (ipe_segment edge)) =
         Some (u64_to_be (ipe_child_chain_id edge))))"
proof (induction ss arbitrary: p r e')
  case Nil
  then show ?case by (auto simp: act_Inr)
next
  case (Cons s ss)
  let ?k = "encode_index_node_key iid p s"
  have get: "h_get H (index_edges (e_dbs e)) ?k = Inr (edges_of it e ?k)"
    using heed_get[OF H, of ?k] by (simp add: edges_of_def)
  show ?case
  proof (cases "edges_of it e ?k")
    case None
    then show ?thesis using Cons.prems get by (auto simp: act_Inr)
  next
    case (Some v)
    then obtain child q e2 where q: "(decode_u64 v :: 'c storage_error + u64) = Inr child"
      "find_path H iid child ss e = (Inr q, e2)"
      "r = (case q of None \<Rightarrow> None | Some (c, path) \<Rightarrow>
         Some (c, \<lparr>ipe_parent_chain_id = p, ipe_segment = s, ipe_child_chain_id = child\<rparr> # path))" "e' = e2"
      using Cons.prems get by (auto simp: act_Inr)
    then show ?thesis using Cons.IH[OF q(2)] Some
      by (auto simp: codec_simps split: option.splits)
  qed
qed

lemma index_node_has_entries_False:
  assumes H: "heed_laws H it dit" and run: "index_node_has_entries H iid c e = (Inr False, e')"
  shows "e' = e \<and> empty_chain (edges_of it e) (leaves_of dit e) c iid"
proof -
  let ?p = "index_node_prefix iid c"
  have p: "?p \<noteq> []" by (simp add: index_node_prefix_def)
  have pre: "has_prefix ?p (encode_index_node_key iid c s)" for s
    by (simp add: has_prefix_def index_node_prefix_def encode_index_node_key_def)
  have *: "e' = e" "filter (\<lambda>(k, _). has_prefix ?p k) (dit (index_leaves (e_dbs e))) = []"
    "filter (\<lambda>(k, _). has_prefix ?p k) (it (index_edges (e_dbs e))) = []"
    using run heed_dup_prefix[OF H p] heed_prefix[OF H p]
    by (auto simp: index_node_has_entries_def act_Inr Let_def split: if_splits)
  have "map_of (it (index_edges (e_dbs e))) (encode_index_node_key iid c s) = None" for s
  proof (rule ccontr)
    assume "map_of (it (index_edges (e_dbs e))) (encode_index_node_key iid c s) \<noteq> None"
    then obtain v where "(encode_index_node_key iid c s, v) \<in> set (it (index_edges (e_dbs e)))"
      by (auto dest: map_of_SomeD)
    then show False using *(3) pre[of s] by (force simp: filter_empty_conv)
  qed
  moreover have "leaf iid c s d \<notin> set (dit (index_leaves (e_dbs e)))" for s d
    using *(2) pre[of s] by (force simp: filter_empty_conv leaf_def)
  ultimately show ?thesis using *(1) by (simp add: empty_chain_def edges_of_def leaves_of_def)
qed

lemma map_le_remove: "m(k := None) \<subseteq>\<^sub>m m"
  by (simp add: map_le_def)

lemma prune_path_spec:
  assumes H: "heed_laws H it dit"
  shows "prune_path H iid path e = (Inr (), e') \<Longrightarrow> index_ok it dit e \<Longrightarrow>
    \<forall>edge \<in> set path. edges_of it e (encode_index_node_key iid (ipe_parent_chain_id edge) (ipe_segment edge))
      \<in> {None, Some (u64_to_be (ipe_child_chain_id edge))} \<Longrightarrow>
    index_ok it dit e' \<and> index_mem it dit e' = index_mem it dit e \<and>
    index_chain_id_counter e' = index_chain_id_counter e"
proof (induction path arbitrary: e)
  case Nil
  then show ?case by (simp add: act_Inr)
next
  case (Cons edge path)
  let ?k = "encode_index_node_key iid (ipe_parent_chain_id edge) (ipe_segment edge)"
  obtain busy e1 where b: "index_node_has_entries H iid (ipe_child_chain_id edge) e = (Inr busy, e1)"
    and rest: "(if busy then act_return () else act_then (db_write index_edges index_edges_update
       (\<lambda>d. h_delete H d ?k)) (prune_path H iid path)) e1 = (Inr (), e')"
    using Cons.prems(1) by (auto simp: act_Inr)
  show ?case
  proof (cases busy)
    case True
    then have "e1 = e" using b by (auto simp: index_node_has_entries_def act_Inr Let_def split: if_splits)
    then show ?thesis using rest True Cons.prems by (simp add: act_Inr)
  next
    case False
    then have b': "index_node_has_entries H iid (ipe_child_chain_id edge) e = (Inr False, e1)"
      using b by simp
    have 1: "e1 = e" "empty_chain (edges_of it e) (leaves_of dit e) (ipe_child_chain_id edge) iid"
      using index_node_has_entries_False[OF H b'] by blast+
    obtain d where d: "h_delete H (index_edges (e_dbs e)) ?k = Inr d"
      and rest': "prune_path H iid path (e\<lparr>e_dbs := (e_dbs e)\<lparr>index_edges := d\<rparr>\<rparr>) = (Inr (), e')"
      using rest False 1(1) by (auto simp: act_Inr)
    let ?e = "e\<lparr>e_dbs := (e_dbs e)\<lparr>index_edges := d\<rparr>\<rparr>"
    have E: "edges_of it ?e = (edges_of it e)(?k := None)"
      using heed_delete[OF H d] by (simp add: edges_of_def)
    have L: "leaves_of dit ?e = leaves_of dit e" by (simp add: leaves_of_def)
    have t: "trie_ok (edges_of it e) (leaves_of dit e) (index_chain_id_counter e)"
      using Cons.prems(2) by (simp add: index_ok_def)
    have ok: "index_ok it dit ?e"
      using trie_ok_subset[OF t map_le_remove order_refl] by (simp add: index_ok_def E L)
    have mem: "index_mem it dit ?e = index_mem it dit e"
    proof (cases "edges_of it e ?k")
      case None
      then have "(edges_of it e)(?k := None) = edges_of it e" by auto
      then show ?thesis unfolding index_mem_def E L by simp
    next
      case (Some v)
      then have "v = u64_to_be (ipe_child_chain_id edge)" using Cons.prems(3) by simp
      then show ?thesis
        using trie_mem_remove_edge[OF t _ 1(2)] Some unfolding index_mem_def E L by simp
    qed
    have "\<forall>edge \<in> set path. edges_of it ?e (encode_index_node_key iid (ipe_parent_chain_id edge)
        (ipe_segment edge)) \<in> {None, Some (u64_to_be (ipe_child_chain_id edge))}"
      using Cons.prems(3) unfolding E by auto
    from Cons.IH[OF rest' ok this] show ?thesis using mem by simp
  qed
qed

theorem delete_index_entry_spec:
  assumes H: "heed_laws H it dit" and run: "delete_index_entry H iid key did e = (Inr (), e')"
    and ok: "index_ok it dit e"
  shows "index_ok it dit e' \<and> index_chain_id_counter e' = index_chain_id_counter e \<and>
    (\<forall>iid' key' did'. index_mem it dit e' iid' key' did' \<longleftrightarrow>
       (iid', key', did') \<noteq> (iid, key, did) \<and> index_mem it dit e iid' key' did')"
proof -
  let ?segs = "split_index_key key"
  obtain r e0 where r: "find_path H iid ROOT_INDEX_CHAIN_ID (butlast ?segs) e = (Inr r, e0)"
    and rest: "(case r of None \<Rightarrow> act_return () | Some (chain, path) \<Rightarrow>
        act_then (leaves_write (\<lambda>l. h_dup_delete H l (encode_index_node_key iid chain (last ?segs))
            (encode_index_document_id did))) (prune_path H iid (rev path))) e0 = (Inr (), e')"
    using run by (auto simp: delete_index_entry_def act_Inr Let_def)
  note f = find_path_spec[OF H r]
  show ?thesis
  proof (cases r)
    case None
    then have "e' = e" using rest f by (simp add: act_Inr)
    moreover have "\<not> index_mem it dit e iid key did"
      using f None by (simp add: index_mem_def trie_mem_def)
    ultimately show ?thesis using ok by auto
  next
    case (Some cp)
    then obtain c path where cp: "r = Some (c, path)" by (cases cp) auto
    have w: "walk (edges_of it e) iid 0 (butlast ?segs) = Some c"
      using f cp by (simp add: ROOT_INDEX_CHAIN_ID_def)
    obtain l where l: "h_dup_delete H (index_leaves (e_dbs e)) (encode_index_node_key iid c (last ?segs))
        (encode_index_document_id did) = Inr l"
      and pr: "prune_path H iid (rev path) (e\<lparr>e_dbs := (e_dbs e)\<lparr>index_leaves := l\<rparr>\<rparr>) = (Inr (), e')"
      using rest cp f by (auto simp: act_Inr)
    let ?e = "e\<lparr>e_dbs := (e_dbs e)\<lparr>index_leaves := l\<rparr>\<rparr>"
    have E: "edges_of it ?e = edges_of it e" by (simp add: edges_of_def)
    have L: "leaves_of dit ?e = leaves_of dit e - {leaf iid c (last ?segs) did}"
      using heed_dup_delete[OF H l] by (simp add: leaves_of_def leaf_def)
    have t: "trie_ok (edges_of it e) (leaves_of dit e) (index_chain_id_counter e)"
      using ok by (simp add: index_ok_def)
    have ok1: "index_ok it dit ?e"
      unfolding index_ok_def E L using trie_ok_subset[OF t map_le_refl, of "_ - _"] by simp
    have "\<forall>edge \<in> set (rev path). edges_of it ?e (encode_index_node_key iid (ipe_parent_chain_id edge)
        (ipe_segment edge)) \<in> {None, Some (u64_to_be (ipe_child_chain_id edge))}"
      using f cp unfolding E by auto
    note p = prune_path_spec[OF H pr ok1 this]
    have "index_mem it dit e' iid' key' did' \<longleftrightarrow>
        (iid', key', did') \<noteq> (iid, key, did) \<and> index_mem it dit e iid' key' did'" for iid' key' did'
      using trie_mem_remove_leaf[OF t w, of did iid' key' did'] p
      unfolding index_mem_def E L by simp
    then show ?thesis using p by simp
  qed
qed

end
