(* ===== verification/Versions.thy ===== *)
theory Versions
  imports Heed
begin

text \<open>
  Multi-version rows. Documents and collection catalog rows are stored once per version, under a
  key that ends in the version. \<open>newest h ts\<close> is what a reader at timestamp \<open>ts\<close> sees of the
  history \<open>h\<close> of one row; the locale \<open>versioned\<close> is the contract of a key encoding under which
  \<open>get_lower_than_or_equal_to\<close> finds exactly that, proved once and used for both kinds of rows.
\<close>

section \<open>Snapshots\<close>

definition newest :: "(TS \<Rightarrow> 'v option) \<Rightarrow> TS \<Rightarrow> 'v option" where
  "newest h ts =
     (if \<forall>t \<le> ts. h t = None then None else h (Max {t. t \<le> ts \<and> h t \<noteq> None}))"

lemma newest_Some:
  "newest h ts = Some v \<longleftrightarrow> (\<exists>t \<le> ts. h t = Some v \<and> (\<forall>t' \<le> ts. h t' \<noteq> None \<longrightarrow> t' \<le> t))"
proof
  assume *: "newest h ts = Some v"
  let ?S = "{t. t \<le> ts \<and> h t \<noteq> None}"
  have ne: "?S \<noteq> {}" using * by (auto simp: newest_def split: if_splits)
  have fin: "finite ?S" by simp
  have "Max ?S \<in> ?S" using Max_in[OF fin ne] .
  moreover have "h (Max ?S) = Some v" using * by (auto simp: newest_def split: if_splits)
  ultimately show "\<exists>t \<le> ts. h t = Some v \<and> (\<forall>t' \<le> ts. h t' \<noteq> None \<longrightarrow> t' \<le> t)"
    using Max_ge[OF fin] by (intro exI[of _ "Max ?S"]) auto
next
  assume "\<exists>t \<le> ts. h t = Some v \<and> (\<forall>t' \<le> ts. h t' \<noteq> None \<longrightarrow> t' \<le> t)"
  then obtain t where t: "t \<le> ts" "h t = Some v" "\<forall>t' \<le> ts. h t' \<noteq> None \<longrightarrow> t' \<le> t" by blast
  then have "Max {t. t \<le> ts \<and> h t \<noteq> None} = t" by (intro Max_eqI) auto
  then show "newest h ts = Some v" using t by (auto simp: newest_def)
qed

lemma newest_None: "newest h ts = None \<longleftrightarrow> (\<forall>t \<le> ts. h t = None)"
proof
  assume none: "newest h ts = None"
  let ?S = "{t. t \<le> ts \<and> h t \<noteq> None}"
  show "\<forall>t \<le> ts. h t = None"
  proof (rule ccontr)
    assume *: "\<not> (\<forall>t \<le> ts. h t = None)"
    then have "?S \<noteq> {}" by blast
    then have "Max ?S \<in> ?S" by (intro Max_in) simp_all
    moreover have "newest h ts = h (Max ?S)" unfolding newest_def using * by (rule if_not_P)
    ultimately show False using none by auto
  qed
qed (simp add: newest_def)

text \<open>A reader only depends on the versions up to its timestamp, and sees a version at its own.\<close>

lemma newest_cong:
  assumes "\<And>t. t \<le> ts \<Longrightarrow> h t = h' t"
  shows "newest h ts = newest h' ts"
proof -
  have "{t. t \<le> ts \<and> h t \<noteq> None} = {t. t \<le> ts \<and> h' t \<noteq> None}" using assms by auto
  then show ?thesis
    using assms newest_None[of h ts] newest_None[of h' ts] unfolding newest_def
    by (metis (mono_tags, lifting) Max_in empty_iff finite mem_Collect_eq)
qed

lemma newest_latest:
  assumes "\<And>t. h t \<noteq> None \<Longrightarrow> t \<le> now" "now \<le> ts"
  shows "newest h ts = newest h now"
proof (cases "newest h now")
  case None
  then have "h t = None" for t using assms(1)[of t] by (cases "h t = None") (simp_all add: newest_None)
  then have "h = (\<lambda>_. None)" by blast
  then show ?thesis by (simp add: newest_def)
next
  case (Some v)
  then obtain t where "t \<le> now" "h t = Some v" "\<forall>t' \<le> now. h t' \<noteq> None \<longrightarrow> t' \<le> t"
    by (auto simp: newest_Some)
  then have "newest h ts = Some v"
    using assms order_trans[of t now ts] by (auto simp: newest_Some)
  then show ?thesis using Some by simp
qed

lemma newest_upd_later: "ts < t \<Longrightarrow> newest (h(t := x)) ts = newest h ts"
  by (rule newest_cong) auto

lemma newest_upd_now:
  assumes "t \<le> ts" "\<And>t'. t < t' \<Longrightarrow> t' \<le> ts \<Longrightarrow> h t' = None"
  shows "newest (h(t \<mapsto> v)) ts = Some v"
  unfolding newest_Some using assms by (intro exI[of _ t]) (auto simp flip: not_less)

lemma newest_map: "newest (\<lambda>t. map_option f (h t)) ts = map_option f (newest h ts)"
proof (cases "newest h ts")
  case None
  then show ?thesis using newest_None[of h ts] newest_None[of "\<lambda>t. map_option f (h t)" ts] by simp
next
  case (Some v)
  then show ?thesis
    using newest_Some[of h ts v] newest_Some[of "\<lambda>t. map_option f (h t)" ts "f v"] by auto
qed

section \<open>Keys that end in a version\<close>

locale versioned =
  fixes enc :: "'k \<Rightarrow> TS \<Rightarrow> bytes" and kless :: "'k \<Rightarrow> 'k \<Rightarrow> bool"
  assumes enc_inject: "enc k t = enc k' t' \<longleftrightarrow> k = k' \<and> t = t'"
    and enc_le: "enc k t \<le> enc k' t' \<longleftrightarrow> kless k k' \<or> k = k' \<and> t \<le> t'"
    and kless_asym: "kless k k' \<Longrightarrow> \<not> kless k' k"
begin

definition history :: "(bytes \<times> bytes) list \<Rightarrow> 'k \<Rightarrow> TS \<Rightarrow> bytes option" where
  "history d k t = map_of d (enc k t)"

text \<open>The row found at or below \<open>enc k ts\<close>: of \<open>k\<close>, then it is the newest; or of another row,
  then \<open>k\<close> has no version up to \<open>ts\<close>.\<close>

lemma floor_same:
  assumes "bt_ok d" and "find (\<lambda>(k', _). k' \<le> enc k ts) (rev d) = Some (enc k t, b)"
  shows "t \<le> ts \<and> newest (history d k) ts = Some b"
proof -
  have *: "map_of d (enc k t) = Some b" "enc k t \<le> enc k ts"
    "\<And>k''. map_of d k'' \<noteq> None \<Longrightarrow> k'' \<le> enc k ts \<Longrightarrow> k'' \<le> enc k t"
    using assms(2) unfolding find_rev_le_Some[OF assms(1)] by blast+
  have t: "t \<le> ts" using *(2) kless_asym by (auto simp: enc_le)
  moreover have "t' \<le> t" if "t' \<le> ts" "history d k t' \<noteq> None" for t'
    using *(3)[of "enc k t'"] that kless_asym by (auto simp: history_def enc_le)
  ultimately show ?thesis using *(1) unfolding newest_Some history_def by blast
qed

lemma floor_other:
  assumes "bt_ok d" and "find (\<lambda>(k', _). k' \<le> enc k ts) (rev d) = Some (enc k' t, b)" "k' \<noteq> k"
  shows "newest (history d k) ts = None"
proof -
  have *: "enc k' t \<le> enc k ts"
    "\<And>k''. map_of d k'' \<noteq> None \<Longrightarrow> k'' \<le> enc k ts \<Longrightarrow> k'' \<le> enc k' t"
    using assms(2) unfolding find_rev_le_Some[OF assms(1)] by blast+
  have "history d k t' = None" if "t' \<le> ts" for t'
    using *(1) *(2)[of "enc k t'"] that assms(3) kless_asym[of k' k] kless_asym[of k k']
    by (cases "map_of d (enc k t')") (auto simp: history_def enc_le)
  then show ?thesis by (simp add: newest_None)
qed

lemma floor_none:
  assumes "find (\<lambda>(k', _). k' \<le> enc k ts) (rev d) = None"
  shows "newest (history d k) ts = None"
  using assms kless_asym unfolding find_rev_le_None newest_None history_def by (auto simp: enc_le)

text \<open>Storing a version changes the history of its row at its version, and nothing else.\<close>

lemma history_update:
  "map_of d' = (map_of d)(enc k t \<mapsto> b) \<Longrightarrow>
   history d' k' = (if k' = k then (history d k)(t \<mapsto> b) else history d k')"
  by (auto simp: history_def fun_eq_iff enc_inject)

end

end
