(* ===== verification/Cursor.thy ===== *)
theory Cursor
  imports Heed
begin

text \<open>
  \<open>DatastoreCursor\<close> of \<open>crates/storage/src/traits.rs\<close> and the loops the cursors share. A cursor is
  a state and a \<open>next\<close>; \<open>None\<close> of a step means that a loop does not end. \<open>yields nx c xs\<close> says
  that repeated calls of \<open>next\<close> return exactly \<open>xs\<close> and then \<open>Ok(None)\<close> for ever.
\<close>

section \<open>Cursors\<close>

type_synonym ('c, 'e, 'a) cursor = "'c \<Rightarrow> (('e storage_error + 'a option) \<times> 'c) option"

inductive yields :: "('c, 'e, 'a) cursor \<Rightarrow> 'c \<Rightarrow> 'a list \<Rightarrow> bool" for nx where
  yields_end: "nx c = Some (Inr None, c') \<Longrightarrow> nx c' = Some (Inr None, c') \<Longrightarrow> yields nx c []"
| yields_item: "nx c = Some (Inr (Some x), c') \<Longrightarrow> yields nx c' xs \<Longrightarrow> yields nx c (x # xs)"

inductive_cases yields_NilE: "yields nx c []"
inductive_cases yields_ConsE: "yields nx c (x # xs)"

lemma yields_functional: "yields nx c xs \<Longrightarrow> yields nx c ys \<Longrightarrow> xs = ys"
proof (induction arbitrary: ys rule: yields.induct)
  case (yields_end c c')
  from yields_end.prems show ?case
    by (rule yields.cases) (use yields_end.hyps(1) in simp_all)
next
  case (yields_item c x c' xs)
  from yields_item.prems show ?case
    by (rule yields.cases) (use yields_item.hyps(1) yields_item.IH in simp_all)
qed

text \<open>A cursor whose \<open>next\<close> always returns.\<close>

definition total :: "('c, 'e storage_error, 'a option) act \<Rightarrow> ('c, 'e, 'a) cursor" where
  "total nx = (\<lambda>c. Some (nx c))"

text \<open>\<open>next_raw\<close>: the next item of an LMDB iterator, whose error is converted.\<close>

fun next_raw :: "('e raw, 'e storage_error, (bytes \<times> bytes) option) act" where
  "next_raw [] = (Inr None, [])"
| "next_raw (r # raw) =
     (case heed_call r of Inl e \<Rightarrow> (Inl e, raw) | Inr p \<Rightarrow> (Inr (Some p), raw))"

lemma yields_raw: "yields (total next_raw) (map Inr ps) ps"
proof (induction ps)
  case Nil
  show ?case by (rule yields_end[where c' = "[]"]) (simp_all add: total_def)
next
  case (Cons p ps)
  then show ?case by (intro yields_item) (simp_all add: total_def)
qed

text \<open>
  \<open>while let Some(x) = cursor.next()? { .. }\<close> where the body turns \<open>x\<close> into a result, skips it or
  fails.
\<close>

partial_function (option) seek ::
  "('c, 'e, 'a) cursor \<Rightarrow> ('a \<Rightarrow> 'e storage_error + 'b option) \<Rightarrow> ('c, 'e, 'b) cursor" where
  "seek nx f c =
     (case nx c of
        None \<Rightarrow> None
      | Some (Inl e, c') \<Rightarrow> Some (Inl e, c')
      | Some (Inr None, c') \<Rightarrow> Some (Inr None, c')
      | Some (Inr (Some x), c') \<Rightarrow>
          (case f x of
             Inl e \<Rightarrow> Some (Inl e, c')
           | Inr None \<Rightarrow> seek nx f c'
           | Inr (Some y) \<Rightarrow> Some (Inr (Some y), c')))"

lemma seek_end: "nx c = Some (Inr None, c') \<Longrightarrow> seek nx f c = Some (Inr None, c')"
  by (simp add: seek.simps)

lemma seek_take:
  "nx c = Some (Inr (Some x), c') \<Longrightarrow> f x = Inr (Some y) \<Longrightarrow> seek nx f c = Some (Inr (Some y), c')"
  by (simp add: seek.simps)

lemma seek_skip: "nx c = Some (Inr (Some x), c') \<Longrightarrow> f x = Inr None \<Longrightarrow> seek nx f c = seek nx f c'"
  by (subst seek.simps) simp

lemma yields_prefix:
  assumes "yields nx c' xs" "nx c = nx c'"
  shows "yields nx c xs"
  using assms by (cases rule: yields.cases) (auto intro: yields.intros)

lemma yields_seek:
  assumes "yields nx c xs" "\<And>x. x \<in> set xs \<Longrightarrow> f x = Inr (g x)"
  shows "yields (seek nx f) c (List.map_filter g xs)"
  using assms
proof (induction rule: yields.induct)
  case (yields_end c c')
  then show ?case
    by (auto intro!: yields.yields_end[where c' = c'] seek_end simp: map_filter_simps)
next
  case (yields_item c x c' xs)
  then have IH: "yields (seek nx f) c' (List.map_filter g xs)" and fx: "f x = Inr (g x)" by auto
  show ?case
  proof (cases "g x")
    case None
    then have "seek nx f c = seek nx f c'" using seek_skip[where nx = nx and f = f and c = c, OF yields_item.hyps(1)] fx by simp
    with IH None show ?thesis by (auto simp: map_filter_simps intro: yields_prefix)
  next
    case (Some y)
    then show ?thesis
      using IH seek_take[where nx = nx and f = f and c = c, OF yields_item.hyps(1)] fx
      by (auto simp: map_filter_simps intro: yields.yields_item)
  qed
qed

section \<open>Merging stored entries and pending writes\<close>

text \<open>
  The four merged cursors differ in the type of their entries, in their key, and in what
  \<open>next_base\<close> skips; \<open>pending_base\<close>, the \<open>Peekable\<close> overlay and the choice between them are the
  same.
\<close>

record ('b, 'a) merged =
  mc_base :: 'b
  mc_overlay :: "'a list"
  mc_pending :: "'a option"

definition merged_new :: "'b \<Rightarrow> 'a list \<Rightarrow> ('b, 'a) merged" where
  "merged_new base overlay = \<lparr>mc_base = base, mc_overlay = overlay, mc_pending = None\<rparr>"

text \<open>The choice made once \<open>pending_base\<close> is filled; \<open>compare_order\<close> is \<open>before\<close>.\<close>

definition merged_choose ::
  "('a \<Rightarrow> 'k::linorder) \<Rightarrow> direction \<Rightarrow> ('b, 'a) merged \<Rightarrow> 'a option \<times> ('b, 'a) merged" where
  "merged_choose key dir m =
     (case (mc_pending m, mc_overlay m) of
        (None, []) \<Rightarrow> (None, m)
      | (Some b, []) \<Rightarrow> (Some b, m\<lparr>mc_pending := None\<rparr>)
      | (None, y # ys) \<Rightarrow> (Some y, m\<lparr>mc_overlay := ys\<rparr>)
      | (Some b, y # ys) \<Rightarrow>
          if before dir (key b) (key y) then (Some b, m\<lparr>mc_pending := None\<rparr>)
          else if before dir (key y) (key b) then (Some y, m\<lparr>mc_overlay := ys\<rparr>)
          else (Some y, m\<lparr>mc_pending := None, mc_overlay := ys\<rparr>))"

definition merged_next ::
  "('a \<Rightarrow> 'k::linorder) \<Rightarrow> direction \<Rightarrow> ('b, 'e, 'a) cursor \<Rightarrow> (('b, 'a) merged, 'e, 'a) cursor" where
  "merged_next key dir next_base m =
     (case mc_pending m of
        Some _ \<Rightarrow> (case merged_choose key dir m of (r, m') \<Rightarrow> Some (Inr r, m'))
      | None \<Rightarrow>
          (case next_base (mc_base m) of
             None \<Rightarrow> None
           | Some (Inl e, b) \<Rightarrow> Some (Inl e, m\<lparr>mc_base := b\<rparr>)
           | Some (Inr p, b) \<Rightarrow>
               (case merged_choose key dir (m\<lparr>mc_base := b, mc_pending := p\<rparr>) of
                  (r, m') \<Rightarrow> Some (Inr r, m'))))"

text \<open>What a merge is: both sequences in order, and the overlay's entry where keys meet.\<close>

fun merge_by :: "('a \<Rightarrow> 'k::linorder) \<Rightarrow> direction \<Rightarrow> 'a list \<Rightarrow> 'a list \<Rightarrow> 'a list" where
  "merge_by key dir [] ys = ys"
| "merge_by key dir (x # xs) [] = x # xs"
| "merge_by key dir (x # xs) (y # ys) =
     (if before dir (key x) (key y) then x # merge_by key dir xs (y # ys)
      else if before dir (key y) (key x) then y # merge_by key dir (x # xs) ys
      else y # merge_by key dir xs ys)"

text \<open>The entries still to come from the base, the pending one included.\<close>

inductive base_yields :: "('b, 'e, 'a) cursor \<Rightarrow> ('b, 'a) merged \<Rightarrow> 'a list \<Rightarrow> bool" where
  "mc_pending m = None \<Longrightarrow> yields nb (mc_base m) xs \<Longrightarrow> base_yields nb m xs"
| "mc_pending m = Some x \<Longrightarrow> yields nb (mc_base m) xs \<Longrightarrow> base_yields nb m (x # xs)"

lemma yields_merged_aux:
  "base_yields nb m xs \<Longrightarrow> yields (merged_next key dir nb) m (merge_by key dir xs (mc_overlay m))"
proof (induction "length xs + length (mc_overlay m)" arbitrary: xs m rule: less_induct)
  case less
  let ?nx = "merged_next key dir nb"
  show ?case
  proof (cases xs)
    case Nil
    with less.prems have p: "mc_pending m = None" and y: "yields nb (mc_base m) []"
      by (auto elim: base_yields.cases)
    from y obtain b where b: "nb (mc_base m) = Some (Inr None, b)" "nb b = Some (Inr None, b)"
      by (rule yields_NilE)
    show ?thesis
    proof (cases "mc_overlay m")
      case Nil
      then show ?thesis
        using p b \<open>xs = []\<close>
        by (auto intro!: yields_end[where c' = "m\<lparr>mc_base := b\<rparr>"]
            simp: merged_next_def merged_choose_def)
    next
      case (Cons o1 os)
      let ?m = "m\<lparr>mc_base := b, mc_overlay := os\<rparr>"
      have "base_yields nb ?m []"
        using p b by (auto intro!: base_yields.intros yields_end)
      then have "yields ?nx ?m os" using less.hyps[of "[]" ?m] Cons \<open>xs = []\<close> by simp
      moreover have "?nx m = Some (Inr (Some o1), ?m)"
        using p b Cons by (simp add: merged_next_def merged_choose_def)
      ultimately show ?thesis using Cons \<open>xs = []\<close> by (auto intro: yields_item)
    qed
  next
    case (Cons x xs')
    obtain b where b: "yields nb b xs'" and
      nx: "?nx m = (case merged_choose key dir (m\<lparr>mc_base := b, mc_pending := Some x\<rparr>) of
             (r, m') \<Rightarrow> Some (Inr r, m'))"
      using less.prems
    proof (cases rule: base_yields.cases)
      case 1
      then show ?thesis using that Cons by (auto simp: merged_next_def elim!: yields_ConsE)
    next
      case (2 y ys)
      then have e: "m\<lparr>mc_base := mc_base m, mc_pending := Some x\<rparr> = m" using Cons by (cases m) simp
      show ?thesis
        by (rule that[of "mc_base m"], unfold e) (use 2 Cons in \<open>simp_all add: merged_next_def\<close>)
    qed
    let ?full = "m\<lparr>mc_base := b, mc_pending := Some x\<rparr>"
    have "base_yields nb (?full\<lparr>mc_pending := None, mc_overlay := os\<rparr>) xs'" for os
      using b by (auto intro!: base_yields.intros(1))
    then have take_both: "yields ?nx (?full\<lparr>mc_pending := None, mc_overlay := os\<rparr>)
        (merge_by key dir xs' os)" if "length os \<le> length (mc_overlay m)" for os
      using less.hyps[of xs' "?full\<lparr>mc_pending := None, mc_overlay := os\<rparr>"] Cons that by simp
    have "base_yields nb (?full\<lparr>mc_overlay := os\<rparr>) xs" for os
      using b Cons by (auto intro!: base_yields.intros(2))
    then have take_overlay: "yields ?nx (?full\<lparr>mc_overlay := os\<rparr>) (merge_by key dir xs os)"
      if "mc_overlay m = o1 # os" for o1 os
      using less.hyps[of xs "?full\<lparr>mc_overlay := os\<rparr>"] Cons that by simp
    have "?full\<lparr>mc_pending := None, mc_overlay := mc_overlay m\<rparr> = ?full\<lparr>mc_pending := None\<rparr>"
      by (cases m) simp
    then have take_base: "yields ?nx (?full\<lparr>mc_pending := None\<rparr>) (merge_by key dir xs' (mc_overlay m))"
      using take_both[of "mc_overlay m"] by simp
    show ?thesis
    proof (cases "mc_overlay m")
      case Nil
      then show ?thesis using nx take_base Cons
        by (cases xs') (auto simp: merged_choose_def intro: yields_item)
    next
      case (Cons o1 os)
      note ov = this
      consider "before dir (key x) (key o1)"
        | "\<not> before dir (key x) (key o1)" "before dir (key o1) (key x)"
        | "\<not> before dir (key x) (key o1)" "\<not> before dir (key o1) (key x)" by blast
      then show ?thesis
        using nx take_base take_overlay[OF ov] take_both[of os] ov \<open>xs = x # xs'\<close>
        by cases (auto simp: merged_choose_def intro: yields_item)
    qed
  qed
qed

theorem yields_merged:
  "yields nb b xs \<Longrightarrow> yields (merged_next key dir nb) (merged_new b ys) (merge_by key dir xs ys)"
  using yields_merged_aux[of nb "merged_new b ys" xs key dir]
  by (simp add: merged_new_def base_yields.intros)

text \<open>The merge of two sequences in cursor order.\<close>

definition in_order :: "('a \<Rightarrow> 'k::linorder) \<Rightarrow> direction \<Rightarrow> 'a list \<Rightarrow> bool" where
  "in_order key dir = sorted_wrt (\<lambda>x y. before dir (key x) (key y))"

lemma in_order_simps [simp]:
  "in_order key dir []"
  "in_order key dir (x # xs) \<longleftrightarrow> (\<forall>y \<in> set xs. before dir (key x) (key y)) \<and> in_order key dir xs"
  by (simp_all add: in_order_def)

lemma in_order_filter: "in_order key dir xs \<Longrightarrow> in_order key dir (filter P xs)"
  by (induction xs) auto

lemma in_order_unique:
  assumes "in_order key dir xs" "in_order key dir ys" "set xs = set ys"
  shows "xs = ys"
  using assms
proof (induction xs arbitrary: ys)
  case (Cons x xs)
  then obtain y ys' where ys: "ys = y # ys'" by (cases ys) auto
  have "y = x"
  proof (rule ccontr)
    assume "y \<noteq> x"
    then have "x \<in> set ys'" "y \<in> set xs" using Cons.prems ys by auto
    then show False using Cons.prems ys before_asym by fastforce
  qed
  moreover have "x \<notin> set xs" "x \<notin> set ys'" using Cons.prems ys \<open>y = x\<close> by auto
  moreover have "set xs = set ys'"
    using Cons.prems(3) ys \<open>y = x\<close> \<open>x \<notin> set xs\<close> \<open>x \<notin> set ys'\<close> by (simp add: insert_ident)
  ultimately show ?case using Cons.IH[of ys'] Cons.prems ys by simp
qed simp

lemma set_merge_by:
  assumes "in_order key dir xs" "in_order key dir ys"
  shows "set (merge_by key dir xs ys) = {x \<in> set xs. key x \<notin> key ` set ys} \<union> set ys \<and>
    in_order key dir (merge_by key dir xs ys)"
  using assms
proof (induction key dir xs ys rule: merge_by.induct)
  case (3 key dir x xs y ys)
  have sx: "before dir (key x) (key z)" if "z \<in> set xs" for z using that 3(4) by simp
  have sy: "before dir (key y) (key z)" if "z \<in> set ys" for z using that 3(5) by simp
  have tails: "in_order key dir xs" "in_order key dir ys" using 3(4,5) by simp_all
  consider (base) "before dir (key x) (key y)" | (over) "before dir (key y) (key x)"
    | (both) "key x = key y" using before_linear by metis
  then show ?case
  proof cases
    case base
    have xy: "before dir (key x) (key z)" if "z \<in> set (y # ys)" for z
      using that base sy before_trans by (metis set_ConsD)
    then have "key x \<notin> key ` set (y # ys)" by fastforce
    moreover have m: "set (merge_by key dir xs (y # ys)) =
        {z \<in> set xs. key z \<notin> key ` set (y # ys)} \<union> set (y # ys)"
      "in_order key dir (merge_by key dir xs (y # ys))" using 3(1) base tails 3(5) by blast+
    moreover have "\<forall>z \<in> set (merge_by key dir xs (y # ys)). before dir (key x) (key z)"
      using m(1) xy sx by blast
    ultimately show ?thesis using base by auto
  next
    case over
    have n: "\<not> before dir (key x) (key y)" using over before_asym by blast
    have yx: "before dir (key y) (key z)" if "z \<in> set (x # xs)" for z
      using that over sx before_trans by (metis set_ConsD)
    then have "key z \<noteq> key y" if "z \<in> set (x # xs)" for z using that by fastforce
    moreover have m: "set (merge_by key dir (x # xs) ys) =
        {z \<in> set (x # xs). key z \<notin> key ` set ys} \<union> set ys"
      "in_order key dir (merge_by key dir (x # xs) ys)" using 3(2)[OF n over] tails 3(4) by blast+
    moreover have "\<forall>z \<in> set (merge_by key dir (x # xs) ys). before dir (key y) (key z)"
      using m(1) yx sy by blast
    ultimately show ?thesis using over n by auto
  next
    case both
    have yx: "before dir (key y) (key z)" if "z \<in> set xs" for z using that both sx by simp
    then have "key z \<noteq> key y" if "z \<in> set xs" for z using that by fastforce
    moreover have m: "set (merge_by key dir xs ys) = {z \<in> set xs. key z \<notin> key ` set ys} \<union> set ys"
      "in_order key dir (merge_by key dir xs ys)" using 3(3) both tails by simp_all
    moreover have "\<forall>z \<in> set (merge_by key dir xs ys). before dir (key y) (key z)"
      using m(1) yx sy by blast
    ultimately show ?thesis using both by auto
  qed
qed auto

lemma merge_by_eq:
  assumes "in_order key dir xs" "in_order key dir ys" "in_order key dir zs"
    and "\<And>z. z \<in> set zs \<longleftrightarrow> z \<in> set ys \<or> z \<in> set xs \<and> key z \<notin> key ` set ys"
  shows "merge_by key dir xs ys = zs"
  using set_merge_by[OF assms(1,2)] assms(3,4) by (intro in_order_unique) auto

section \<open>Termination\<close>

text \<open>
  A cursor makes progress: in every state its \<open>next\<close> returns, and an entry it gives makes the
  state smaller. Skipping and merging keep this.
\<close>

definition progress :: "('c \<Rightarrow> nat) \<Rightarrow> ('c, 'e, 'a) cursor \<Rightarrow> bool" where
  "progress size_of nx \<longleftrightarrow>
     (\<forall>c. \<exists>r c'. nx c = Some (r, c') \<and> size_of c' \<le> size_of c \<and>
        (\<forall>x. r = Inr (Some x) \<longrightarrow> size_of c' < size_of c))"

lemma progressD:
  assumes "progress size_of nx"
  obtains r c' where "nx c = Some (r, c')" "size_of c' \<le> size_of c"
    "\<forall>x. r = Inr (Some x) \<longrightarrow> size_of c' < size_of c"
  using assms unfolding progress_def by blast

lemma progress_seek:
  assumes "progress size_of nx"
  shows "progress size_of (seek nx f)"
  unfolding progress_def
proof
  fix c
  show "\<exists>r c'. seek nx f c = Some (r, c') \<and> size_of c' \<le> size_of c \<and>
      (\<forall>x. r = Inr (Some x) \<longrightarrow> size_of c' < size_of c)"
  proof (induction "size_of c" arbitrary: c rule: less_induct)
    case less
    obtain r c' where nx: "nx c = Some (r, c')" "size_of c' \<le> size_of c"
        "\<forall>x. r = Inr (Some x) \<longrightarrow> size_of c' < size_of c"
      using assms by (rule progressD)
    show ?case
    proof (cases "\<exists>x. r = Inr (Some x) \<and> f x = Inr None")
      case True
      then have smaller: "size_of c' < size_of c" and skip: "seek nx f c = seek nx f c'"
        using nx by (auto simp: seek.simps[of nx f c])
      show ?thesis using less[OF smaller] smaller unfolding skip by (meson less_trans order_le_less_trans less_imp_le)
    next
      case False
      then show ?thesis using nx
        by (subst seek.simps) (fastforce split: sum.splits option.splits)
    qed
  qed
qed

definition merged_size :: "('b \<Rightarrow> nat) \<Rightarrow> ('b, 'a) merged \<Rightarrow> nat" where
  "merged_size size_of m =
     size_of (mc_base m) + length (mc_overlay m) + (case mc_pending m of None \<Rightarrow> 0 | Some _ \<Rightarrow> 1)"

lemma merged_choose_size:
  "merged_choose key dir m = (r, m') \<Longrightarrow>
   merged_size size_of m' \<le> merged_size size_of m \<and>
   (r \<noteq> None \<longrightarrow> merged_size size_of m' < merged_size size_of m)"
  by (auto simp: merged_choose_def merged_size_def split: option.splits list.splits if_splits)

lemma progress_merged:
  assumes "progress size_of nb"
  shows "progress (merged_size size_of) (merged_next key dir nb)"
  unfolding progress_def
proof
  fix m
  show "\<exists>r m'. merged_next key dir nb m = Some (r, m') \<and> merged_size size_of m' \<le> merged_size size_of m \<and>
      (\<forall>x. r = Inr (Some x) \<longrightarrow> merged_size size_of m' < merged_size size_of m)"
  proof (cases "mc_pending m")
    case (Some x)
    obtain r m' where "merged_choose key dir m = (r, m')" by force
    then show ?thesis using Some merged_choose_size[of key dir m r m' size_of]
      by (simp add: merged_next_def)
  next
    case None
    obtain r b where nb: "nb (mc_base m) = Some (r, b)" "size_of b \<le> size_of (mc_base m)"
        "\<forall>x. r = Inr (Some x) \<longrightarrow> size_of b < size_of (mc_base m)"
      using assms by (rule progressD)
    show ?thesis
    proof (cases r)
      case (Inl e)
      then show ?thesis using None nb by (simp add: merged_next_def merged_size_def)
    next
      case (Inr p)
      define m1 where "m1 = m\<lparr>mc_base := b, mc_pending := p\<rparr>"
      obtain q m' where c: "merged_choose key dir m1 = (q, m')" by force
      have "merged_size size_of m1 \<le> merged_size size_of m"
        using None nb Inr by (auto simp: merged_size_def m1_def split: option.splits)
      then show ?thesis
        using None nb(1) Inr c merged_choose_size[OF c, of size_of]
        by (auto simp: merged_next_def m1_def[symmetric])
    qed
  qed
qed

lemma progress_next_raw: "progress length (total next_raw)"
  unfolding progress_def total_def
proof
  fix raw :: "'e raw"
  show "\<exists>r c'. Some (next_raw raw) = Some (r, c') \<and> length c' \<le> length raw \<and>
      (\<forall>x. r = Inr (Some x) \<longrightarrow> length c' < length raw)"
    by (cases raw) (auto split: sum.splits)
qed

end
