(* ===== verification/Documents.thy ===== *)
theory Documents
  imports Versions Cursor
begin

text \<open>
  The documents database: \<open>stored_document\<close> and the bounds of a document scan
  (\<open>implementations/heed/transaction.rs\<close>) and \<open>HeedDocumentCursor\<close>
  (\<open>implementations/heed/cursors.rs\<close>). The abstract content is a history per document,
  \<open>doc_history\<close>; a read and a scan at timestamp \<open>ts\<close> are shown to return exactly the newest
  versions not above \<open>ts\<close>, tombstones left out.
\<close>

section \<open>Reading one document\<close>

definition stored_document ::
  "('d, 'l, 'e) heed \<Rightarrow> 'd \<Rightarrow> TS \<Rightarrow> collection_id \<Rightarrow> document_id \<Rightarrow> 'e storage_error + bytes option" where
  "stored_document H d ts cid key =
     and_then (heed_call (h_get_le H d (encode_document_key cid key ts))) (\<lambda>r.
       case r of
         None \<Rightarrow> Inr None
       | Some (stored_key, v) \<Rightarrow>
           and_then (decode_document_key stored_key) (\<lambda>(stored_collection, stored_id, stored_version).
             if stored_collection \<noteq> cid \<or> stored_id \<noteq> key \<or> stored_version > ts then Inr None
             else decode_document_value v))"

section \<open>Scanning a collection\<close>

definition collection_end_bound :: "collection_id \<Rightarrow> bytes bound" where
  "collection_end_bound cid =
     (case i64_checked_succ cid of
        None \<Rightarrow> Bound_unbounded | Some c \<Rightarrow> Bound_excluded (encode_collection_prefix c))"

definition document_cursor_bounds ::
  "collection_id \<Rightarrow> document_id cursor_start \<Rightarrow> direction \<Rightarrow> bytes bound \<times> bytes bound" where
  "document_cursor_bounds cid start dir =
     (let collection_start = Bound_included (encode_collection_prefix cid);
          collection_end = collection_end_bound cid
      in case dir of
           Forward \<Rightarrow>
             (case start of
                Unbounded \<Rightarrow> collection_start
              | Included d \<Rightarrow> Bound_included (encode_document_key cid d 0)
              | Excluded d \<Rightarrow> Bound_excluded (encode_document_key cid d (- 1)), collection_end)
         | Reverse \<Rightarrow>
             (collection_start,
              case start of
                Unbounded \<Rightarrow> collection_end
              | Included d \<Rightarrow> Bound_included (encode_document_key cid d (- 1))
              | Excluded d \<Rightarrow> Bound_excluded (encode_document_key cid d 0)))"

definition raw_cursor ::
  "('d, 'l, 'e) heed \<Rightarrow> 'd \<Rightarrow> bytes bound \<times> bytes bound \<Rightarrow> direction \<Rightarrow> 'e storage_error + 'e raw" where
  "raw_cursor H d bounds dir =
     (case dir of
        Forward \<Rightarrow> heed_call (h_range H d (fst bounds) (snd bounds))
      | Reverse \<Rightarrow> heed_call (h_rev_range H d (fst bounds) (snd bounds)))"

record decoded_document =
  dd_id :: document_id
  dd_value :: "bytes option"

record 'e document_cursor =
  dc_raw :: "'e raw"
  dc_collection :: collection_id
  dc_ts :: TS
  dc_reverse :: bool
  dc_pending :: "decoded_document option"

definition document_cursor_new ::
  "'e raw \<Rightarrow> collection_id \<Rightarrow> TS \<Rightarrow> bool \<Rightarrow> 'e document_cursor" where
  "document_cursor_new raw cid ts rv =
     \<lparr>dc_raw = raw, dc_collection = cid, dc_ts = ts, dc_reverse = rv, dc_pending = None\<rparr>"

text \<open>The loop of \<open>next_physical\<close>, on the items left in the LMDB iterator.\<close>

fun physical_rows ::
  "collection_id \<Rightarrow> TS \<Rightarrow> ('e raw, 'e storage_error, decoded_document option) act" where
  "physical_rows cid ts [] = (Inr None, [])"
| "physical_rows cid ts (r # raw) =
     (case heed_call r of
        Inl e \<Rightarrow> (Inl e, raw)
      | Inr (key, v) \<Rightarrow>
          (case decode_document_key key of
             Inl e \<Rightarrow> (Inl e, raw)
           | Inr (c, did, version) \<Rightarrow>
               if c \<noteq> cid then (Inr None, raw)
               else if version > ts then physical_rows cid ts raw
               else (case decode_document_value v of
                       Inl e \<Rightarrow> (Inl e, raw)
                     | Inr x \<Rightarrow> (Inr (Some \<lparr>dd_id = did, dd_value = x\<rparr>), raw))))"

definition next_physical ::
  "('e document_cursor, 'e storage_error, decoded_document option) act" where
  "next_physical c =
     (case physical_rows (dc_collection c) (dc_ts c) (dc_raw c) of
        (r, raw) \<Rightarrow> (r, c\<lparr>dc_raw := raw\<rparr>))"

lemma physical_rows_length:
  "physical_rows cid ts raw = (r, raw') \<Longrightarrow>
   length raw' \<le> length raw \<and> (\<forall>row. r = Inr (Some row) \<longrightarrow> length raw' < length raw)"
  by (induction raw) (fastforce split: sum.splits prod.splits if_splits)+

lemma next_physical_length:
  "next_physical c = (r, c') \<Longrightarrow>
   length (dc_raw c') \<le> length (dc_raw c) \<and> dc_pending c' = dc_pending c \<and>
   (\<forall>row. r = Inr (Some row) \<longrightarrow> length (dc_raw c') < length (dc_raw c))"
  by (auto simp: next_physical_def split: prod.splits dest: physical_rows_length)

text \<open>The inner loop of \<open>next\<close>: the other versions of the document.\<close>

function skip_versions ::
  "document_id \<Rightarrow> bytes option \<Rightarrow> ('e document_cursor, 'e storage_error, bytes option) act" where
  "skip_versions did visible c =
     (case next_physical c of
        (Inl e, c') \<Rightarrow> (Inl e, c')
      | (Inr None, c') \<Rightarrow> (Inr visible, c')
      | (Inr (Some row), c') \<Rightarrow>
          if dd_id row \<noteq> did then (Inr visible, c'\<lparr>dc_pending := Some row\<rparr>)
          else skip_versions did (if dc_reverse c then visible else dd_value row) c')"
  by pat_completeness auto
termination
  by (relation "measure (\<lambda>(_, _, c). length (dc_raw c))") (auto dest: next_physical_length[OF sym])

declare skip_versions.simps [simp del]

lemma skip_versions_length:
  "skip_versions did visible c = (r, c') \<Longrightarrow>
   length (dc_raw c') \<le> length (dc_raw c) \<and>
   (dc_pending c' \<noteq> dc_pending c \<longrightarrow> length (dc_raw c') < length (dc_raw c))"
proof (induction did visible c arbitrary: r c' rule: skip_versions.induct)
  case (1 did visible c)
  obtain r1 c1 where n: "next_physical c = (r1, c1)" by force
  note len = next_physical_length[OF n]
  show ?case
  proof (cases "\<exists>row. r1 = Inr (Some row) \<and> dd_id row = did")
    case True
    then obtain row where row: "r1 = Inr (Some row)" "dd_id row = did" by blast
    then have "skip_versions did (if dc_reverse c then visible else dd_value row) c1 = (r, c')"
      using 1(2) n by (simp add: skip_versions.simps[of did visible c])
    then have "length (dc_raw c') \<le> length (dc_raw c1)" using 1(1)[OF n[symmetric]] row by blast
    then show ?thesis using len row by fastforce
  next
    case False
    then show ?thesis
      using 1(2) n len
      by (auto simp: skip_versions.simps[of did visible c] split: sum.splits option.splits if_splits)
  qed
qed

text \<open>\<open>next\<close>: the versions of one document at a time, tombstones skipped.\<close>

definition take_first :: "('e document_cursor, 'e storage_error, decoded_document option) act" where
  "take_first c =
     (case dc_pending c of
        Some row \<Rightarrow> (Inr (Some row), c\<lparr>dc_pending := None\<rparr>)
      | None \<Rightarrow> next_physical c)"

definition dc_size :: "'e document_cursor \<Rightarrow> nat" where
  "dc_size c = length (dc_raw c) + (case dc_pending c of None \<Rightarrow> 0 | Some _ \<Rightarrow> 1)"

lemma take_first_size:
  "take_first c = (Inr (Some row), c') \<Longrightarrow> dc_size c' < dc_size c \<and> dc_pending c' = None"
  by (auto simp: take_first_def dc_size_def split: option.splits dest: next_physical_length)

lemma skip_versions_size:
  "skip_versions did visible c = (r, c') \<Longrightarrow> dc_pending c = None \<Longrightarrow> dc_size c' \<le> dc_size c"
  by (auto simp: dc_size_def split: option.splits dest: skip_versions_length)

lemma document_step_size:
  "take_first c = (Inr (Some row), c1) \<Longrightarrow> skip_versions did v c1 = (r, c2) \<Longrightarrow> dc_size c2 < dc_size c"
  by (metis take_first_size skip_versions_size le_less_trans)

function document_next :: "('e document_cursor, 'e storage_error, document_entry option) act" where
  "document_next c =
     (case take_first c of
        (Inl e, c1) \<Rightarrow> (Inl e, c1)
      | (Inr None, c1) \<Rightarrow> (Inr None, c1)
      | (Inr (Some first), c1) \<Rightarrow>
          (case skip_versions (dd_id first) (dd_value first) c1 of
             (Inl e, c2) \<Rightarrow> (Inl e, c2)
           | (Inr (Some v), c2) \<Rightarrow> (Inr (Some \<lparr>de_id = dd_id first, de_value = v\<rparr>), c2)
           | (Inr None, c2) \<Rightarrow> document_next c2))"
  by pat_completeness auto
termination
  by (relation "measure dc_size") (auto dest: document_step_size[OF sym sym])

declare document_next.simps [simp del]

lemma take_first_le: "take_first c = (r, c') \<Longrightarrow> dc_size c' \<le> dc_size c"
  by (auto simp: take_first_def dc_size_def split: option.splits dest: next_physical_length)

lemma document_next_size:
  "document_next c = (r, c') \<Longrightarrow>
   dc_size c' \<le> dc_size c \<and> (\<forall>x. r = Inr (Some x) \<longrightarrow> dc_size c' < dc_size c)"
proof (induction c arbitrary: r c' rule: document_next.induct)
  case (1 c)
  obtain r1 c1 where t: "take_first c = (r1, c1)" by force
  show ?case
  proof (cases "\<exists>row. r1 = Inr (Some row)")
    case False
    then have "c' = c1" "\<nexists>x. r = Inr (Some x)"
      using 1(2) t by (auto simp: document_next.simps[of c] split: sum.splits option.splits)
    then show ?thesis using take_first_le[OF t] by blast
  next
    case True
    then obtain row where row: "r1 = Inr (Some row)" by blast
    obtain r2 c2 where s: "skip_versions (dd_id row) (dd_value row) c1 = (r2, c2)" by force
    have less: "dc_size c2 < dc_size c" using t s unfolding row by (rule document_step_size)
    show ?thesis
    proof (cases "r2 = Inr None")
      case True
      then have "document_next c2 = (r, c')"
        using 1(2) t s row by (simp add: document_next.simps[of c])
      moreover note 1(1)[OF t[symmetric] row refl s[symmetric] True refl]
      ultimately show ?thesis using less by fastforce
    next
      case False
      then have "c' = c2"
        using 1(2) t s row by (auto simp: document_next.simps[of c] split: sum.splits option.splits)
      then show ?thesis using less by simp
    qed
  qed
qed

lemma progress_document: "progress dc_size (total document_next)"
  unfolding progress_def total_def
proof
  fix c :: "'e document_cursor"
  obtain r c' where "document_next c = (r, c')" by force
  then show "\<exists>r c'. Some (document_next c) = Some (r, c') \<and> dc_size c' \<le> dc_size c \<and>
      (\<forall>x. r = Inr (Some x) \<longrightarrow> dc_size c' < dc_size c)"
    using document_next_size by blast
qed

section \<open>Abstract content\<close>

fun encode_row :: "collection_id \<Rightarrow> document_id \<times> TS \<times> bytes option \<Rightarrow> bytes \<times> bytes" where
  "encode_row c (i, t, w) =
     (encode_document_key c i t,
      case w of None \<Rightarrow> DOCUMENT_TOMBSTONE | Some v \<Rightarrow> encode_document_value v)"

definition row_value :: "bytes \<Rightarrow> bytes option" where
  "row_value b = (if b = DOCUMENT_TOMBSTONE then None else Some (tl b))"

text \<open>Every entry is a version of a document of a stored (not a temporary) collection.\<close>

definition docs_ok :: "(bytes \<times> bytes) list \<Rightarrow> bool" where
  "docs_ok d \<longleftrightarrow> bt_ok d \<and> (\<forall>p \<in> set d. \<exists>c r. p = encode_row c r \<and> 0 \<le> i64_val c)"

definition doc_history ::
  "(bytes \<times> bytes) list \<Rightarrow> collection_id \<Rightarrow> document_id \<Rightarrow> TS \<Rightarrow> bytes option option" where
  "doc_history d c i t = map_option row_value (map_of d (encode_document_key c i t))"

definition doc_visible ::
  "(bytes \<times> bytes) list \<Rightarrow> TS \<Rightarrow> collection_id \<Rightarrow> document_id \<Rightarrow> bytes option" where
  "doc_visible d ts c i =
     (case newest (doc_history d c i) ts of None \<Rightarrow> None | Some w \<Rightarrow> w)"

interpretation doc_rows: versioned
  "\<lambda>(c, i) t. encode_document_key c i t"
  "\<lambda>(c, i) (c', i'). i64_to_be c @ u128_to_be i < i64_to_be c' @ u128_to_be i'"
proof unfold_locales
  fix k k' :: "collection_id \<times> document_id" and t t' :: TS
  obtain c i c' i' where k: "k = (c, i)" "k' = (c', i')" by fastforce
  have "i64_to_be c @ u128_to_be i = i64_to_be c' @ u128_to_be i' \<longleftrightarrow> k = k'" using k by simp
  then show "(case k of (c, i) \<Rightarrow> \<lambda>t. encode_document_key c i t) t
      \<le> (case k' of (c, i) \<Rightarrow> \<lambda>t. encode_document_key c i t) t' \<longleftrightarrow>
    (case k of (c, i) \<Rightarrow> \<lambda>(c', i'). i64_to_be c @ u128_to_be i < i64_to_be c' @ u128_to_be i') k' \<or>
    k = k' \<and> t \<le> t'"
    using lex_append_block_le[of "i64_to_be c @ u128_to_be i" "i64_to_be c' @ u128_to_be i'"
        "u64_to_be t" "u64_to_be t'"] k
    by (simp add: encode_document_key_def order_simps)
qed (auto split: prod.splits)

lemma encode_row_inject [simp]: "encode_row c r = encode_row c' r' \<longleftrightarrow> c = c' \<and> r = r'"
  by (cases r; cases r')
     (auto simp: DOCUMENT_TOMBSTONE_def encode_document_value_def DOCUMENT_VALUE_PREFIX_def
       split: option.splits)

lemma row_value_encode [simp]: "row_value (snd (encode_row c (i, t, w))) = w"
  by (simp add: row_value_def DOCUMENT_TOMBSTONE_def encode_document_value_def
      DOCUMENT_VALUE_PREFIX_def split: option.splits)

lemma docs_ok_bt: "docs_ok d \<Longrightarrow> bt_ok d"
  by (simp add: docs_ok_def)

lemma docs_ok_row:
  assumes "docs_ok d" "p \<in> set d"
  obtains c i t w where "p = encode_row c (i, t, w)" "0 \<le> i64_val c"
  using assms by (fastforce simp: docs_ok_def)

lemma docs_ok_collection:
  assumes "docs_ok d" "(encode_document_key c i t, b) \<in> set d"
  shows "0 \<le> i64_val c"
  using assms by (rule docs_ok_row) simp

lemma doc_history_iff:
  assumes "docs_ok d"
  shows "doc_history d c i t = Some w \<longleftrightarrow> encode_row c (i, t, w) \<in> set d"
proof -
  have "map_of d k = Some b \<longleftrightarrow> (k, b) \<in> set d" for k b
    using bt_ok_map_of[of d k b] docs_ok_bt[OF assms] by simp
  moreover have "\<exists>w. b = snd (encode_row c (i, t, w))" if "(encode_document_key c i t, b) \<in> set d" for b
    using assms that by (rule docs_ok_row) auto
  ultimately show ?thesis
    unfolding doc_history_def map_option_eq_Some by (metis encode_row.simps row_value_encode snd_conv)
qed

section \<open>A read returns the newest version\<close>

lemma newest_doc_history:
  "newest (doc_history d c i) ts = map_option row_value (newest (doc_rows.history d (c, i)) ts)"
  unfolding newest_map[symmetric] doc_history_def doc_rows.history_def by simp

lemma stored_document_visible:
  assumes H: "heed_laws H it dit" and ok: "docs_ok (it d)"
  shows "stored_document H d ts c i = Inr (doc_visible (it d) ts c i)"
proof -
  let ?k = "encode_document_key c i ts"
  note bt = docs_ok_bt[OF ok]
  note get = heed_get_le[OF H, of ?k d]
  show ?thesis
  proof (cases "find (\<lambda>(k', _). k' \<le> ?k) (rev (it d))")
    case None
    then have "newest (doc_rows.history (it d) (c, i)) ts = None"
      by (intro doc_rows.floor_none) simp
    then show ?thesis using None get
      by (simp add: stored_document_def doc_visible_def newest_doc_history)
  next
    case (Some p)
    then have "map_of (it d) (fst p) = Some (snd p)"
      using find_rev_le_Some[OF bt, of ?k "fst p" "snd p"] by simp
    then have "p \<in> set (it d)" by (metis map_of_SomeD prod.collapse)
    from ok this obtain c' i' t w where p: "p = encode_row c' (i', t, w)" by (rule docs_ok_row)
    then obtain b where b: "p = (encode_document_key c' i' t, b)" by simp
    have dec: "decode_document_value b = (Inr w :: 'c storage_error + bytes option)"
      using b p by (cases w) (simp_all, metis decode_document_value_encode(1))
    have row: "row_value b = w" using b p row_value_encode[of c' i' t w] by simp
    show ?thesis
    proof (cases "(c', i') = (c, i)")
      case True
      then have "t \<le> ts \<and> newest (doc_rows.history (it d) (c, i)) ts = Some b"
        using Some b by (intro doc_rows.floor_same[OF bt]) simp
      then show ?thesis using Some get b True dec row
        by (auto simp: stored_document_def doc_visible_def newest_doc_history)
    next
      case False
      then have "newest (doc_rows.history (it d) (c, i)) ts = None"
        using Some b by (intro doc_rows.floor_other[OF bt, of "(c, i)" ts "(c', i')" t b]) simp_all
      then show ?thesis using Some get b False
        by (auto simp: stored_document_def doc_visible_def newest_doc_history)
    qed
  qed
qed

section \<open>The rows of a scan\<close>

text \<open>The loops of the cursor, on rows that decode.\<close>

fun doc_of :: "document_id \<times> TS \<times> bytes option \<Rightarrow> decoded_document" where
  "doc_of (i, t, w) = \<lparr>dd_id = i, dd_value = w\<rparr>"

abbreviation upto_ts :: "TS \<Rightarrow> document_id \<times> TS \<times> bytes option \<Rightarrow> bool" where
  "upto_ts ts \<equiv> \<lambda>(i, t, w). t \<le> ts"

lemma decode_row:
  "decode_document_key (fst (encode_row c (i, t, w))) = Inr (c, i, t)"
  "decode_document_value (snd (encode_row c (i, t, w))) = Inr w"
  by (auto split: option.splits)

lemma physical_rows_encoded:
  "physical_rows c ts (map Inr (map (encode_row c) rows)) =
     (case dropWhile (\<lambda>(i, t, w). ts < t) rows of
        [] \<Rightarrow> (Inr None, [])
      | r # rest \<Rightarrow> (Inr (Some (doc_of r)), map Inr (map (encode_row c) rest)))"
proof (induction rows)
  case (Cons r rows)
  obtain i t w where r: "r = (i, t, w)" by (cases r)
  then show ?case using Cons decode_row(2)[of c i t w] by (cases w) simp_all
qed simp

text \<open>Rows still to be read; the pending row is the first of them.\<close>

definition physical :: "('e document_cursor, 'e, decoded_document) cursor" where
  "physical = total next_physical"

lemma yields_physical:
  assumes "dc_raw c = map Inr (map (encode_row (dc_collection c)) rows)"
  shows "yields physical c (map doc_of (filter (upto_ts (dc_ts c)) rows))"
  using assms
proof (induction "length rows" arbitrary: rows c rule: less_induct)
  case less
  define rest where "rest = dropWhile (\<lambda>(i, t, w). dc_ts c < t) rows"
  have f: "filter (upto_ts (dc_ts c)) rows = filter (upto_ts (dc_ts c)) rest"
    unfolding rest_def by (induction rows) auto
  have step: "physical_rows (dc_collection c) (dc_ts c) (dc_raw c) =
     (case rest of
        [] \<Rightarrow> (Inr None, [])
      | r # rest \<Rightarrow> (Inr (Some (doc_of r)), map Inr (map (encode_row (dc_collection c)) rest)))"
    unfolding less.prems rest_def by (rule physical_rows_encoded)
  show ?case
  proof (cases rest)
    case Nil
    have "yields physical c []"
      using step less.prems Nil
      by (intro yields_end[where c' = "c\<lparr>dc_raw := []\<rparr>"])
        (simp_all add: physical_def total_def next_physical_def)
    then show ?thesis using f Nil by simp
  next
    case (Cons r rest')
    have len: "length rest' < length rows"
      using Cons length_dropWhile_le[of "\<lambda>(i, t, w). dc_ts c < t" rows] by (simp add: rest_def)
    have "upto_ts (dc_ts c) r"
      using Cons hd_dropWhile[of "\<lambda>(i, t, w). dc_ts c < t" rows] by (auto simp: rest_def)
    moreover have "physical c = Some (Inr (Some (doc_of r)),
        c\<lparr>dc_raw := map Inr (map (encode_row (dc_collection c)) rest')\<rparr>)"
      using step less.prems Cons by (simp add: physical_def total_def next_physical_def)
    ultimately show ?thesis
      using f Cons less.hyps[OF len, of "c\<lparr>dc_raw := map Inr (map (encode_row (dc_collection c)) rest')\<rparr>"]
      by (simp add: yields_item)
  qed
qed

lemma physical_pending: "physical (c\<lparr>dc_pending := x\<rparr>) =
    (case physical c of None \<Rightarrow> None | Some (r, c') \<Rightarrow> Some (r, c'\<lparr>dc_pending := x\<rparr>))"
  by (simp add: physical_def total_def next_physical_def split: prod.splits)

lemma yields_physical_pending: "yields physical c ps \<Longrightarrow> yields physical (c\<lparr>dc_pending := x\<rparr>) ps"
proof (induction rule: yields.induct)
  case (yields_end c c')
  then show ?case
    by (intro yields.yields_end[where c' = "c'\<lparr>dc_pending := x\<rparr>"]) (simp_all add: physical_pending)
next
  case (yields_item c p c' ps)
  then show ?case
    by (intro yields.yields_item[where c' = "c'\<lparr>dc_pending := x\<rparr>"]) (simp_all add: physical_pending)
qed

lemma physical_reverse: "physical c = Some (r, c') \<Longrightarrow> dc_reverse c' = dc_reverse c"
  by (auto simp: physical_def total_def next_physical_def split: prod.splits)

definition rows_left :: "'e document_cursor \<Rightarrow> decoded_document list \<Rightarrow> bool" where
  "rows_left c ps \<longleftrightarrow>
     (case dc_pending c of
        None \<Rightarrow> yields physical c ps
      | Some p \<Rightarrow> ps \<noteq> [] \<and> hd ps = p \<and> yields physical (c\<lparr>dc_pending := None\<rparr>) (tl ps))"

lemma take_first_end:
  assumes "rows_left c []"
  obtains c' where "take_first c = (Inr None, c')" "take_first c' = (Inr None, c')"
proof -
  have n: "dc_pending c = None" and "yields physical c []"
    using assms by (auto simp: rows_left_def split: option.splits)
  then obtain c' where c': "next_physical c = (Inr None, c')" "next_physical c' = (Inr None, c')"
    by (auto simp: physical_def total_def elim: yields_NilE)
  then show thesis
    using that[of c'] n next_physical_length[OF c'(1)] by (simp add: take_first_def)
qed

lemma take_first_row:
  assumes "rows_left c (p # ps)"
  obtains c' where "take_first c = (Inr (Some p), c')" "dc_pending c' = None"
    "yields physical c' ps" "dc_reverse c' = dc_reverse c"
proof (cases "dc_pending c")
  case None
  then have "yields physical c (p # ps)" using assms by (simp add: rows_left_def)
  then obtain c' where c': "physical c = Some (Inr (Some p), c')" "yields physical c' ps"
    by (rule yields_ConsE)
  then have "next_physical c = (Inr (Some p), c')" by (simp add: physical_def total_def)
  then show thesis
    using that[of c'] None c' next_physical_length physical_reverse[OF c'(1)]
    by (metis option.simps(4) take_first_def)
next
  case (Some q)
  then show thesis using assms that by (simp add: rows_left_def take_first_def)
qed

text \<open>The inner loop reads the other rows of the document; the row after them becomes pending.\<close>

lemma skip_versions_rows:
  assumes "yields physical c ps" "dc_pending c = None"
  shows "\<exists>c'. skip_versions did v c =
      (Inr (last (v # (if dc_reverse c then [] else
         map dd_value (takeWhile (\<lambda>q. dd_id q = did) ps)))), c') \<and>
    rows_left c' (dropWhile (\<lambda>q. dd_id q = did) ps) \<and> dc_reverse c' = dc_reverse c"
  using assms
proof (induction arbitrary: v rule: yields.induct)
  case (yields_end c c')
  then have n: "next_physical c = (Inr None, c')" "yields physical c' []"
    by (auto simp: physical_def total_def intro: yields.yields_end)
  then show ?case
    using yields_end.prems next_physical_length[OF n(1)] physical_reverse[OF yields_end.hyps(1)]
    by (simp add: skip_versions.simps rows_left_def)
next
  case (yields_item c p c' ps)
  then have n: "next_physical c = (Inr (Some p), c')" by (simp add: physical_def total_def)
  have pn: "dc_pending c' = None" using next_physical_length[OF n] yields_item.prems by simp
  note rv = physical_reverse[OF yields_item.hyps(1)]
  show ?case
  proof (cases "dd_id p = did")
    case True
    then have "skip_versions did v c = skip_versions did (if dc_reverse c then v else dd_value p) c'"
      using n by (simp add: skip_versions.simps[of did v c])
    then show ?thesis using yields_item.IH[OF pn, of "if dc_reverse c then v else dd_value p"] True rv
      by (auto split: if_splits)
  next
    case False
    have "c'\<lparr>dc_pending := None\<rparr> = c'" using pn by (cases c') simp
    then have "rows_left (c'\<lparr>dc_pending := Some p\<rparr>) (p # ps)"
      using yields_item.hyps(2) by (simp add: rows_left_def)
    then show ?thesis using False n rv by (simp add: skip_versions.simps[of did v c])
  qed
qed

text \<open>What a scan returns: per document the last row (the first, in reverse), unless a tombstone.\<close>

function collapse :: "bool \<Rightarrow> decoded_document list \<Rightarrow> document_entry list" where
  "collapse rv [] = []"
| "collapse rv (p # ps) =
     (case last (dd_value p # (if rv then [] else
         map dd_value (takeWhile (\<lambda>q. dd_id q = dd_id p) ps))) of
        None \<Rightarrow> []
      | Some v \<Rightarrow> [\<lparr>de_id = dd_id p, de_value = v\<rparr>]) @
     collapse rv (dropWhile (\<lambda>q. dd_id q = dd_id p) ps)"
  by pat_completeness auto
termination
  by (relation "measure (\<lambda>(_, ps). length ps)") (auto simp: le_imp_less_Suc length_dropWhile_le)

lemma yields_document:
  "rows_left c ps \<Longrightarrow> yields (total document_next) c (collapse (dc_reverse c) ps)"
proof (induction "length ps" arbitrary: c ps rule: less_induct)
  case less
  show ?case
  proof (cases ps)
    case Nil
    with less.prems obtain c' where "take_first c = (Inr None, c')" "take_first c' = (Inr None, c')"
      by (auto elim: take_first_end)
    then show ?thesis using Nil
      by (auto intro!: yields_end[where c' = c'] simp: total_def document_next.simps)
  next
    case (Cons p qs)
    with less.prems obtain c1 where c1: "take_first c = (Inr (Some p), c1)" "dc_pending c1 = None"
      "yields physical c1 qs" "dc_reverse c1 = dc_reverse c" by (auto elim: take_first_row)
    let ?rest = "dropWhile (\<lambda>q. dd_id q = dd_id p) qs"
    define v where "v = last (dd_value p # (if dc_reverse c then [] else
      map dd_value (takeWhile (\<lambda>q. dd_id q = dd_id p) qs)))"
    obtain c2 where c2: "skip_versions (dd_id p) (dd_value p) c1 = (Inr v, c2)"
      "rows_left c2 ?rest" "dc_reverse c2 = dc_reverse c"
      using skip_versions_rows[OF c1(3,2), of "dd_id p" "dd_value p"] c1(4) v_def by auto
    have "length ?rest < length ps"
      using Cons length_dropWhile_le[of _ qs] by (simp add: le_imp_less_Suc)
    from less.hyps[OF this c2(2)] c2(3)
    have rest: "yields (total document_next) c2 (collapse (dc_reverse c) ?rest)" by simp
    show ?thesis
    proof (cases v)
      case None
      then have "total document_next c = total document_next c2"
        using c1 c2 by (simp add: total_def document_next.simps[of c])
      then show ?thesis using rest Cons None yields_prefix by (fastforce simp: v_def)
    next
      case (Some x)
      then have "total document_next c = Some (Inr (Some \<lparr>de_id = dd_id p, de_value = x\<rparr>), c2)"
        using c1 c2 by (simp add: total_def document_next.simps[of c])
      then show ?thesis using rest Cons Some by (auto simp: v_def intro: yields_item)
    qed
  qed
qed

text \<open>On rows in cursor order, that is the newest row of every document.\<close>

definition rows_in_order :: "direction \<Rightarrow> (document_id \<times> TS \<times> bytes option) list \<Rightarrow> bool" where
  "rows_in_order dir =
     sorted_wrt (\<lambda>(i, t, _) (i', t', _). before dir i i' \<or> i = i' \<and> before dir t t')"

definition newest_in :: "(document_id \<times> TS \<times> bytes option) list \<Rightarrow> document_id \<Rightarrow> bytes option \<Rightarrow> bool" where
  "newest_in rows i w \<longleftrightarrow> (\<exists>t. (i, t, w) \<in> set rows \<and> (\<forall>t' w'. (i, t', w') \<in> set rows \<longrightarrow> t' \<le> t))"

lemma newest_in_block:
  assumes "rows_in_order dir ((i, t, w) # same)" "\<forall>(j, _) \<in> set same. j = i"
  shows "newest_in ((i, t, w) # same) i w' \<longleftrightarrow>
    w' = last (w # (if dir = Reverse then [] else map (\<lambda>(_, _, w). w) same))"
proof -
  obtain t0 w0 where last: "(i, t0, w0) = (if dir = Reverse then (i, t, w) else last ((i, t, w) # same))"
  proof -
    obtain j t0 w0 where l: "last ((i, t, w) # same) = (j, t0, w0)" by (metis prod_cases3)
    then have "(j, t0, w0) \<in> set ((i, t, w) # same)" using last_in_set[of "(i, t, w) # same"] by simp
    then have "j = i" using assms(2) by auto
    then show ?thesis using that[of t w] that[of t0 w0] l by (cases "dir = Reverse") simp_all
  qed
  have top: "t' \<le> t0 \<and> (t' = t0 \<longrightarrow> w' = w0)" if "(i, t', w') \<in> set ((i, t, w) # same)" for t' w'
  proof (cases dir)
    case Reverse
    then show ?thesis using that last assms(1) by (auto simp: rows_in_order_def)
  next
    case Forward
    let ?b = "(i, t, w) # same"
    have "?b = butlast ?b @ [(i, t0, w0)]" using last Forward append_butlast_last_id[of ?b] by simp
    then have "rows_in_order dir (butlast ?b @ [(i, t0, w0)])" "(i, t', w') \<in> set (butlast ?b @ [(i, t0, w0)])"
      using assms(1) that by metis+
    then show ?thesis using Forward by (auto simp: rows_in_order_def sorted_wrt_append)
  qed
  have mem: "(i, t0, w0) \<in> set ((i, t, w) # same)" using last by (auto split: if_splits)
  have "w0 = last (w # (if dir = Reverse then [] else map (\<lambda>(_, _, w). w) same))"
    using last by (cases same rule: rev_cases) (auto split: if_splits)
  moreover have "newest_in ((i, t, w) # same) i w' \<longleftrightarrow> w' = w0"
    using top mem unfolding newest_in_def by (metis antisym)
  ultimately show ?thesis by simp
qed

lemma collapse_spec:
  assumes "rows_in_order dir rows"
  shows "in_order de_id dir (collapse (dir = Reverse) (map doc_of rows)) \<and>
    set (collapse (dir = Reverse) (map doc_of rows)) =
      {e. newest_in rows (de_id e) (Some (de_value e))}"
  using assms
proof (induction "length rows" arbitrary: rows rule: less_induct)
  case less
  show ?case
  proof (cases rows)
    case Nil
    then show ?thesis by (simp add: newest_in_def)
  next
    case (Cons r rs)
    obtain i t w where r: "r = (i, t, w)" by (cases r)
    let ?is = "\<lambda>(j, _ :: TS, _ :: bytes option). j = i"
    define same rest where "same = takeWhile ?is rs" and "rest = dropWhile ?is rs"
    have rows: "rows = (i, t, w) # same @ rest" using Cons r by (simp add: same_def rest_def)
    have maps: "takeWhile (\<lambda>q. dd_id q = i) (map doc_of rs) = map doc_of same"
      "dropWhile (\<lambda>q. dd_id q = i) (map doc_of rs) = map doc_of rest"
      by (auto simp: same_def rest_def takeWhile_map dropWhile_map o_def
          intro!: arg_cong[where f = "\<lambda>P. map doc_of (takeWhile P rs)"]
            arg_cong[where f = "\<lambda>P. map doc_of (dropWhile P rs)"])
    have ord: "rows_in_order dir ((i, t, w) # same)" "rows_in_order dir rest"
      using less.prems rows by (auto simp: rows_in_order_def sorted_wrt_append)
    have ids: "\<forall>(j, _) \<in> set same. j = i" by (auto simp: same_def dest: set_takeWhileD)
    have later: "before dir i j" if "(j, t', w') \<in> set rest" for j t' w'
    proof (cases rest)
      case Nil
      then show ?thesis using that by simp
    next
      case (Cons h rest')
      obtain jh th wh where h: "h = (jh, th, wh)" by (cases h)
      have "jh \<noteq> i" using Cons h hd_dropWhile[of ?is rs] by (auto simp: rest_def)
      then have ih: "before dir i jh" using less.prems rows Cons h by (auto simp: rows_in_order_def)
      have "j = jh \<or> before dir jh j" using that ord(2) Cons h by (auto simp: rows_in_order_def)
      then show ?thesis using ih before_trans by blast
    qed
    have IH: "in_order de_id dir (collapse (dir = Reverse) (map doc_of rest))"
      "set (collapse (dir = Reverse) (map doc_of rest)) = {e. newest_in rest (de_id e) (Some (de_value e))}"
      using less.hyps[of rest] ord(2) rows by auto
    have inrest: "(j, t', w') \<in> set rows \<longleftrightarrow> (j, t', w') \<in> set rest" if "j \<noteq> i" for j t' w'
      using that ids rows by auto
    have iout: "(i, t', w') \<notin> set rest" for t' w' using later[of i t' w'] by auto
    then have iin: "(i, t', w') \<in> set rows \<longleftrightarrow> (i, t', w') \<in> set ((i, t, w) # same)" for t' w'
      using rows by simp
    have other: "newest_in rows j x \<longleftrightarrow> newest_in rest j x" if "j \<noteq> i" for j x
      unfolding newest_in_def inrest[OF that] ..
    have notin: "\<not> newest_in rest i x" for x
      unfolding newest_in_def using iout by blast
    have blk: "newest_in rows i x \<longleftrightarrow> newest_in ((i, t, w) # same) i x" for x
      unfolding newest_in_def iin ..
    have m: "map (dd_value \<circ> doc_of) same = map (\<lambda>(_, _, w). w) same" by auto
    define v where "v = last (w # (if dir = Reverse then [] else map (\<lambda>(_, _, w). w) same))"
    have col: "collapse (dir = Reverse) (map doc_of rows) =
        (case v of None \<Rightarrow> [] | Some x \<Rightarrow> [\<lparr>de_id = i, de_value = x\<rparr>]) @
        collapse (dir = Reverse) (map doc_of rest)"
      using Cons r maps by (simp add: v_def m cong: option.case_cong)
    have head: "newest_in rows i x \<longleftrightarrow> x = v" for x
      using blk newest_in_block[OF ord(1) ids, of x] v_def by simp
    have after_i: "before dir i (de_id e)"
      if "e \<in> set (collapse (dir = Reverse) (map doc_of rest))" for e
      using that IH(2) later unfolding newest_in_def by auto
    have split: "{e :: document_entry. newest_in rows (de_id e) (Some (de_value e))} =
        {e. de_id e = i \<and> v = Some (de_value e)} \<union> {e. newest_in rest (de_id e) (Some (de_value e))}"
    proof (rule set_eqI)
      fix e :: document_entry
      show "e \<in> {e. newest_in rows (de_id e) (Some (de_value e))} \<longleftrightarrow>
        e \<in> {e. de_id e = i \<and> v = Some (de_value e)} \<union> {e. newest_in rest (de_id e) (Some (de_value e))}"
        using head[of "Some (de_value e)"] other[of "de_id e" "Some (de_value e)"] notin
        by (cases "de_id e = i") auto
    qed
    show ?thesis
    proof (cases v)
      case None
      then show ?thesis using IH col split by simp
    next
      case (Some x)
      have "{e :: document_entry. de_id e = i \<and> v = Some (de_value e)} = {\<lparr>de_id = i, de_value = x\<rparr>}"
        using Some by auto
      then have "set (collapse (dir = Reverse) (map doc_of rows)) =
          {e. newest_in rows (de_id e) (Some (de_value e))}"
        unfolding split col using IH(2) Some by simp
      moreover have "in_order de_id dir (collapse (dir = Reverse) (map doc_of rows))"
        unfolding col using IH(1) Some after_i by simp
      ultimately show ?thesis by blast
    qed
  qed
qed

section \<open>A scan returns the visible documents in order\<close>

text \<open>The range of a collection holds the keys that start with its id, whatever follows it.\<close>

lemma collection_prefix_row:
  assumes "0 \<le> i64_val c" "0 \<le> i64_val c'"
  shows "encode_collection_prefix c \<le> i64_to_be c' @ x \<longleftrightarrow> c \<le> c'"
    and "i64_to_be c' @ x < encode_collection_prefix c \<longleftrightarrow> c' < c"
proof -
  show "encode_collection_prefix c \<le> i64_to_be c' @ x \<longleftrightarrow> c \<le> c'"
    using lex_append_block_le[of "i64_to_be c" "i64_to_be c'" "[]" x] assms
    by (simp add: encode_collection_prefix_def order_simps le_less)
  then show "i64_to_be c' @ x < encode_collection_prefix c \<longleftrightarrow> c' < c"
    by (metis not_le)
qed

lemma collection_prefix_le:
  assumes "0 \<le> i64_val c" "0 \<le> i64_val c'"
  shows "encode_collection_prefix c \<le> encode_document_key c' i t \<longleftrightarrow> c \<le> c'"
  by (simp only: encode_document_key_def collection_prefix_row[OF assms])

lemma i64_checked_succ_Some:
  assumes "i64_checked_succ c = Some c'" "0 \<le> i64_val c"
  shows "i64_val c' = i64_val c + 1"
proof -
  have "i64_val c \<noteq> 2 ^ 63 - 1" "c' = I64 (i64_bits c + 1)"
    using assms(1) by (auto simp: i64_checked_succ_def split: if_splits)
  moreover have "i64_val c < 2 ^ 63" using sint_lt[of "i64_bits c"] by (simp add: i64_val_def)
  ultimately have "c' = I64 (i64_bits c + 1)" "i64_val c + 1 < 2 ^ 63" by auto
  moreover have "sint (i64_bits c + 1) = sint (i64_bits c) + 1"
    if "sint (i64_bits c) + 1 < 2 ^ 63" "0 \<le> sint (i64_bits c)"
    using that signed_take_bit_int_eq_self[of 63 "sint (i64_bits c) + 1"]
    by (simp add: sint_word_ariths)
  ultimately show ?thesis using assms(2) by (simp add: i64_val_def)
qed

lemma collection_end_row:
  assumes "0 \<le> i64_val c" "0 \<le> i64_val c'"
  shows "below_bound (collection_end_bound c) (i64_to_be c' @ x) \<longleftrightarrow> c' \<le> c"
proof (cases "i64_checked_succ c")
  case None
  then have "i64_val c = 2 ^ 63 - 1" by (simp add: i64_checked_succ_def split: if_splits)
  moreover have "i64_val c' < 2 ^ 63" using sint_lt[of "i64_bits c'"] by (simp add: i64_val_def)
  ultimately show ?thesis using None by (simp add: collection_end_bound_def less_eq_i64_def)
next
  case (Some s)
  then have "i64_val s = i64_val c + 1" using assms i64_checked_succ_Some by blast
  then show ?thesis using Some assms collection_prefix_row(2)[of s c' x]
    by (simp add: collection_end_bound_def less_eq_i64_def less_i64_def)
qed

lemma collection_end_above:
  assumes "0 \<le> i64_val c" "0 \<le> i64_val c'"
  shows "below_bound (collection_end_bound c) (encode_document_key c' i t) \<longleftrightarrow> c' \<le> c"
  by (simp only: encode_document_key_def collection_end_row[OF assms])

text \<open>A temporary collection has a negative id, whose keys lie above those of stored ones.\<close>

lemma temporary_above:
  assumes "i64_val c < 0" "0 \<le> i64_val c'"
  shows "i64_to_be c' @ y < i64_to_be c @ x"
  using i64_to_be_less_negative[OF assms(2,1)] by (simp add: lex_append_block)

lemma document_key_le_iff:
  assumes "0 \<le> i64_val c" "0 \<le> i64_val c'"
  shows "encode_document_key c i t \<le> encode_document_key c' i' t' \<longleftrightarrow>
    c < c' \<or> c = c' \<and> (i < i' \<or> i = i' \<and> t \<le> t')"
  using document_key_order.encode_le[of "(c, i, t)" "(c', i', t')"] assms by auto

lemma document_bounds_stored:
  assumes "0 \<le> i64_val c" "0 \<le> i64_val c'"
  shows "in_range (fst (document_cursor_bounds c start dir)) (snd (document_cursor_bounds c start dir))
      (encode_document_key c' i t) \<longleftrightarrow> c' = c \<and> accepts_start i start dir"
proof -
  have less: "encode_document_key c i t < encode_document_key c' i' t' \<longleftrightarrow>
      c < c' \<or> c = c' \<and> (i < i' \<or> i = i' \<and> t < t')"
    if "0 \<le> i64_val c" "0 \<le> i64_val c'" for c c' i i' t t'
    using document_key_order.encode_less[of "(c, i, t)" "(c', i', t')"] that by auto
  note le = document_key_le_iff[OF assms] document_key_le_iff[OF assms(2,1)]
    less[OF assms] less[OF assms(2,1)] collection_prefix_le[OF assms] collection_end_above[OF assms]
  have max: "\<not> (- 1 :: u64) < t" by (simp add: not_less)
  show ?thesis
    by (cases dir; cases start)
      (auto simp: document_cursor_bounds_def in_range_def le max not_less)
qed

text \<open>The range of a temporary collection, whose id is negative, lies above all stored keys.\<close>

lemma document_bounds_temporary:
  assumes "i64_val c < 0" "0 \<le> i64_val c'"
  shows "\<not> in_range (fst (document_cursor_bounds c start dir))
     (snd (document_cursor_bounds c start dir)) (encode_document_key c' i t)"
proof -
  let ?k = "encode_document_key c' i t"
  have above: "?k < i64_to_be c @ x" for x
    using temporary_above[OF assms] by (simp add: encode_document_key_def)
  have 1: "\<not> encode_collection_prefix c \<le> ?k"
    using above[of "[]"] by (simp add: encode_collection_prefix_def not_le)
  have 2: "?k < encode_document_key c d v" for d v
    using above[of "u128_to_be d @ u64_to_be v"] by (simp add: encode_document_key_def[of c])
  have 3: "\<not> encode_document_key c d v \<le> ?k" "\<not> encode_document_key c d v < ?k" for d v
    using 2[of d v] by (simp_all add: not_le less_not_sym)
  show ?thesis
    by (cases dir; cases start) (simp_all add: document_cursor_bounds_def in_range_def 1 3)
qed

lemma document_bounds:
  assumes "0 \<le> i64_val c'"
  shows "in_range (fst (document_cursor_bounds c start dir)) (snd (document_cursor_bounds c start dir))
      (encode_document_key c' i t) \<longleftrightarrow> c' = c \<and> accepts_start i start dir"
  using document_bounds_stored[OF _ assms] document_bounds_temporary[OF _ assms] assms
  by (cases "0 \<le> i64_val c") (auto simp: not_le)

lemma legal_document_bounds:
  "legal_bound (fst (document_cursor_bounds c start dir))"
  "legal_bound (snd (document_cursor_bounds c start dir))"
  by (cases dir; cases start;
      simp add: document_cursor_bounds_def collection_end_bound_def encode_collection_prefix_def
        split: option.splits)+

text \<open>The stored part of \<open>get_cursor\<close>: the cursor over the documents database.\<close>

definition stored_document_cursor ::
  "('d, 'l, 'e) heed \<Rightarrow> 'd \<Rightarrow> TS \<Rightarrow> collection_id \<Rightarrow> document_id cursor_start \<Rightarrow> direction \<Rightarrow>
   'e storage_error + 'e document_cursor" where
  "stored_document_cursor H d ts cid start dir =
     and_then (raw_cursor H d (document_cursor_bounds cid start dir) dir) (\<lambda>raw.
       Inr (document_cursor_new raw cid ts (dir = Reverse)))"

lemma encode_rows_list:
  "(\<And>p. p \<in> set ps \<Longrightarrow> \<exists>r. p = encode_row c r) \<Longrightarrow> \<exists>rows. ps = map (encode_row c) rows"
proof (induction ps)
  case (Cons p ps)
  obtain r where "p = encode_row c r" using Cons.prems[of p] by auto
  moreover obtain rows where "ps = map (encode_row c) rows"
    using Cons.IH Cons.prems by (metis list.set_intros(2))
  ultimately have "p # ps = map (encode_row c) (r # rows)" by simp
  then show ?case by (rule exI)
qed simp

lemma rows_in_order_Forward:
  "sorted_wrt (<) (map fst (map (encode_row c) rows)) \<longleftrightarrow> rows_in_order Forward rows"
  by (induction rows) (auto simp: rows_in_order_def order_simps)

lemma rows_in_order_rev: "rows_in_order Reverse (rev rows) \<longleftrightarrow> rows_in_order Forward rows"
  unfolding rows_in_order_def sorted_wrt_rev
  by (rule arg_cong[where f = "\<lambda>R. sorted_wrt R rows"]) (auto simp: fun_eq_iff)

lemma in_scan_range:
  fixes c :: collection_id and start :: "document_id cursor_start" and dir :: direction
  assumes ok: "docs_ok d"
  defines "bounds \<equiv> document_cursor_bounds c start dir"
  obtains rows where
    "filter (\<lambda>(k, _). in_range (fst bounds) (snd bounds) k) d = map (encode_row c) rows"
    "rows_in_order Forward rows"
    "\<And>i t w. (i, t, w) \<in> set rows \<longleftrightarrow> doc_history d c i t = Some w \<and> accepts_start i start dir"
proof -
  let ?ps = "filter (\<lambda>(k, _). in_range (fst bounds) (snd bounds) k) d"
  have range: "in_range (fst bounds) (snd bounds) (encode_document_key c' i t) \<longleftrightarrow>
      c' = c \<and> accepts_start i start dir" if "0 \<le> i64_val c'" for c' i t
    unfolding bounds_def by (rule document_bounds[OF that])
  have "\<exists>r. p = encode_row c r" if "p \<in> set ?ps" for p
  proof -
    from that have p: "p \<in> set d" "in_range (fst bounds) (snd bounds) (fst p)" by auto
    from ok p(1) obtain c' i t w where "p = encode_row c' (i, t, w)" "0 \<le> i64_val c'"
      by (rule docs_ok_row)
    then show ?thesis using p(2) range[of c' i t] by auto
  qed
  then obtain rows where rows: "?ps = map (encode_row c) rows" using encode_rows_list by blast
  have "sorted_wrt (<) (map fst ?ps)"
    using bt_ok_filter[OF docs_ok_bt[OF ok]] by (simp add: bt_ok_def)
  then have "rows_in_order Forward rows" unfolding rows by (simp only: rows_in_order_Forward)
  moreover have "(i, t, w) \<in> set rows \<longleftrightarrow> doc_history d c i t = Some w \<and> accepts_start i start dir"
    for i t w
  proof -
    have "(i, t, w) \<in> set rows \<longleftrightarrow> encode_row c (i, t, w) \<in> set ?ps"
      unfolding rows by (auto simp del: encode_row.simps)
    also have "\<dots> \<longleftrightarrow> encode_row c (i, t, w) \<in> set d \<and> accepts_start i start dir"
      using range[of c i t] docs_ok_collection[OF ok] by auto
    finally show ?thesis using doc_history_iff[OF ok] by simp
  qed
  ultimately show thesis using that rows by blast
qed

lemma newest_in_visible:
  assumes "\<And>i t w. (i, t, w) \<in> set rows \<longleftrightarrow> doc_history d c i t = Some w \<and> P i"
  shows "newest_in (filter (upto_ts ts) rows) i (Some v) \<longleftrightarrow> doc_visible d ts c i = Some v \<and> P i"
proof -
  have "newest_in (filter (upto_ts ts) rows) i (Some v) \<longleftrightarrow>
      newest (doc_history d c i) ts = Some (Some v) \<and> P i"
    unfolding newest_in_def newest_Some using assms by auto
  then show ?thesis by (auto simp: doc_visible_def split: option.splits)
qed

theorem stored_document_cursor_scan:
  fixes H :: "('d, 'l, 'e) heed"
  assumes H: "heed_laws H it dit" and ok: "docs_ok (it d)"
  obtains cur xs where "stored_document_cursor H d ts cid start dir = Inr cur"
    "yields (total document_next) cur xs" "in_order de_id dir xs"
    "set xs = {e. doc_visible (it d) ts cid (de_id e) = Some (de_value e) \<and>
       accepts_start (de_id e) start dir}"
proof -
  let ?b = "document_cursor_bounds cid start dir"
  obtain rows where rows:
    "filter (\<lambda>(k, _). in_range (fst ?b) (snd ?b) k) (it d) = map (encode_row cid) rows"
    "rows_in_order Forward rows"
    "\<And>i t w. (i, t, w) \<in> set rows \<longleftrightarrow> doc_history (it d) cid i t = Some w \<and> accepts_start i start dir"
    by (rule in_scan_range[OF ok, where start = start and dir = dir]) (rule that)
  define rs where "rs = (if dir = Reverse then rev rows else rows)"
  define cur :: "'e document_cursor" where "cur = document_cursor_new (map Inr (map (encode_row cid) rs)) cid ts (dir = Reverse)"
  have "raw_cursor H d ?b dir = Inr (map Inr (map (encode_row cid) rs))"
    using heed_range[OF H, of "fst ?b" "snd ?b" d] heed_rev_range[OF H, of "fst ?b" "snd ?b" d]
      legal_document_bounds[of cid start dir] rows(1)
    by (cases dir) (simp_all add: raw_cursor_def rs_def rev_map)
  then have 1: "stored_document_cursor H d ts cid start dir = Inr cur"
    by (simp add: stored_document_cursor_def cur_def)
  define ps where "ps = filter (upto_ts ts) rs"
  have "yields physical cur (map doc_of ps)"
    using yields_physical[of cur rs] by (simp add: cur_def document_cursor_new_def ps_def)
  then have "rows_left cur (map doc_of ps)"
    by (simp add: rows_left_def cur_def document_cursor_new_def)
  then have 2: "yields (total document_next) cur (collapse (dir = Reverse) (map doc_of ps))"
    using yields_document by (fastforce simp: cur_def document_cursor_new_def)
  have "rows_in_order dir rs"
    using rows(2) by (cases dir) (simp_all add: rs_def rows_in_order_rev)
  then have "rows_in_order dir ps"
    by (simp add: rows_in_order_def ps_def sorted_wrt_filter)
  from collapse_spec[OF this]
  have 3: "in_order de_id dir (collapse (dir = Reverse) (map doc_of ps))"
    "set (collapse (dir = Reverse) (map doc_of ps)) = {e. newest_in ps (de_id e) (Some (de_value e))}"
    by blast+
  have "\<And>i t w. (i, t, w) \<in> set rs \<longleftrightarrow> doc_history (it d) cid i t = Some w \<and> accepts_start i start dir"
    using rows(3) by (simp add: rs_def)
  from newest_in_visible[OF this] 3(2)
  have "set (collapse (dir = Reverse) (map doc_of ps)) =
      {e. doc_visible (it d) ts cid (de_id e) = Some (de_value e) \<and> accepts_start (de_id e) start dir}"
    by (simp add: ps_def)
  with 1 2 3(1) show thesis using that by blast
qed

end
