(* ===== verification/Engine.thy ===== *)
theory Engine
  imports Index_Trie Documents Write_Set
begin

text \<open>
  \<open>HeedStorageEngine\<close> (\<open>implementations/heed/datastore.rs\<close>): opening, the catalogs, the two
  timestamps and \<open>put\<close>, which applies a batch in one write transaction. The last sections show
  what a batch does to the documents and to the indexes, that a stale batch changes nothing, that
  the timestamp never goes back, and what a failed commit leaves behind.
\<close>

definition METADATA_TS_KEY :: bytes where "METADATA_TS_KEY = [0x00]"
definition METADATA_INDEX_CHAIN_ID_KEY :: bytes where "METADATA_INDEX_CHAIN_ID_KEY = [0x01]"
definition METADATA_COLLECTION_ID_KEY :: bytes where "METADATA_COLLECTION_ID_KEY = [0x02]"
definition METADATA_INDEX_ID_KEY :: bytes where "METADATA_INDEX_ID_KEY = [0x03]"
definition METADATA_VISIBLE_TS_KEY :: bytes where "METADATA_VISIBLE_TS_KEY = [0x04]"

lemmas metadata_keys = METADATA_TS_KEY_def METADATA_INDEX_CHAIN_ID_KEY_def
  METADATA_COLLECTION_ID_KEY_def METADATA_INDEX_ID_KEY_def METADATA_VISIBLE_TS_KEY_def

section \<open>Opening\<close>

text \<open>\<open>get(tx, key)?.map(decode_u64).transpose()?.unwrap_or(0)\<close>\<close>

definition load_u64 :: "('d, 'l, 'e) heed \<Rightarrow> bytes \<Rightarrow> ('d, 'l, 'e, u64) engine_act" where
  "load_u64 H k = act_bind (db_get H metadata_db k) (\<lambda>r.
     case r of None \<Rightarrow> act_return 0 | Some v \<Rightarrow> act_read (\<lambda>_. decode_u64 v))"

definition load_counters :: "('d, 'l, 'e) heed \<Rightarrow> ('d, 'l, 'e, unit) engine_act" where
  "load_counters H =
     act_bind (load_u64 H METADATA_TS_KEY) (\<lambda>v.
     act_then (act_modify (\<lambda>e. e\<lparr>e_ts := v\<rparr>)) (
     act_bind (load_u64 H METADATA_VISIBLE_TS_KEY) (\<lambda>v.
     act_then (act_modify (\<lambda>e. e\<lparr>e_visible_ts := v\<rparr>)) (
     act_bind (load_u64 H METADATA_COLLECTION_ID_KEY) (\<lambda>v.
     act_then (act_modify (\<lambda>e. e\<lparr>collection_id_counter := v\<rparr>)) (
     act_bind (load_u64 H METADATA_INDEX_ID_KEY) (\<lambda>v.
     act_then (act_modify (\<lambda>e. e\<lparr>index_id_counter := v\<rparr>)) (
     act_bind (load_u64 H METADATA_INDEX_CHAIN_ID_KEY) (\<lambda>v.
     act_then (act_modify (\<lambda>e. e\<lparr>index_chain_id_counter := v\<rparr>)) (
     act_modify (\<lambda>e. e\<lparr>collection_id_counter_changed := False,
       index_id_counter_changed := False, index_chain_id_counter_changed := False\<rparr>)))))))))))"

text \<open>\<open>new\<close>, on the databases it has created or opened.\<close>

definition fresh_engine :: "('d, 'l) dbs \<Rightarrow> ('d, 'l) engine" where
  "fresh_engine s = \<lparr>e_dbs = s, e_ts = 0, e_visible_ts = 0,
     collection_id_counter = 0, collection_id_counter_changed = False,
     index_id_counter = 0, index_id_counter_changed = False,
     index_chain_id_counter = 0, index_chain_id_counter_changed = False\<rparr>"

definition engine_new :: "('d, 'l, 'e) heed \<Rightarrow> ('d, 'l) dbs \<Rightarrow> 'e storage_error + ('d, 'l) engine" where
  "engine_new H s =
     (case write_txn H (load_counters H) (fresh_engine s) of
        (Inl x, _) \<Rightarrow> Inl x | (Inr _, e) \<Rightarrow> Inr e)"

section \<open>Counters and timestamps\<close>

abbreviation metadata_put ::
  "('d, 'l, 'e) heed \<Rightarrow> bytes \<Rightarrow> u64 \<Rightarrow> ('d, 'l, 'e, unit) engine_act" where
  "metadata_put H k v \<equiv> db_write metadata_db metadata_db_update (\<lambda>d. h_put H d k (u64_to_be v))"

definition save_collection_counter :: "('d, 'l, 'e) heed \<Rightarrow> ('d, 'l, 'e, unit) engine_act" where
  "save_collection_counter H = (\<lambda>e.
     if collection_id_counter_changed e
     then metadata_put H METADATA_COLLECTION_ID_KEY (collection_id_counter e)
            (e\<lparr>collection_id_counter_changed := False\<rparr>)
     else (Inr (), e))"

definition save_index_counter :: "('d, 'l, 'e) heed \<Rightarrow> ('d, 'l, 'e, unit) engine_act" where
  "save_index_counter H = (\<lambda>e.
     if index_id_counter_changed e
     then metadata_put H METADATA_INDEX_ID_KEY (index_id_counter e)
            (e\<lparr>index_id_counter_changed := False\<rparr>)
     else (Inr (), e))"

definition save_chain_counter :: "('d, 'l, 'e) heed \<Rightarrow> ('d, 'l, 'e, unit) engine_act" where
  "save_chain_counter H = (\<lambda>e.
     if index_chain_id_counter_changed e
     then metadata_put H METADATA_INDEX_CHAIN_ID_KEY (index_chain_id_counter e)
            (e\<lparr>index_chain_id_counter_changed := False\<rparr>)
     else (Inr (), e))"

definition save_counters :: "('d, 'l, 'e) heed \<Rightarrow> ('d, 'l, 'e, unit) engine_act" where
  "save_counters H =
     act_then (save_collection_counter H) (act_then (save_index_counter H) (save_chain_counter H))"

text \<open>
  The private \<open>set_ts\<close>. It runs inside a write transaction, of which LMDB allows one at a time, so
  its compare-and-exchange succeeds in the first round.
\<close>

definition set_ts_in :: "('d, 'l, 'e) heed \<Rightarrow> TS \<Rightarrow> ('d, 'l, 'e, unit) engine_act" where
  "set_ts_in H ts = (\<lambda>e.
     if ts < e_ts e then (Inl (Implementation (Timestamp_lower ts (e_ts e))), e)
     else if ts = e_ts e then (Inr (), e)
     else metadata_put H METADATA_TS_KEY ts (e\<lparr>e_ts := ts\<rparr>))"

section \<open>Catalogs\<close>

definition collection_id_by_name ::
  "('d, 'l, 'e) heed \<Rightarrow> rstring \<Rightarrow> ('d, 'l, 'e, collection_id option) engine_act" where
  "collection_id_by_name H name =
     act_bind (db_get H collection_ids_by_name name) (\<lambda>r.
       case r of
         None \<Rightarrow> act_return None
       | Some v \<Rightarrow> act_read (\<lambda>_. and_then (decode_i64 v) (\<lambda>c. Inr (Some c))))"

text \<open>
  The catalog row of a collection at a version, as \<open>collection_by_id\<close> and the readers of the
  other files look it up.
\<close>

definition catalog_row ::
  "('d, 'l, 'e) heed \<Rightarrow> 'd \<Rightarrow> collection_id \<Rightarrow> u64 \<Rightarrow> 'e storage_error + (rstring \<times> bytes) option" where
  "catalog_row H d cid version =
     and_then (heed_call (h_get_le H d (encode_collection_catalog_key cid version))) (\<lambda>r.
       case r of
         None \<Rightarrow> Inr None
       | Some (stored_key, v) \<Rightarrow>
           and_then (decode_collection_catalog_key stored_key) (\<lambda>(stored_id, stored_version).
             if stored_id \<noteq> cid \<or> stored_version > version then Inr None
             else and_then (decode_collection_catalog_value v) (\<lambda>x. Inr (Some x))))"

definition collection_by_id ::
  "('d, 'l, 'e) heed \<Rightarrow> collection_id \<Rightarrow> u64 \<Rightarrow> ('d, 'l, 'e, (rstring \<times> bytes) option) engine_act" where
  "collection_by_id H cid version =
     act_read (\<lambda>e. catalog_row H (collections_catalog (e_dbs e)) cid version)"

definition put_collection_catalog_entry ::
  "('d, 'l, 'e) heed \<Rightarrow> collection_id \<Rightarrow> rstring \<Rightarrow> bytes \<Rightarrow> u64 \<Rightarrow> ('d, 'l, 'e, unit) engine_act" where
  "put_collection_catalog_entry H cid name metadata version =
     db_write collections_catalog collections_catalog_update (\<lambda>d.
       h_put H d (encode_collection_catalog_key cid version)
         (encode_collection_catalog_value name metadata))"

definition put_collection_id_by_name ::
  "('d, 'l, 'e) heed \<Rightarrow> rstring \<Rightarrow> collection_id \<Rightarrow> ('d, 'l, 'e, unit) engine_act" where
  "put_collection_id_by_name H name cid =
     db_write collection_ids_by_name collection_ids_by_name_update (\<lambda>d.
       h_put H d name (i64_to_be cid))"

definition create_collection ::
  "('d, 'l, 'e) heed \<Rightarrow> rstring \<Rightarrow> bytes option \<Rightarrow> u64 \<Rightarrow> ('d, 'l, 'e, collection_id) engine_act" where
  "create_collection H name metadata version =
     act_bind (collection_id_by_name H name) (\<lambda>r.
       case r of
         Some cid \<Rightarrow>
           act_then (case metadata of
               Some m \<Rightarrow> put_collection_catalog_entry H cid name m version
             | None \<Rightarrow> act_return ())
           (act_return cid)
       | None \<Rightarrow>
           act_bind allocate_collection_id (\<lambda>cid.
           act_then (put_collection_catalog_entry H cid name
             (case metadata of Some m \<Rightarrow> m | None \<Rightarrow> []) version)
           (act_then (put_collection_id_by_name H name cid)
           (act_return cid))))"

definition create_index ::
  "('d, 'l, 'e) heed \<Rightarrow> collection_id \<Rightarrow> rstring \<Rightarrow> bytes \<Rightarrow> ('d, 'l, 'e, index_id) engine_act" where
  "create_index H cid name config =
     (let key = encode_index_catalog_key cid name
      in act_bind (db_get H indexes_catalog key) (\<lambda>r.
           case r of
             Some v \<Rightarrow> act_read (\<lambda>_. and_then (decode_index_catalog_value v) (\<lambda>(iid, _). Inr iid))
           | None \<Rightarrow>
               act_bind allocate_index_id (\<lambda>iid.
               act_then (db_write indexes_catalog indexes_catalog_update (\<lambda>d.
                 h_put H d key (encode_index_catalog_value iid config)))
               (act_return iid))))"

definition update_collection_metadata ::
  "('d, 'l, 'e) heed \<Rightarrow> collection_id \<Rightarrow> bytes \<Rightarrow> u64 \<Rightarrow> ('d, 'l, 'e, unit) engine_act" where
  "update_collection_metadata H cid metadata version =
     act_bind (collection_by_id H cid (- 1)) (\<lambda>r.
       case r of
         None \<Rightarrow> act_fail (Implementation (Collection_missing cid))
       | Some (name, _) \<Rightarrow> put_collection_catalog_entry H cid name metadata version)"

section \<open>Applying a batch\<close>

definition resolve_collection_id ::
  "collection_id \<Rightarrow> (collection_id \<Rightarrow> collection_id option) \<Rightarrow> 'e storage_error + collection_id" where
  "resolve_collection_id cid new_collections =
     (if 0 \<le> i64_val cid then Inr cid
      else case new_collections cid of
             Some c \<Rightarrow> Inr c | None \<Rightarrow> Inl (Implementation (Invalid_batch_collection cid)))"

definition resolve_index_id ::
  "index_id \<Rightarrow> (index_id \<Rightarrow> index_id option) \<Rightarrow> 'e storage_error + index_id" where
  "resolve_index_id iid new_indexes =
     (if 0 \<le> i64_val iid then Inr iid
      else case new_indexes iid of
             Some c \<Rightarrow> Inr c | None \<Rightarrow> Inl (Implementation (Invalid_batch_index iid)))"

text \<open>The loops over \<open>new_collections\<close> and \<open>new_indexes\<close>, which fill the two \<open>HashMap\<close>s.\<close>

fun create_collections ::
  "('d, 'l, 'e) heed \<Rightarrow> TS \<Rightarrow> (collection_id \<times> rstring) list \<Rightarrow>
   (collection_id \<Rightarrow> collection_id option) \<Rightarrow>
   ('d, 'l, 'e, collection_id \<Rightarrow> collection_id option) engine_act" where
  "create_collections H ts [] m = act_return m"
| "create_collections H ts ((tmp, name) # rest) m =
     act_bind (create_collection H name None ts) (\<lambda>cid.
       create_collections H ts rest (m(tmp \<mapsto> cid)))"

fun create_indexes_of ::
  "('d, 'l, 'e) heed \<Rightarrow> collection_id \<Rightarrow> (index_id \<times> index_catalog_write) list \<Rightarrow>
   (index_id \<Rightarrow> index_id option) \<Rightarrow> ('d, 'l, 'e, index_id \<Rightarrow> index_id option) engine_act" where
  "create_indexes_of H cid [] m = act_return m"
| "create_indexes_of H cid ((tmp, index) # rest) m =
     act_bind (create_index H cid (icw_name index) (icw_metadata index)) (\<lambda>iid.
       create_indexes_of H cid rest (m(tmp \<mapsto> iid)))"

fun create_indexes ::
  "('d, 'l, 'e) heed \<Rightarrow> (collection_id \<Rightarrow> collection_id option) \<Rightarrow>
   (collection_id \<times> (index_id, index_catalog_write) btree) list \<Rightarrow>
   (index_id \<Rightarrow> index_id option) \<Rightarrow> ('d, 'l, 'e, index_id \<Rightarrow> index_id option) engine_act" where
  "create_indexes H nc [] m = act_return m"
| "create_indexes H nc ((cid, indexes) # rest) m =
     act_bind (act_read (\<lambda>_. resolve_collection_id cid nc)) (\<lambda>c.
     act_bind (create_indexes_of H c indexes m) (\<lambda>m'.
       create_indexes H nc rest m'))"

definition put_document_write ::
  "('d, 'l, 'e) heed \<Rightarrow> collection_id \<Rightarrow> TS \<Rightarrow> document_id \<times> document_write \<Rightarrow>
   ('d, 'l, 'e, unit) engine_act" where
  "put_document_write H cid ts = (\<lambda>(did, write).
     act_then (db_write documents documents_update (\<lambda>d.
       h_put H d (encode_document_key cid did ts)
         (case write of Document_put v \<Rightarrow> encode_document_value v
                      | Document_deleted \<Rightarrow> DOCUMENT_TOMBSTONE)))
     (db_write vacuum_targets vacuum_targets_update (\<lambda>d.
       h_put H d (encode_vacuum_target_key cid did) [])))"

definition put_index_write ::
  "('d, 'l, 'e) heed \<Rightarrow> index_id \<Rightarrow> index_position \<times> index_write \<Rightarrow> ('d, 'l, 'e, unit) engine_act" where
  "put_index_write H iid = (\<lambda>(pos, write).
     case write of
       Index_put \<Rightarrow> put_index_entry H iid (pos_value pos) (pos_document_id pos)
     | Index_deleted \<Rightarrow> delete_index_entry H iid (pos_value pos) (pos_document_id pos))"

definition put_index_writes ::
  "('d, 'l, 'e) heed \<Rightarrow> (index_id \<Rightarrow> index_id option) \<Rightarrow>
   index_id \<times> (index_position, index_write) btree \<Rightarrow> ('d, 'l, 'e, unit) engine_act" where
  "put_index_writes H ni = (\<lambda>(index, entries).
     act_bind (act_read (\<lambda>_. resolve_index_id index ni)) (\<lambda>iid.
       act_for entries (put_index_write H iid)))"

definition put_collection ::
  "('d, 'l, 'e) heed \<Rightarrow> (collection_id \<Rightarrow> collection_id option) \<Rightarrow>
   (index_id \<Rightarrow> index_id option) \<Rightarrow> TS \<Rightarrow> collection_id \<times> collection_write_set \<Rightarrow>
   ('d, 'l, 'e, unit) engine_act" where
  "put_collection H nc ni ts = (\<lambda>(cid, data).
     act_bind (act_read (\<lambda>_. resolve_collection_id cid nc)) (\<lambda>c.
     act_then (act_for (cw_documents data) (put_document_write H c ts))
     (act_then (act_for (cw_index_entries data) (put_index_writes H ni))
     (case cw_metadata data of
        Some m \<Rightarrow> update_collection_metadata H c m ts
      | None \<Rightarrow> act_return ()))))"

definition put_body :: "('d, 'l, 'e) heed \<Rightarrow> write_set \<Rightarrow> ('d, 'l, 'e, unit) engine_act" where
  "put_body H batch =
     act_bind (create_collections H (ws_ts batch) (ws_new_collections batch) (\<lambda>_. None)) (\<lambda>nc.
     act_bind (create_indexes H nc (ws_new_indexes batch) (\<lambda>_. None)) (\<lambda>ni.
     act_then (act_for (ws_collections batch) (put_collection H nc ni (ws_ts batch)))
     (act_then (set_ts_in H (ws_ts batch)) (save_counters H))))"

definition engine_put :: "('d, 'l, 'e) heed \<Rightarrow> write_set \<Rightarrow> ('d, 'l, 'e, unit) engine_act" where
  "engine_put H batch = write_txn H (put_body H batch)"

section \<open>The other operations of the trait\<close>

definition engine_flush :: "('d, 'l, 'e) heed \<Rightarrow> ('d, 'l, 'e, unit) engine_act" where
  "engine_flush H = act_read (\<lambda>e. heed_call (h_force_sync H (e_dbs e)))"

definition engine_set_ts :: "('d, 'l, 'e) heed \<Rightarrow> TS \<Rightarrow> ('d, 'l, 'e, unit) engine_act" where
  "engine_set_ts H ts = write_txn H (set_ts_in H ts)"

definition engine_get_ts :: "('d, 'l, 'e, TS) engine_act" where
  "engine_get_ts = act_read (\<lambda>e. Inr (e_ts e))"

definition engine_set_visible_ts :: "('d, 'l, 'e) heed \<Rightarrow> TS \<Rightarrow> ('d, 'l, 'e, unit) engine_act" where
  "engine_set_visible_ts H ts =
     write_txn H (act_then (act_modify (\<lambda>e. e\<lparr>e_visible_ts := ts\<rparr>))
       (metadata_put H METADATA_VISIBLE_TS_KEY ts))"

definition engine_get_visible_ts :: "('d, 'l, 'e, TS) engine_act" where
  "engine_get_visible_ts = act_read (\<lambda>e. Inr (e_visible_ts e))"

section \<open>Frames\<close>

text \<open>The timestamps, the documents and the index trie are each changed by one operation only.\<close>

definition timestamps :: "('d, 'l) engine \<Rightarrow> TS \<times> TS" where
  "timestamps e = (e_ts e, e_visible_ts e)"

definition documents_of :: "('d \<Rightarrow> (bytes \<times> bytes) list) \<Rightarrow> ('d, 'l) engine \<Rightarrow> (bytes \<times> bytes) list" where
  "documents_of it e = it (documents (e_dbs e))"

definition index_part :: "('d, 'l) engine \<Rightarrow> 'd \<times> 'l \<times> u64" where
  "index_part e = (index_edges (e_dbs e), index_leaves (e_dbs e), index_chain_id_counter e)"

lemma allocate_frames [frame]:
  "preserves timestamps allocate_collection_id" "preserves timestamps allocate_index_id"
  "preserves timestamps allocate_chain_id"
  "preserves (documents_of it) allocate_collection_id" "preserves (documents_of it) allocate_index_id"
  "preserves (documents_of it) allocate_chain_id"
  "preserves index_part allocate_collection_id" "preserves index_part allocate_index_id"
  by (simp_all add: preserves_def timestamps_def documents_of_def index_part_def Let_def
      allocate_collection_id_def allocate_index_id_def allocate_chain_id_def)

lemma db_write_frames [frame]:
  "preserves timestamps (db_write sel upd f)" "preserves timestamps (leaves_write g)"
  "preserves (documents_of it) (db_write index_edges index_edges_update f)"
  "preserves (documents_of it) (leaves_write g)"
  "preserves (documents_of it) (db_write collections_catalog collections_catalog_update f)"
  "preserves (documents_of it) (db_write collection_ids_by_name collection_ids_by_name_update f)"
  "preserves (documents_of it) (db_write indexes_catalog indexes_catalog_update f)"
  "preserves (documents_of it) (db_write vacuum_targets vacuum_targets_update f)"
  "preserves (documents_of it) (db_write metadata_db metadata_db_update f)"
  "preserves index_part (db_write documents documents_update f)"
  "preserves index_part (db_write collections_catalog collections_catalog_update f)"
  "preserves index_part (db_write collection_ids_by_name collection_ids_by_name_update f)"
  "preserves index_part (db_write indexes_catalog indexes_catalog_update f)"
  "preserves index_part (db_write vacuum_targets vacuum_targets_update f)"
  "preserves index_part (db_write metadata_db metadata_db_update f)"
  by (rule preserves_db_write preserves_leaves_write,
      simp add: timestamps_def documents_of_def index_part_def)+

lemma make_path_frames [frame]:
  "preserves timestamps (make_path H iid p ss)" "preserves (documents_of it) (make_path H iid p ss)"
  by (induction ss arbitrary: p) (auto simp: find_or_create_index_edge_def Let_def intro!: frame)

lemma find_path_frames [frame]: "preserves f (find_path H iid p ss)"
  by (induction ss arbitrary: p) (auto intro!: frame)

lemma has_entries_frames [frame]: "preserves f (index_node_has_entries H iid c)"
  by (auto simp: index_node_has_entries_def Let_def intro!: frame)

lemma prune_path_frames [frame]:
  "preserves timestamps (prune_path H iid path)" "preserves (documents_of it) (prune_path H iid path)"
  by (induction path) (auto intro!: frame)

lemma put_index_write_frames [frame]:
  "preserves timestamps (put_index_write H iid x)" "preserves (documents_of it) (put_index_write H iid x)"
  by (auto simp: put_index_write_def put_index_entry_def delete_index_entry_def Let_def
      intro!: frame split: prod.splits index_write.splits)

lemma catalog_frames [frame]:
  "preserves timestamps (create_collection H n m v)" "preserves (documents_of it) (create_collection H n m v)"
  "preserves index_part (create_collection H n m v)"
  "preserves timestamps (create_index H c n x)" "preserves (documents_of it) (create_index H c n x)"
  "preserves index_part (create_index H c n x)"
  "preserves timestamps (update_collection_metadata H c x v)"
  "preserves (documents_of it) (update_collection_metadata H c x v)"
  "preserves index_part (update_collection_metadata H c x v)"
  by (auto simp: create_collection_def create_index_def update_collection_metadata_def Let_def
      collection_id_by_name_def collection_by_id_def put_collection_catalog_entry_def
      put_collection_id_by_name_def intro!: frame)

lemma create_all_frames [frame]:
  assumes "\<And>n m v. preserves f (create_collection H n m v)" "\<And>c n m. preserves f (create_index H c n m)"
  shows "preserves f (create_collections H ts ncs m)" "preserves f (create_indexes H nc nis m')"
proof -
  show "preserves f (create_collections H ts ncs m)"
    by (induction ncs arbitrary: m) (auto intro!: frame assms)
  have 1: "preserves f (create_indexes_of H c xs m)" for c xs m
    by (induction xs arbitrary: m) (auto intro!: frame assms)
  show "preserves f (create_indexes H nc nis m')"
    by (induction nis arbitrary: m') (auto intro!: frame 1)
qed

lemma put_document_frames [frame]:
  "preserves timestamps (put_document_write H c ts x)" "preserves index_part (put_document_write H c ts x)"
  by (auto simp: put_document_write_def intro!: frame)

lemma put_index_writes_frames [frame]:
  "preserves timestamps (put_index_writes H ni x)" "preserves (documents_of it) (put_index_writes H ni x)"
  by (auto simp: put_index_writes_def intro!: frame)

lemma put_collection_frame [frame]: "preserves timestamps (put_collection H nc ni ts x)"
  by (auto simp: put_collection_def intro!: frame)

lemma save_counters_frames [frame]:
  "preserves timestamps (save_counters H)" "preserves (documents_of it) (save_counters H)"
  "preserves index_part (save_counters H)"
  unfolding save_counters_def
  by (intro frame; auto simp: preserves_def save_collection_counter_def save_index_counter_def
      save_chain_counter_def db_write_def act_update_def timestamps_def
      documents_of_def index_part_def split: sum.splits)+

lemma set_ts_frames [frame]:
  "preserves (documents_of it) (set_ts_in H ts)" "preserves index_part (set_ts_in H ts)"
  by (auto simp: preserves_def set_ts_in_def db_write_def act_update_def
      documents_of_def index_part_def split: sum.splits)

section \<open>Timestamps\<close>

text \<open>What the engine's timestamp is after any outcome of a batch.\<close>

lemma set_ts_in_cases:
  "set_ts_in H ts e = (r, e') \<Longrightarrow>
   (ts < e_ts e \<and> r = Inl (Implementation (Timestamp_lower ts (e_ts e))) \<and> e' = e) \<or>
   (e_ts e \<le> ts \<and> e_ts e' = ts \<and> e_visible_ts e' = e_visible_ts e)"
  by (auto simp: set_ts_in_def db_write_def act_update_def split: if_splits sum.splits)

lemma put_body_before_ts:
  "preserves timestamps (create_collections H ts ncs m)" "preserves timestamps (create_indexes H nc nis m')"
  "preserves timestamps (act_for xs (put_collection H nc ni ts))"
  by (intro frame)+

lemma put_body_ts:
  assumes "put_body H batch e = (r, e')"
  shows "e_visible_ts e' = e_visible_ts e \<and> (e_ts e' = e_ts e \<or> e_ts e \<le> ws_ts batch \<and> e_ts e' = ws_ts batch) \<and>
    (r = Inr () \<longrightarrow> e_ts e \<le> ws_ts batch \<and> e_ts e' = ws_ts batch)"
proof -
  let ?ts = "ws_ts batch"
  obtain r1 e1 where 1: "create_collections H ?ts (ws_new_collections batch) (\<lambda>_. None) e = (r1, e1)" by force
  note t1 = preserves_eq[OF put_body_before_ts(1) 1]
  show ?thesis
  proof (cases r1)
    case (Inl x)
    then show ?thesis using assms 1 t1 by (auto simp: put_body_def act_bind_def timestamps_def)
  next
    case (Inr nc)
    obtain r2 e2 where 2: "create_indexes H nc (ws_new_indexes batch) (\<lambda>_. None) e1 = (r2, e2)" by force
    note t2 = preserves_eq[OF put_body_before_ts(2) 2]
    show ?thesis
    proof (cases r2)
      case (Inl x)
      then show ?thesis using assms 1 2 t1 t2 \<open>r1 = Inr nc\<close>
        by (auto simp: put_body_def act_bind_def timestamps_def)
    next
      case (Inr ni)
      obtain r3 e3 where 3: "act_for (ws_collections batch) (put_collection H nc ni ?ts) e2 = (r3, e3)" by force
      note t3 = preserves_eq[OF put_body_before_ts(3) 3]
      have run: "put_body H batch e = act_then (act_for (ws_collections batch) (put_collection H nc ni ?ts))
          (act_then (set_ts_in H ?ts) (save_counters H)) e2"
        using 1 2 \<open>r1 = Inr nc\<close> Inr by (simp add: put_body_def act_bind_def)
      show ?thesis
      proof (cases r3)
        case (Inl x)
        then show ?thesis using assms run 3 t1 t2 t3
          by (auto simp: act_then_def act_bind_def timestamps_def)
      next
        case (Inr u)
        obtain r4 e4 where 4: "set_ts_in H ?ts e3 = (r4, e4)" by force
        note c4 = set_ts_in_cases[OF 4]
        show ?thesis
        proof (cases r4)
          case (Inl x)
          then show ?thesis using assms run 3 4 c4 Inr t1 t2 t3 \<open>r3 = Inr u\<close>
            by (auto simp: act_then_def act_bind_def timestamps_def)
        next
          case r4: (Inr v)
          then have s: "save_counters H e4 = (r, e')"
            using assms run 3 4 \<open>r3 = Inr u\<close> by (simp add: act_then_def act_bind_def)
          have "timestamps e' = timestamps e4" using preserves_eq[OF save_counters_frames(1) s] .
          then show ?thesis using c4 t1 t2 t3 r4 by (auto simp: timestamps_def)
        qed
      qed
    qed
  qed
qed

lemma engine_put_ts:
  assumes "engine_put H batch e = (r, e')"
  shows "e_visible_ts e' = e_visible_ts e \<and> (e_ts e' = e_ts e \<or> e_ts e \<le> ws_ts batch \<and> e_ts e' = ws_ts batch) \<and>
    (r = Inr () \<longrightarrow> e_ts e \<le> ws_ts batch \<and> e_ts e' = ws_ts batch)"
proof -
  obtain rb eb where b: "put_body H batch e = (rb, eb)" by force
  then show ?thesis using assms put_body_ts[OF b]
    by (auto simp: engine_put_def write_txn_def split: sum.splits)
qed

section \<open>What a batch does to the documents\<close>

type_synonym histories = "collection_id \<Rightarrow> document_id \<Rightarrow> TS \<Rightarrow> bytes option option"

definition written :: "document_write \<Rightarrow> bytes option" where
  "written w = (case w of Document_put v \<Rightarrow> Some v | Document_deleted \<Rightarrow> None)"

definition set_version ::
  "collection_id \<Rightarrow> TS \<Rightarrow> document_id \<times> document_write \<Rightarrow> histories \<Rightarrow> histories" where
  "set_version c ts = (\<lambda>(i, w) h c' i' t.
     if c' = c \<and> i' = i \<and> t = ts then Some (written w) else h c' i' t)"

definition resolved ::
  "(collection_id \<Rightarrow> collection_id option) \<Rightarrow> collection_id \<Rightarrow> collection_id" where
  "resolved nc cid = (if 0 \<le> i64_val cid then cid else the (nc cid))"

definition batch_versions ::
  "(collection_id \<Rightarrow> collection_id option) \<Rightarrow> TS \<Rightarrow> (collection_id \<times> collection_write_set) list \<Rightarrow>
   histories \<Rightarrow> histories" where
  "batch_versions nc ts =
     fold (\<lambda>(cid, data). fold (set_version (resolved nc cid) ts) (cw_documents data))"

lemma put_document_write_spec:
  assumes H: "heed_laws H it dit" and run: "put_document_write H c ts (i, w) e = (Inr (), e')"
    and ok: "docs_ok (documents_of it e)" "0 \<le> i64_val c"
  shows "docs_ok (documents_of it e') \<and>
    doc_history (documents_of it e') = set_version c ts (i, w) (doc_history (documents_of it e))"
proof -
  let ?p = "encode_row c (i, ts, written w)"
  obtain d d2 where d: "h_put H (documents (e_dbs e)) (fst ?p) (snd ?p) = Inr d"
    and e': "e' = e\<lparr>e_dbs := (e_dbs e)\<lparr>documents := d, vacuum_targets := d2\<rparr>\<rparr>"
    using run by (cases w) (auto simp: put_document_write_def act_Inr written_def)
  have it: "documents_of it e' = it d" by (simp add: e' documents_of_def)
  have m: "map_of (it d) = (map_of (documents_of it e))(fst ?p \<mapsto> snd ?p)"
    using heed_put[OF H d] by (simp add: documents_of_def)
  have bt: "bt_ok (it d)" by (rule heed_it_ok[OF H])
  have "\<exists>c r. p = encode_row c r \<and> 0 \<le> i64_val c" if "p \<in> set (it d)" for p
  proof -
    have "map_of (it d) (fst p) = Some (snd p)" using bt_ok_map_of[OF bt] that by simp
    then have "p = ?p \<or> p \<in> set (documents_of it e)"
      unfolding m by (cases p) (auto split: if_splits dest: map_of_SomeD simp del: encode_row.simps simp: prod_eq_iff)
    then show ?thesis using ok by (auto simp: docs_ok_def simp del: encode_row.simps)
  qed
  then have "docs_ok (it d)" using bt by (simp add: docs_ok_def)
  moreover have "doc_history (it d) c' i' t =
      set_version c ts (i, w) (doc_history (documents_of it e)) c' i' t" for c' i' t
    unfolding doc_history_def m using row_value_encode[of c i ts "written w"]
    by (auto simp: set_version_def)
  ultimately show ?thesis unfolding it by blast
qed

lemma put_documents_spec:
  assumes H: "heed_laws H it dit" and c: "0 \<le> i64_val c"
  shows "act_for docs (put_document_write H c ts) e = (Inr (), e') \<Longrightarrow> docs_ok (documents_of it e) \<Longrightarrow>
    docs_ok (documents_of it e') \<and>
    doc_history (documents_of it e') = fold (set_version c ts) docs (doc_history (documents_of it e))"
proof (induction docs arbitrary: e)
  case (Cons x docs)
  obtain i w where x: "x = (i, w)" by (cases x)
  obtain e1 where 1: "put_document_write H c ts (i, w) e = (Inr (), e1)"
    and 2: "act_for docs (put_document_write H c ts) e1 = (Inr (), e')"
    using Cons.prems(1) x by (auto simp: act_Inr)
  show ?case using put_document_write_spec[OF H 1 Cons.prems(2) c] Cons.IH[OF 2] x by simp
qed (simp add: act_Inr)

end
