(* ===== verification/Engine_Catalog.thy ===== *)
theory Engine_Catalog
  imports Engine
begin

text \<open>
  The two catalogs of collections kept by \<open>HeedStorageEngine\<close>: \<open>collection_ids_by_name\<close> and the
  versioned \<open>collections_catalog\<close>. \<open>catalog_ok\<close> is the invariant that ties them together (every
  name has one id, every row carries the name of its id); \<open>create_collection\<close> is shown to return
  the id of an existing name and to allocate a fresh one otherwise.
\<close>

section \<open>Invariant\<close>

definition names_of :: "('d \<Rightarrow> (bytes \<times> bytes) list) \<Rightarrow> ('d, 'l) engine \<Rightarrow> bytes \<Rightarrow> bytes option" where
  "names_of it e = map_of (it (collection_ids_by_name (e_dbs e)))"

definition catalog_of :: "('d \<Rightarrow> (bytes \<times> bytes) list) \<Rightarrow> ('d, 'l) engine \<Rightarrow> bytes \<Rightarrow> bytes option" where
  "catalog_of it e = map_of (it (collections_catalog (e_dbs e)))"

definition stored_id :: "u64 \<Rightarrow> collection_id \<Rightarrow> bool" where
  "stored_id counter c \<longleftrightarrow> 0 < i64_val c \<and> unat (i64_bits c) \<le> unat counter"

definition name_ok :: "rstring \<Rightarrow> bool" where
  "name_ok n \<longleftrightarrow> n \<noteq> [] \<and> utf8_valid n \<and> length n + 8 < 2 ^ 64"

definition catalog_rows_ok ::
  "(bytes \<Rightarrow> bytes option) \<Rightarrow> (bytes \<Rightarrow> bytes option) \<Rightarrow> u64 \<Rightarrow> bool" where
  "catalog_rows_ok names cat counter \<longleftrightarrow>
     (\<forall>n v. names n = Some v \<longrightarrow> name_ok n \<and> (\<exists>c. v = i64_to_be c \<and> stored_id counter c)) \<and>
     (\<forall>n n' v. names n = Some v \<longrightarrow> names n' = Some v \<longrightarrow> n = n') \<and>
     (\<forall>k b. cat k = Some b \<longrightarrow> (\<exists>c t n m. k = encode_collection_catalog_key c t \<and>
        b = encode_collection_catalog_value n m \<and> names n = Some (i64_to_be c))) \<and>
     (\<forall>n c. names n = Some (i64_to_be c) \<longrightarrow> (\<exists>t. cat (encode_collection_catalog_key c t) \<noteq> None))"

definition catalog_ok :: "('d \<Rightarrow> (bytes \<times> bytes) list) \<Rightarrow> ('d, 'l) engine \<Rightarrow> bool" where
  "catalog_ok it e \<longleftrightarrow>
     catalog_rows_ok (names_of it e) (catalog_of it e) (collection_id_counter e)"

definition collection_room :: "('d, 'l) engine \<Rightarrow> nat \<Rightarrow> bool" where
  "collection_room e n \<longleftrightarrow> unat (collection_id_counter e) + n < 2 ^ 63"

lemma i64_val_small: "unat b < 2 ^ 63 \<Longrightarrow> i64_val (I64 b) = int (unat b)"
proof -
  assume "unat b < 2 ^ 63"
  then have b: "uint b < 2 ^ 63" by (simp add: uint_nat del: of_nat_unat)
  then have "sint b = uint b"
    using signed_take_bit_int_eq_self[of 63 "uint b"] uint_ge_0[of b]
    by (simp add: sint_uint order_trans[OF _ uint_ge_0])
  then show ?thesis by (simp add: i64_val_def)
qed

lemma catalog_name:
  assumes "catalog_ok it e" "names_of it e n = Some v"
  obtains c where "v = i64_to_be c" "stored_id (collection_id_counter e) c" "name_ok n"
  using assms by (auto simp: catalog_ok_def catalog_rows_ok_def)

lemma collection_id_by_name_eq:
  assumes H: "heed_laws H it dit" and run: "collection_id_by_name H n e = (Inr r, e')" and "n \<noteq> []"
  shows "e' = e \<and> map_option i64_to_be r = names_of it e n"
  using run heed_get[OF H assms(3)]
  by (auto simp: collection_id_by_name_def act_Inr names_of_def codec_simps split: option.splits)

section \<open>Creating a collection\<close>

lemma stored_id_mono: "stored_id counter c \<Longrightarrow> unat counter \<le> unat counter' \<Longrightarrow> stored_id counter' c"
  by (auto simp: stored_id_def)

lemma catalog_rows_new:
  assumes ok: "catalog_rows_ok names cat counter" and n: "name_ok n" "names n = None"
    and c: "stored_id counter' c" "unat counter \<le> unat counter'" "\<not> stored_id counter c"
  shows "catalog_rows_ok (names(n \<mapsto> i64_to_be c))
    (cat(encode_collection_catalog_key c t \<mapsto> encode_collection_catalog_value n m)) counter'"
  unfolding catalog_rows_ok_def
proof (intro conjI allI impI)
  have old: "name_ok n'" "\<exists>c. v = i64_to_be c \<and> stored_id counter c" if "names n' = Some v" for n' v
    using ok that unfolding catalog_rows_ok_def by blast+
  then have fresh: "names n' \<noteq> Some (i64_to_be c)" for n' using c(3) by fastforce
  show "name_ok n'" if "(names(n \<mapsto> i64_to_be c)) n' = Some v" for n' v
    using that old n by (auto split: if_splits)
  show "\<exists>c. v = i64_to_be c \<and> stored_id counter' c" if "(names(n \<mapsto> i64_to_be c)) n' = Some v" for n' v
    using that old(2)[of n' v] c stored_id_mono by (auto split: if_splits)
  show "n' = n''" if "(names(n \<mapsto> i64_to_be c)) n' = Some v" "(names(n \<mapsto> i64_to_be c)) n'' = Some v"
    for n' n'' v
  proof -
    have "\<forall>n n' v. names n = Some v \<longrightarrow> names n' = Some v \<longrightarrow> n = n'"
      using ok unfolding catalog_rows_ok_def by blast
    then show ?thesis using that fresh by (auto split: if_splits)
  qed
  show "\<exists>c' t' n' m'. k = encode_collection_catalog_key c' t' \<and> b = encode_collection_catalog_value n' m' \<and>
      (names(n \<mapsto> i64_to_be c)) n' = Some (i64_to_be c')"
    if "(cat(encode_collection_catalog_key c t \<mapsto> encode_collection_catalog_value n m)) k = Some b" for k b
  proof (cases "k = encode_collection_catalog_key c t")
    case True
    then show ?thesis using that by auto
  next
    case False
    then have "cat k = Some b" using that by simp
    then obtain c' t' n' m' where *: "k = encode_collection_catalog_key c' t'"
      "b = encode_collection_catalog_value n' m'" "names n' = Some (i64_to_be c')"
      using ok unfolding catalog_rows_ok_def by blast
    then have "n' \<noteq> n" using n(2) by auto
    then show ?thesis using * by auto
  qed
  show "\<exists>t'. (cat(encode_collection_catalog_key c t \<mapsto> encode_collection_catalog_value n m))
      (encode_collection_catalog_key c' t') \<noteq> None"
    if "(names(n \<mapsto> i64_to_be c)) n' = Some (i64_to_be c')" for n' c'
  proof (cases "n' = n")
    case True
    then have "c' = c" using that by simp
    then show ?thesis by (intro exI[of _ t]) simp
  next
    case False
    then have "names n' = Some (i64_to_be c')" using that by simp
    then obtain t' where "cat (encode_collection_catalog_key c' t') \<noteq> None"
      using ok unfolding catalog_rows_ok_def by blast
    then show ?thesis by (intro exI[of _ t']) simp
  qed
qed

theorem create_collection_spec:
  assumes H: "heed_laws H it dit" and run: "create_collection H n None ts e = (Inr c, e')"
    and ok: "catalog_ok it e" "name_ok n" and room: "collection_room e (Suc k)"
  shows "catalog_ok it e' \<and> collection_room e' k \<and> names_of it e' n = Some (i64_to_be c) \<and> 0 < i64_val c \<and>
    (case names_of it e n of
       Some v \<Rightarrow> e' = e \<and> v = i64_to_be c
     | None \<Rightarrow> names_of it e' = (names_of it e)(n \<mapsto> i64_to_be c) \<and>
         (\<forall>n'. names_of it e n' \<noteq> Some (i64_to_be c)) \<and>
         catalog_of it e' = (catalog_of it e)(encode_collection_catalog_key c ts \<mapsto>
           encode_collection_catalog_value n []))"
proof -
  obtain r e0 where 0: "collection_id_by_name H n e = (Inr r, e0)"
    using run by (auto simp: create_collection_def act_Inr)
  have r: "e0 = e" "map_option i64_to_be r = names_of it e n"
    using collection_id_by_name_eq[OF H 0] ok(2) by (auto simp: name_ok_def)
  show ?thesis
  proof (cases r)
    case (Some c')
    then have e: "e' = e" "c' = c" using run 0 r(1) by (auto simp: create_collection_def act_Inr)
    then have v: "names_of it e n = Some (i64_to_be c)" using r(2) Some by simp
    obtain c0 where "i64_to_be c = i64_to_be c0" "stored_id (collection_id_counter e) c0"
      by (rule catalog_name[OF ok(1) v])
    then have "0 < i64_val c" by (simp add: stored_id_def)
    then show ?thesis using e v ok room by (simp add: collection_room_def)
  next
    case None
    let ?id = "collection_id_counter e + 1"
    obtain d1 d2 where d1: "h_put H (collections_catalog (e_dbs e)) (encode_collection_catalog_key (I64 ?id) ts)
        (encode_collection_catalog_value n []) = Inr d1"
      and d2: "h_put H (collection_ids_by_name (e_dbs e)) n (i64_to_be (I64 ?id)) = Inr d2"
      and c: "c = I64 ?id"
      and e': "e' = e\<lparr>collection_id_counter := ?id, collection_id_counter_changed := True,
        e_dbs := (e_dbs e)\<lparr>collections_catalog := d1, collection_ids_by_name := d2\<rparr>\<rparr>"
      using run 0 r(1) None
      by (auto simp: create_collection_def act_Inr allocate_collection_id_def Let_def
          put_collection_catalog_entry_def put_collection_id_by_name_def)
    have id: "unat ?id = unat (collection_id_counter e) + 1" "unat ?id + k < 2 ^ 63"
      using room by (simp_all add: collection_room_def unat_word_ariths)
    have c_val: "i64_val c = int (unat ?id)" using id i64_val_small[of ?id] by (simp only: c)
    have names: "names_of it e' = (names_of it e)(n \<mapsto> i64_to_be c)"
      using heed_put[OF H d2] by (simp add: e' names_of_def c)
    have cat: "catalog_of it e' = (catalog_of it e)(encode_collection_catalog_key c ts \<mapsto>
        encode_collection_catalog_value n [])"
      using heed_put[OF H d1] by (simp add: e' catalog_of_def c)
    have none: "names_of it e n = None" using r(2) None by simp
    have rows: "catalog_rows_ok (names_of it e) (catalog_of it e) (collection_id_counter e)"
      using ok(1) by (simp add: catalog_ok_def)
    have fresh: "\<not> stored_id (collection_id_counter e) c" using id(1) by (simp add: stored_id_def c)
    have new: "stored_id ?id c" using c_val id(1) by (simp add: stored_id_def c del: of_nat_unat)
    have "catalog_ok it e'"
      using catalog_rows_new[OF rows ok(2) none new _ fresh] id(1)
      by (simp add: catalog_ok_def names cat) (simp add: e')
    moreover have "names_of it e n' \<noteq> Some (i64_to_be c)" for n'
    proof
      assume v: "names_of it e n' = Some (i64_to_be c)"
      obtain c0 where "i64_to_be c = i64_to_be c0" "stored_id (collection_id_counter e) c0"
        by (rule catalog_name[OF ok(1) v])
      then show False using fresh by simp
    qed
    moreover have "collection_room e' k" using id(2) by (simp add: e' collection_room_def)
    moreover have "0 < i64_val c" using c_val id(1) by (simp del: of_nat_unat)
    ultimately show ?thesis using names cat none by simp
  qed
qed

text \<open>The ids a batch's temporary collections resolve to.\<close>

lemma create_collections_spec:
  assumes H: "heed_laws H it dit"
  shows "create_collections H ts ncs m e = (Inr nc, e') \<Longrightarrow> catalog_ok it e \<Longrightarrow>
    \<forall>(tmp, n) \<in> set ncs. name_ok n \<Longrightarrow> collection_room e (length ncs + k) \<Longrightarrow> bt_ok ncs \<Longrightarrow>
    \<forall>tmp c. m tmp = Some c \<longrightarrow> 0 < i64_val c \<Longrightarrow>
    catalog_ok it e' \<and> collection_room e' k \<and> names_of it e \<subseteq>\<^sub>m names_of it e' \<and>
    (\<forall>tmp c. nc tmp = Some c \<longrightarrow> 0 < i64_val c) \<and>
    (\<forall>tmp. map_of ncs tmp = None \<longrightarrow> nc tmp = m tmp) \<and>
    (\<forall>tmp n. map_of ncs tmp = Some n \<longrightarrow>
       (\<exists>c. nc tmp = Some c \<and> names_of it e' n = Some (i64_to_be c))) \<and>
    dom (names_of it e') = dom (names_of it e) \<union> snd ` set ncs"
proof (induction ncs arbitrary: m e)
  case Nil
  then show ?case by (simp add: act_Inr)
next
  case (Cons x ncs)
  obtain tmp n where x: "x = (tmp, n)" by (cases x)
  obtain c e1 where 1: "create_collection H n None ts e = (Inr c, e1)"
    and 2: "create_collections H ts ncs (m(tmp \<mapsto> c)) e1 = (Inr nc, e')"
    using Cons.prems(1) x by (auto simp: act_Inr)
  have "name_ok n" "collection_room e (Suc (length ncs + k))" using Cons.prems x by auto
  note s = create_collection_spec[OF H 1 Cons.prems(2) this]
  have sub: "names_of it e \<subseteq>\<^sub>m names_of it e1 \<and> dom (names_of it e1) = insert n (dom (names_of it e))"
  proof (cases "names_of it e n")
    case None
    then have "names_of it e1 = (names_of it e)(n \<mapsto> i64_to_be c)" using s by simp
    then show ?thesis using None by (auto simp: map_le_def)
  next
    case (Some v)
    then have "e1 = e" using s by simp
    then show ?thesis using Some by auto
  qed
  have bt: "bt_ok ncs" "map_of ncs tmp = None"
    using Cons.prems(5) bt_ok_notin[of tmp n ncs] x by (auto simp: bt_ok_Cons)
  have m: "\<forall>tmp' c'. (m(tmp \<mapsto> c)) tmp' = Some c' \<longrightarrow> 0 < i64_val c'" using Cons.prems(6) s by auto
  have rest: "\<forall>(tmp, n) \<in> set ncs. name_ok n" "collection_room e1 (length ncs + k)" "catalog_ok it e1"
    using Cons.prems(3) s by auto
  have IH: "catalog_ok it e'" "collection_room e' k" "names_of it e1 \<subseteq>\<^sub>m names_of it e'"
    "\<forall>tmp c. nc tmp = Some c \<longrightarrow> 0 < i64_val c"
    "\<forall>tmp'. map_of ncs tmp' = None \<longrightarrow> nc tmp' = (m(tmp \<mapsto> c)) tmp'"
    "\<forall>tmp n. map_of ncs tmp = Some n \<longrightarrow> (\<exists>c. nc tmp = Some c \<and> names_of it e' n = Some (i64_to_be c))"
    "dom (names_of it e') = dom (names_of it e1) \<union> snd ` set ncs"
    using Cons.IH[OF 2 rest(3,1,2) bt(1) m] by blast+
  have "nc tmp = Some c" using IH(5) bt(2) by simp
  moreover have "names_of it e' n = Some (i64_to_be c)"
    by (rule map_le_Some[OF IH(3)]) (use s in blast)
  ultimately have "\<exists>c. nc tmp' = Some c \<and> names_of it e' n' = Some (i64_to_be c)"
    if "map_of (x # ncs) tmp' = Some n'" for tmp' n'
    using that IH(6)[rule_format, of tmp' n'] x by (cases "tmp' = tmp") simp_all
  moreover have "nc tmp' = m tmp'" if "map_of (x # ncs) tmp' = None" for tmp'
    using that IH(5)[rule_format, of tmp'] x by (cases "tmp' = tmp") simp_all
  moreover have "dom (names_of it e') = dom (names_of it e) \<union> snd ` set (x # ncs)"
    using IH(7) sub x by simp
  ultimately show ?case using IH(1,2,4) map_le_trans[OF conjunct1[OF sub] IH(3)] by blast
qed

section \<open>Updating the metadata of a collection\<close>

interpretation collection_rows: versioned encode_collection_catalog_key
  "\<lambda>c c'. i64_to_be c < i64_to_be c'"
proof unfold_locales
  fix c c' :: collection_id and t t' :: TS
  show "encode_collection_catalog_key c t = encode_collection_catalog_key c' t' \<longleftrightarrow> c = c' \<and> t = t'"
    by simp
  show "encode_collection_catalog_key c t \<le> encode_collection_catalog_key c' t' \<longleftrightarrow>
      i64_to_be c < i64_to_be c' \<or> c = c' \<and> t \<le> t'"
    using lex_append_block_le[of "i64_to_be c" "i64_to_be c'" "u64_to_be t" "u64_to_be t'"]
    by (simp add: encode_collection_catalog_key_def order_simps)
  show "i64_to_be c < i64_to_be c' \<Longrightarrow> \<not> i64_to_be c' < i64_to_be c" by simp
qed

text \<open>What \<open>collection_by_id\<close> and the readers of the catalog see of a collection at a timestamp.\<close>

definition catalog_visible ::
  "(bytes \<times> bytes) list \<Rightarrow> TS \<Rightarrow> collection_id \<Rightarrow> (rstring \<times> bytes) option" where
  "catalog_visible d ts c =
     map_option (\<lambda>b. case decode_collection_catalog_value b of
         Inr x \<Rightarrow> x | Inl (_ :: unit storage_error) \<Rightarrow> ([], []))
       (newest (collection_rows.history d c) ts)"

lemma decode_catalog_value [simp]:
  "name_ok n \<Longrightarrow> decode_collection_catalog_value (encode_collection_catalog_value n m) = Inr (n, m)"
  by (simp add: collection_catalog_value_iff name_ok_def)

lemma catalog_row_visible:
  assumes H: "heed_laws H it dit" and ok: "catalog_rows_ok names (map_of (it d)) counter"
  shows "catalog_row H d cid ts = Inr (catalog_visible (it d) ts cid)"
proof -
  let ?k = "encode_collection_catalog_key cid ts"
  note bt = heed_it_ok[OF H, of d]
  note get = heed_get_le[OF H, of ?k d]
  show ?thesis
  proof (cases "find (\<lambda>(k', _). k' \<le> ?k) (rev (it d))")
    case None
    then show ?thesis using get collection_rows.floor_none[OF None]
      by (simp add: catalog_row_def catalog_visible_def)
  next
    case (Some p)
    obtain k b where p: "p = (k, b)" by (cases p)
    then have "map_of (it d) k = Some b" using find_rev_le_Some[OF bt, of ?k k b] Some by simp
    then obtain c t n m where row: "k = encode_collection_catalog_key c t"
      "b = encode_collection_catalog_value n m" "names n = Some (i64_to_be c)"
      using ok unfolding catalog_rows_ok_def by blast
    then have n: "name_ok n" using ok unfolding catalog_rows_ok_def by blast
    show ?thesis
    proof (cases "c = cid")
      case True
      then have "t \<le> ts \<and> newest (collection_rows.history (it d) cid) ts = Some b"
        using collection_rows.floor_same[OF bt, of cid ts t b] Some p row(1) by simp
      then show ?thesis using get Some p row True n by (simp add: catalog_row_def catalog_visible_def not_less)
    next
      case False
      then have "newest (collection_rows.history (it d) cid) ts = None"
        using collection_rows.floor_other[OF bt, of cid ts c t b] Some p row(1) by simp
      then show ?thesis using get Some p row False by (simp add: catalog_row_def catalog_visible_def)
    qed
  qed
qed

lemma collection_by_id_eq:
  assumes "heed_laws H it dit" "catalog_ok it e"
  shows "collection_by_id H cid version e =
    (Inr (catalog_visible (it (collections_catalog (e_dbs e))) version cid), e)"
  using catalog_row_visible[OF assms(1), of "names_of it e" "collections_catalog (e_dbs e)"] assms(2)
  by (simp add: collection_by_id_def act_read_def catalog_ok_def catalog_of_def)

lemma catalog_visible_name:
  assumes ok: "catalog_rows_ok names (map_of d) counter" and v: "catalog_visible d ts c = Some (n, m)"
  shows "names n = Some (i64_to_be c) \<and> name_ok n"
proof -
  obtain b where b: "newest (collection_rows.history d c) ts = Some b"
    "(n, m) = (case decode_collection_catalog_value b of
       Inr x \<Rightarrow> x | Inl (_ :: unit storage_error) \<Rightarrow> ([], []))"
    using v by (auto simp: catalog_visible_def)
  then obtain t where "map_of d (encode_collection_catalog_key c t) = Some b"
    unfolding newest_Some collection_rows.history_def by blast
  then obtain c' t' n' m' where row: "encode_collection_catalog_key c t = encode_collection_catalog_key c' t'"
    "b = encode_collection_catalog_value n' m'" "names n' = Some (i64_to_be c')"
    using ok unfolding catalog_rows_ok_def by blast
  then have "name_ok n'" using ok unfolding catalog_rows_ok_def by blast
  then show ?thesis using row b(2) by simp
qed

theorem update_collection_metadata_spec:
  assumes H: "heed_laws H it dit" and run: "update_collection_metadata H c m ts e = (Inr (), e')"
    and ok: "catalog_ok it e"
  obtains n m0 where "catalog_visible (it (collections_catalog (e_dbs e))) (- 1) c = Some (n, m0)"
    "catalog_of it e' = (catalog_of it e)(encode_collection_catalog_key c ts \<mapsto>
       encode_collection_catalog_value n m)" "names_of it e' = names_of it e" "catalog_ok it e'"
    "collection_id_counter e' = collection_id_counter e"
proof -
  let ?v = "catalog_visible (it (collections_catalog (e_dbs e))) (- 1) c"
  have rows: "catalog_rows_ok (names_of it e) (catalog_of it e) (collection_id_counter e)"
    using ok by (simp add: catalog_ok_def)
  obtain n m0 where v: "?v = Some (n, m0)"
    using run collection_by_id_eq[OF H ok, of c "- 1"]
    by (cases ?v) (auto simp: update_collection_metadata_def act_Inr act_fail_def)
  obtain d where d: "h_put H (collections_catalog (e_dbs e)) (encode_collection_catalog_key c ts)
      (encode_collection_catalog_value n m) = Inr d"
    and e': "e' = e\<lparr>e_dbs := (e_dbs e)\<lparr>collections_catalog := d\<rparr>\<rparr>"
    using run collection_by_id_eq[OF H ok, of c "- 1"] v
    by (auto simp: update_collection_metadata_def act_Inr put_collection_catalog_entry_def)
  have cat: "catalog_of it e' = (catalog_of it e)(encode_collection_catalog_key c ts \<mapsto>
       encode_collection_catalog_value n m)"
    using heed_put[OF H d] by (simp add: e' catalog_of_def)
  have names: "names_of it e' = names_of it e" by (simp add: e' names_of_def)
  have n: "names_of it e n = Some (i64_to_be c)"
    using catalog_visible_name[OF _ v, of "names_of it e"] rows by (auto simp: catalog_of_def)
  have "catalog_rows_ok (names_of it e) (catalog_of it e') (collection_id_counter e)"
    using rows n unfolding catalog_rows_ok_def cat
    by (intro conjI) (blast, blast, auto, metis option.distinct(1))
  then have "catalog_ok it e'" by (simp add: catalog_ok_def names) (simp add: e')
  then show thesis using that v cat names by (simp add: e')
qed

end
