(* ===== verification/Engine_Batch.thy ===== *)
theory Engine_Batch
  imports Engine_Catalog
begin

text \<open>
  What \<open>put\<close> (\<open>implementations/heed/datastore.rs\<close>) does as a whole: \<open>engine_ok\<close>, the invariant
  of the databases, is kept by every batch; a batch that succeeds gives every document it names a
  version at its timestamp and changes no other version, and changes the indexes at exactly the
  positions it names.
\<close>

section \<open>Frame of the catalogs\<close>

definition catalog_part :: "('d, 'l) engine \<Rightarrow> 'd \<times> 'd \<times> u64" where
  "catalog_part e = (collections_catalog (e_dbs e), collection_ids_by_name (e_dbs e), collection_id_counter e)"

lemma catalog_part_writes [frame]:
  "preserves catalog_part allocate_index_id" "preserves catalog_part allocate_chain_id"
  "preserves catalog_part (leaves_write g)"
  "preserves catalog_part (db_write index_edges index_edges_update f)"
  "preserves catalog_part (db_write documents documents_update f)"
  "preserves catalog_part (db_write indexes_catalog indexes_catalog_update f)"
  "preserves catalog_part (db_write vacuum_targets vacuum_targets_update f)"
  "preserves catalog_part (db_write metadata_db metadata_db_update f)"
  by (rule preserves_db_write preserves_leaves_write | simp add: preserves_def catalog_part_def
      allocate_index_id_def allocate_chain_id_def Let_def)+

lemma catalog_part_make_path [frame]: "preserves catalog_part (make_path H iid p ss)"
  by (induction ss arbitrary: p) (auto simp: find_or_create_index_edge_def Let_def intro!: frame)

lemma catalog_part_prune [frame]: "preserves catalog_part (prune_path H iid path)"
  by (induction path) (auto intro!: frame)

lemma catalog_part_ops [frame]:
  "preserves catalog_part (put_index_write H iid x)" "preserves catalog_part (put_index_writes H ni y)"
  "preserves catalog_part (put_document_write H c ts z)" "preserves catalog_part (create_index H c n m)"
proof -
  show 1: "preserves catalog_part (put_index_write H iid x)" for iid x
    by (auto simp: put_index_write_def put_index_entry_def delete_index_entry_def Let_def
        intro!: frame split: prod.splits index_write.splits)
  show "preserves catalog_part (put_index_writes H ni y)"
    by (auto simp: put_index_writes_def intro!: frame 1)
  show "preserves catalog_part (put_document_write H c ts z)"
    by (auto simp: put_document_write_def intro!: frame)
  show "preserves catalog_part (create_index H c n m)"
    by (auto simp: create_index_def Let_def intro!: frame)
qed

lemma catalog_part_create_indexes [frame]: "preserves catalog_part (create_indexes H nc nis m)"
proof -
  have 1: "preserves catalog_part (create_indexes_of H c xs m)" for c xs m
    by (induction xs arbitrary: m) (auto intro!: frame)
  show ?thesis by (induction nis arbitrary: m) (auto intro!: preserves_return preserves_bind preserves_read 1)
qed

lemma catalog_part_counters [frame]:
  "preserves catalog_part (save_counters H)" "preserves catalog_part (set_ts_in H ts)"
proof -
  show "preserves catalog_part (save_counters H)"
    unfolding save_counters_def
    by (intro frame; auto simp: preserves_def save_collection_counter_def save_index_counter_def
      save_chain_counter_def db_write_def act_update_def catalog_part_def split: sum.splits)+
  show "preserves catalog_part (set_ts_in H ts)"
    by (auto simp: preserves_def set_ts_in_def db_write_def act_update_def catalog_part_def
        split: sum.splits)
qed

text \<open>The same facts for the steps of \<open>put\<close>, in the form in which its proof uses them.\<close>

lemmas after_documents =
  preserves_eq[where m = "act_for (cw_documents data) (put_document_write H c ts)" for data H c ts,
    OF preserves_for[OF put_document_frames(2)]]
  preserves_eq[where m = "act_for (cw_documents data) (put_document_write H c ts)" for data H c ts,
    OF preserves_for[OF catalog_part_ops(3)]]

lemmas after_indexes =
  preserves_eq[where m = "act_for (cw_index_entries data) (put_index_writes H ni)" for data H ni,
    OF preserves_for[OF put_index_writes_frames(2)]]
  preserves_eq[where m = "act_for (cw_index_entries data) (put_index_writes H ni)" for data H ni,
    OF preserves_for[OF catalog_part_ops(2)]]

lemma metadata_frames:
  "preserves (documents_of it) (case r of Some m \<Rightarrow> update_collection_metadata H c m ts | None \<Rightarrow> act_return ())"
  "preserves index_part (case r of Some m \<Rightarrow> update_collection_metadata H c m ts | None \<Rightarrow> act_return ())"
  by (intro frame)+

lemma create_frames:
  "preserves index_part (create_collections H ts ncs m)"
  "preserves (documents_of it) (create_collections H ts ncs m)"
  "preserves index_part (create_indexes H nc nis m')"
  "preserves (documents_of it) (create_indexes H nc nis m')"
  by (intro frame)+

lemma after_create_collections:
  assumes "create_collections H ts ncs m e = (r, e')"
  shows "index_part e' = index_part e" "documents_of it e' = documents_of it e"
  by (rule preserves_eq[OF create_frames(1) assms], rule preserves_eq[OF create_frames(2) assms])

lemma after_create_indexes:
  assumes "create_indexes H nc nis m e = (r, e')"
  shows "index_part e' = index_part e" "documents_of it e' = documents_of it e"
    "catalog_part e' = catalog_part e"
  by (rule preserves_eq[OF create_frames(3) assms], rule preserves_eq[OF create_frames(4) assms],
      rule preserves_eq[OF catalog_part_create_indexes assms])

lemma after_set_ts:
  assumes "set_ts_in H ts e = (r, e')"
  shows "index_part e' = index_part e" "documents_of it e' = documents_of it e"
    "catalog_part e' = catalog_part e"
  by (rule preserves_eq[OF set_ts_frames(2) assms], rule preserves_eq[OF set_ts_frames(1) assms],
      rule preserves_eq[OF catalog_part_counters(2) assms])

lemma after_save:
  assumes "save_counters H e = (r, e')"
  shows "index_part e' = index_part e" "documents_of it e' = documents_of it e"
    "catalog_part e' = catalog_part e"
  by (rule preserves_eq[OF save_counters_frames(3) assms], rule preserves_eq[OF save_counters_frames(2) assms],
      rule preserves_eq[OF catalog_part_counters(1) assms])

lemma catalog_part_cong:
  assumes "catalog_part e' = catalog_part e"
  shows "catalog_ok it e' = catalog_ok it e" "names_of it e' = names_of it e"
    "catalog_of it e' = catalog_of it e" "collection_room e' k = collection_room e k"
  using assms by (simp_all add: catalog_part_def catalog_ok_def names_of_def catalog_of_def collection_room_def)

lemma index_part_cong:
  assumes "index_part e' = index_part e"
  shows "index_ok it dit e' = index_ok it dit e" "index_mem it dit e' = index_mem it dit e"
    "chain_room e' k = chain_room e k"
  using assms
  by (simp_all add: index_part_def index_ok_def index_mem_def chain_room_def edges_of_def leaves_of_def)

section \<open>The invariant\<close>

definition engine_ok ::
  "('d \<Rightarrow> (bytes \<times> bytes) list) \<Rightarrow> ('l \<Rightarrow> (bytes \<times> bytes) list) \<Rightarrow> ('d, 'l) engine \<Rightarrow> bool" where
  "engine_ok it dit e \<longleftrightarrow> docs_ok (documents_of it e) \<and> index_ok it dit e \<and> catalog_ok it e"

text \<open>Batches built through the write-set API from Rust strings, and the ids they may need.\<close>

definition batch_ok :: "write_set \<Rightarrow> bool" where
  "batch_ok w \<longleftrightarrow> ws_ok w \<and> (\<forall>(tmp, n) \<in> set (ws_new_collections w). name_ok n)"

definition entries_segments :: "(index_position \<times> index_write) list \<Rightarrow> nat" where
  "entries_segments es = sum_list (map (\<lambda>(pos, _). length (split_index_key (pos_value pos))) es)"

definition collection_segments :: "collection_write_set \<Rightarrow> nat" where
  "collection_segments data = sum_list (map (\<lambda>(_, es). entries_segments es) (cw_index_entries data))"

definition batch_segments :: "(collection_id \<times> collection_write_set) list \<Rightarrow> nat" where
  "batch_segments cs = sum_list (map (\<lambda>(_, data). collection_segments data) cs)"

definition batch_room :: "('d, 'l) engine \<Rightarrow> write_set \<Rightarrow> bool" where
  "batch_room e w \<longleftrightarrow> collection_room e (length (ws_new_collections w)) \<and>
     chain_room e (batch_segments (ws_collections w))"

section \<open>Index positions\<close>

type_synonym positions = "index_id \<Rightarrow> bytes \<Rightarrow> document_id \<Rightarrow> bool"

definition set_position :: "index_id \<Rightarrow> index_position \<times> index_write \<Rightarrow> positions \<Rightarrow> positions" where
  "set_position iid = (\<lambda>(pos, w) M iid' k d.
     if iid' = iid \<and> Position k d = pos then w = Index_put else M iid' k d)"

definition index_positions ::
  "(index_id \<Rightarrow> index_id option) \<Rightarrow> (index_id \<times> (index_position, index_write) btree) list \<Rightarrow>
   positions \<Rightarrow> positions" where
  "index_positions ni = fold (\<lambda>(index, entries). fold (set_position (resolved ni index)) entries)"

definition batch_positions ::
  "(index_id \<Rightarrow> index_id option) \<Rightarrow> (collection_id \<times> collection_write_set) list \<Rightarrow>
   positions \<Rightarrow> positions" where
  "batch_positions ni = fold (\<lambda>(_, data). index_positions ni (cw_index_entries data))"

lemma chain_room_less: "chain_room e (m + n) \<Longrightarrow> chain_room e n"
  by (simp add: chain_room_def)

lemma put_index_write_spec:
  assumes H: "heed_laws H it dit" and run: "put_index_write H iid (pos, w) e = (Inr (), e')"
    and ok: "index_ok it dit e" and room: "chain_room e (length (split_index_key (pos_value pos)) + n)"
  shows "index_ok it dit e' \<and> chain_room e' n \<and>
    index_mem it dit e' = set_position iid (pos, w) (index_mem it dit e)"
proof (cases w)
  case Index_put
  then have "put_index_entry H iid (pos_value pos) (pos_document_id pos) e = (Inr (), e')"
    using run by (simp add: put_index_write_def)
  from put_index_entry_spec[OF H this ok room] show ?thesis
    using Index_put by (cases pos) (auto simp: set_position_def fun_eq_iff)
next
  case Index_deleted
  then have "delete_index_entry H iid (pos_value pos) (pos_document_id pos) e = (Inr (), e')"
    using run by (simp add: put_index_write_def)
  from delete_index_entry_spec[OF H this ok] show ?thesis
    using Index_deleted chain_room_less[OF room]
    by (cases pos) (auto simp: set_position_def fun_eq_iff chain_room_def)
qed

lemma put_entries_spec:
  assumes H: "heed_laws H it dit"
  shows "act_for es (put_index_write H iid) e = (Inr (), e') \<Longrightarrow> index_ok it dit e \<Longrightarrow>
    chain_room e (entries_segments es + n) \<Longrightarrow>
    index_ok it dit e' \<and> chain_room e' n \<and>
    index_mem it dit e' = fold (set_position iid) es (index_mem it dit e)"
proof (induction es arbitrary: e)
  case (Cons x es)
  obtain pos w where x: "x = (pos, w)" by (cases x)
  obtain e1 where 1: "put_index_write H iid (pos, w) e = (Inr (), e1)"
    and 2: "act_for es (put_index_write H iid) e1 = (Inr (), e')"
    using Cons.prems(1) x by (auto simp: act_Inr)
  have "chain_room e (length (split_index_key (pos_value pos)) + (entries_segments es + n))"
    using Cons.prems(3) x by (simp add: entries_segments_def add.assoc)
  from put_index_write_spec[OF H 1 Cons.prems(2) this] Cons.IH[OF 2] show ?case using x by simp
qed (simp add: act_Inr entries_segments_def)

lemma resolve_index_resolved:
  "resolve_index_id iid ni = Inr c \<Longrightarrow> c = resolved ni iid"
  by (auto simp: resolve_index_id_def resolved_def split: if_splits option.splits)

lemma put_index_writes_spec:
  assumes H: "heed_laws H it dit"
  shows "act_for ies (put_index_writes H ni) e = (Inr (), e') \<Longrightarrow> index_ok it dit e \<Longrightarrow>
    chain_room e (sum_list (map (\<lambda>(_, es). entries_segments es) ies) + n) \<Longrightarrow>
    index_ok it dit e' \<and> chain_room e' n \<and>
    index_mem it dit e' = index_positions ni ies (index_mem it dit e)"
proof (induction ies arbitrary: e)
  case (Cons x ies)
  obtain index es where x: "x = (index, es)" by (cases x)
  obtain iid e1 where r: "(resolve_index_id index ni :: 'c storage_error + index_id) = Inr iid"
    and 1: "act_for es (put_index_write H iid) e = (Inr (), e1)"
    and 2: "act_for ies (put_index_writes H ni) e1 = (Inr (), e')"
    using Cons.prems(1) x by (auto simp: act_Inr put_index_writes_def)
  have "chain_room e (entries_segments es + (sum_list (map (\<lambda>(_, es). entries_segments es) ies) + n))"
    using Cons.prems(3) x by (simp add: add.assoc)
  from put_entries_spec[OF H 1 Cons.prems(2) this] Cons.IH[OF 2] resolve_index_resolved[OF r]
  show ?case using x by (simp add: index_positions_def)
qed (simp add: act_Inr index_positions_def)

section \<open>One collection of a batch\<close>

lemma resolve_collection_resolved:
  assumes "resolve_collection_id cid nc = Inr c" "\<forall>tmp c. nc tmp = Some c \<longrightarrow> 0 < i64_val c"
  shows "c = resolved nc cid \<and> 0 \<le> i64_val c"
  using assms by (auto simp: resolve_collection_id_def resolved_def less_imp_le split: if_splits option.splits)

lemma put_collection_spec:
  assumes H: "heed_laws H it dit" and run: "put_collection H nc ni ts (cid, data) e = (Inr (), e')"
    and ok: "engine_ok it dit e" and nc: "\<forall>tmp c. nc tmp = Some c \<longrightarrow> 0 < i64_val c"
    and room: "chain_room e (collection_segments data + n)"
  shows "engine_ok it dit e' \<and> chain_room e' n \<and>
    collection_id_counter e' = collection_id_counter e \<and> names_of it e' = names_of it e \<and>
    doc_history (documents_of it e') =
      fold (set_version (resolved nc cid) ts) (cw_documents data) (doc_history (documents_of it e)) \<and>
    index_mem it dit e' = index_positions ni (cw_index_entries data) (index_mem it dit e)"
proof -
  obtain c e1 e2 where r: "(resolve_collection_id cid nc :: 'c storage_error + collection_id) = Inr c"
    and 1: "act_for (cw_documents data) (put_document_write H c ts) e = (Inr (), e1)"
    and 2: "act_for (cw_index_entries data) (put_index_writes H ni) e1 = (Inr (), e2)"
    and 3: "(case cw_metadata data of Some m \<Rightarrow> update_collection_metadata H c m ts
        | None \<Rightarrow> act_return ()) e2 = (Inr (), e')"
    using run by (auto simp: act_Inr put_collection_def)
  note c = resolve_collection_resolved[OF r nc]
  note ok' = ok[unfolded engine_ok_def]
  note d = put_documents_spec[OF H conjunct2[OF c] 1]
  have i1: "index_part e1 = index_part e" "catalog_part e1 = catalog_part e"
    by (rule after_documents[OF 1])+
  have "index_ok it dit e1" "chain_room e1 (collection_segments data + n)"
    using ok' room index_part_cong[OF i1(1)] by simp_all
  note x = put_index_writes_spec[OF H 2 this(1) this(2)[unfolded collection_segments_def]]
  have i2: "documents_of it e2 = documents_of it e1" "catalog_part e2 = catalog_part e1"
    by (rule after_indexes[OF 2])+
  have cat: "catalog_ok it e2" using ok' catalog_part_cong(1)[of e2 e] i1(2) i2(2) by simp
  have i3: "documents_of it e' = documents_of it e2" "index_part e' = index_part e2"
    by (rule preserves_eq[OF metadata_frames(1) 3], rule preserves_eq[OF metadata_frames(2) 3])
  have u: "catalog_ok it e' \<and> names_of it e' = names_of it e2 \<and>
      collection_id_counter e' = collection_id_counter e2"
  proof (cases "cw_metadata data")
    case None
    then show ?thesis using 3 cat by (simp add: act_Inr)
  next
    case (Some m)
    then have "update_collection_metadata H c m ts e2 = (Inr (), e')" using 3 by simp
    from update_collection_metadata_spec[OF H this cat] show ?thesis by metis
  qed
  have "collection_id_counter e2 = collection_id_counter e" "names_of it e2 = names_of it e"
    using i1(2) i2(2) by (simp_all add: catalog_part_def names_of_def)
  then show ?thesis
    using c ok' d x i1 i2 i3 u index_part_cong[OF i1(1)] index_part_cong[OF i3(2)]
    by (simp add: engine_ok_def)
qed

lemma put_collections_spec:
  assumes H: "heed_laws H it dit" and nc: "\<forall>tmp c. nc tmp = Some c \<longrightarrow> 0 < i64_val c"
  shows "act_for cs (put_collection H nc ni ts) e = (Inr (), e') \<Longrightarrow> engine_ok it dit e \<Longrightarrow>
    chain_room e (batch_segments cs + n) \<Longrightarrow>
    engine_ok it dit e' \<and> names_of it e' = names_of it e \<and>
    doc_history (documents_of it e') = batch_versions nc ts cs (doc_history (documents_of it e)) \<and>
    index_mem it dit e' = batch_positions ni cs (index_mem it dit e)"
proof (induction cs arbitrary: e)
  case (Cons x cs)
  obtain cid data where x: "x = (cid, data)" by (cases x)
  obtain e1 where 1: "put_collection H nc ni ts (cid, data) e = (Inr (), e1)"
    and 2: "act_for cs (put_collection H nc ni ts) e1 = (Inr (), e')"
    using Cons.prems(1) x by (auto simp: act_Inr)
  have "chain_room e (collection_segments data + (batch_segments cs + n))"
    using Cons.prems(3) x by (simp add: batch_segments_def add.assoc)
  from put_collection_spec[OF H 1 Cons.prems(2) nc this] Cons.IH[OF 2]
  show ?case using x by (simp add: batch_versions_def batch_positions_def)
qed (simp add: act_Inr batch_versions_def batch_positions_def)

section \<open>A batch that succeeds\<close>

text \<open>The steps of a batch that succeeds.\<close>

definition put_steps ::
  "('d, 'l, 'e) heed \<Rightarrow> write_set \<Rightarrow> ('d, 'l) engine \<Rightarrow> (collection_id \<Rightarrow> collection_id option) \<Rightarrow>
   ('d, 'l) engine \<Rightarrow> (index_id \<Rightarrow> index_id option) \<Rightarrow> ('d, 'l) engine \<Rightarrow> ('d, 'l) engine \<Rightarrow>
   ('d, 'l) engine \<Rightarrow> ('d, 'l) engine \<Rightarrow> bool" where
  "put_steps H w e nc e1 ni e2 e3 e4 e' \<longleftrightarrow>
     create_collections H (ws_ts w) (ws_new_collections w) (\<lambda>_. None) e = (Inr nc, e1) \<and>
     create_indexes H nc (ws_new_indexes w) (\<lambda>_. None) e1 = (Inr ni, e2) \<and>
     act_for (ws_collections w) (put_collection H nc ni (ws_ts w)) e2 = (Inr (), e3) \<and>
     set_ts_in H (ws_ts w) e3 = (Inr (), e4) \<and> save_counters H e4 = (Inr (), e')"

lemma put_steps:
  assumes "engine_put H w e = (Inr (), e')"
  obtains nc e1 ni e2 e3 e4 where "put_steps H w e nc e1 ni e2 e3 e4 e'"
proof -
  have "put_body H w e = (Inr (), e')" using assms write_txn_Inr by (simp add: engine_put_def)
  then show thesis using that by (auto simp: put_body_def act_Inr put_steps_def)
qed

lemma put_collections_declared:
  "act_for cs (put_collection H nc ni ts) e = (Inr (), e') \<Longrightarrow> (cid, data) \<in> set cs \<Longrightarrow>
   i64_val cid < 0 \<Longrightarrow> nc cid \<noteq> None"
  by (induction cs arbitrary: e)
    (auto simp: act_Inr put_collection_def resolve_collection_id_def split: option.splits)

lemma put_steps_collections:
  assumes H: "heed_laws H it dit" and run: "put_steps H w e nc e1 ni e2 e3 e4 e'"
    and ok: "engine_ok it dit e" "batch_ok w" "batch_room e w"
  shows "catalog_ok it e1" "names_of it e \<subseteq>\<^sub>m names_of it e1" "\<forall>tmp c. nc tmp = Some c \<longrightarrow> 0 < i64_val c"
    "\<forall>tmp n. map_of (ws_new_collections w) tmp = Some n \<longrightarrow>
       (\<exists>c. nc tmp = Some c \<and> names_of it e1 n = Some (i64_to_be c))"
    "\<forall>tmp. map_of (ws_new_collections w) tmp = None \<longrightarrow> nc tmp = None"
    "dom (names_of it e1) = dom (names_of it e) \<union> snd ` set (ws_new_collections w)"
proof -
  have 1: "create_collections H (ws_ts w) (ws_new_collections w) (\<lambda>_. None) e = (Inr nc, e1)"
    using run by (simp add: put_steps_def)
  have bt: "bt_ok (ws_new_collections w)" using ok(2) by (simp add: batch_ok_def ws_ok_def)
  have cat: "catalog_ok it e" "\<forall>(tmp, n) \<in> set (ws_new_collections w). name_ok n"
    "collection_room e (length (ws_new_collections w) + 0)"
    using ok by (simp_all add: engine_ok_def batch_ok_def batch_room_def)
  show "catalog_ok it e1" "names_of it e \<subseteq>\<^sub>m names_of it e1" "\<forall>tmp c. nc tmp = Some c \<longrightarrow> 0 < i64_val c"
    "\<forall>tmp n. map_of (ws_new_collections w) tmp = Some n \<longrightarrow>
       (\<exists>c. nc tmp = Some c \<and> names_of it e1 n = Some (i64_to_be c))"
    "\<forall>tmp. map_of (ws_new_collections w) tmp = None \<longrightarrow> nc tmp = None"
    "dom (names_of it e1) = dom (names_of it e) \<union> snd ` set (ws_new_collections w)"
    using create_collections_spec[OF H 1 cat bt] by blast+
qed

lemma put_steps_spec:
  assumes H: "heed_laws H it dit" and run: "put_steps H w e nc e1 ni e2 e3 e4 e'"
    and ok: "engine_ok it dit e" "batch_ok w" "batch_room e w"
  shows "engine_ok it dit e'"
    "doc_history (documents_of it e') =
       batch_versions nc (ws_ts w) (ws_collections w) (doc_history (documents_of it e))"
    "index_mem it dit e' = batch_positions ni (ws_collections w) (index_mem it dit e)"
    "names_of it e' = names_of it e1"
proof -
  have 1: "create_collections H (ws_ts w) (ws_new_collections w) (\<lambda>_. None) e = (Inr nc, e1)" and
    2: "create_indexes H nc (ws_new_indexes w) (\<lambda>_. None) e1 = (Inr ni, e2)" and
    3: "act_for (ws_collections w) (put_collection H nc ni (ws_ts w)) e2 = (Inr (), e3)" and
    4: "set_ts_in H (ws_ts w) e3 = (Inr (), e4)" and 5: "save_counters H e4 = (Inr (), e')"
    using run by (simp_all add: put_steps_def)
  note s = put_steps_collections[OF H run ok]
  have f1: "index_part e1 = index_part e" "documents_of it e1 = documents_of it e"
    by (rule after_create_collections[OF 1])+
  have f2: "index_part e2 = index_part e1" "documents_of it e2 = documents_of it e1"
    "catalog_part e2 = catalog_part e1"
    by (rule after_create_indexes[OF 2])+
  have ok2: "engine_ok it dit e2" "chain_room e2 (batch_segments (ws_collections w) + 0)"
    using ok s(1) f1 f2 index_part_cong[of e2 e] catalog_part_cong[of e2 e1]
    by (simp_all add: engine_ok_def batch_room_def)
  note b = put_collections_spec[OF H s(3) 3 ok2]
  have f4: "index_part e4 = index_part e3" "documents_of it e4 = documents_of it e3"
    "catalog_part e4 = catalog_part e3"
    by (rule after_set_ts[OF 4])+
  have f5: "index_part e' = index_part e4" "documents_of it e' = documents_of it e4"
    "catalog_part e' = catalog_part e4"
    by (rule after_save[OF 5])+
  have i: "index_part e' = index_part e3" "catalog_part e' = catalog_part e3" using f4 f5 by simp_all
  show "names_of it e' = names_of it e1"
    using b catalog_part_cong(2)[OF i(2), of it] catalog_part_cong(2)[OF f2(3), of it] by simp
  show "engine_ok it dit e'"
    using b f4 f5 index_part_cong[OF i(1)] catalog_part_cong[OF i(2)] by (simp add: engine_ok_def)
  show "doc_history (documents_of it e') =
      batch_versions nc (ws_ts w) (ws_collections w) (doc_history (documents_of it e))"
    using b f1 f2 f4 f5 by simp
  show "index_mem it dit e' = batch_positions ni (ws_collections w) (index_mem it dit e)"
    using b index_part_cong(2)[OF i(1), of it dit] index_part_cong(2)[of e2 e it dit] f1 f2 by simp
qed

theorem put_spec:
  assumes H: "heed_laws H it dit" and run: "engine_put H w e = (Inr (), e')"
    and ok: "engine_ok it dit e" "batch_ok w" "batch_room e w"
  obtains nc ni where "engine_ok it dit e'"
    "doc_history (documents_of it e') =
       batch_versions nc (ws_ts w) (ws_collections w) (doc_history (documents_of it e))"
    "index_mem it dit e' = batch_positions ni (ws_collections w) (index_mem it dit e)"
    "names_of it e \<subseteq>\<^sub>m names_of it e'"
    "\<And>tmp n. map_of (ws_new_collections w) tmp = Some n \<Longrightarrow>
       \<exists>c. nc tmp = Some c \<and> names_of it e' n = Some (i64_to_be c)"
    "\<And>tmp c. nc tmp = Some c \<Longrightarrow> 0 < i64_val c"
    "\<And>tmp. map_of (ws_new_collections w) tmp = None \<Longrightarrow> nc tmp = None"
    "dom (names_of it e') = dom (names_of it e) \<union> snd ` set (ws_new_collections w)"
    "\<And>cid data. (cid, data) \<in> set (ws_collections w) \<Longrightarrow> i64_val cid < 0 \<Longrightarrow> nc cid \<noteq> None"
proof (rule put_steps[OF run])
  fix nc e1 ni e2 e3 e4
  assume steps: "put_steps H w e nc e1 ni e2 e3 e4 e'"
  note s = put_steps_collections[OF H steps ok] and p = put_steps_spec[OF H steps ok]
    and declared = put_collections_declared[of "ws_collections w" H nc ni "ws_ts w" e2 e3]
  show thesis by (rule that[of nc ni]) (use s p declared steps in \<open>simp_all add: put_steps_def\<close>)
qed

section \<open>The documents after a batch\<close>

text \<open>The last write of a batch to a document, in the order in which the engine applies it.\<close>

definition batch_write ::
  "(collection_id \<Rightarrow> collection_id option) \<Rightarrow> (collection_id \<times> collection_write_set) list \<Rightarrow>
   collection_id \<Rightarrow> document_id \<Rightarrow> document_write option" where
  "batch_write nc cs c i = fold (\<lambda>(cid, data) r.
     if resolved nc cid = c then (case map_of (cw_documents data) i of None \<Rightarrow> r | Some w \<Rightarrow> Some w)
     else r) cs None"

lemma fold_set_version:
  "bt_ok docs \<Longrightarrow> fold (set_version c ts) docs h c' i' t =
     (if c' = c \<and> t = ts
      then case map_of docs i' of None \<Rightarrow> h c' i' t | Some w \<Rightarrow> Some (written w) else h c' i' t)"
proof (induction docs arbitrary: h)
  case (Cons p docs)
  obtain i w where p: "p = (i, w)" by (cases p)
  have "bt_ok docs" "map_of docs i = None"
    using Cons.prems bt_ok_notin[of i w docs] p by (auto simp: bt_ok_Cons)
  then show ?case using Cons.IH[of "set_version c ts p h"] p
    by (auto simp: set_version_def split: option.splits)
qed simp

lemma batch_versions_eq:
  assumes "\<forall>(cid, data) \<in> set cs. bt_ok (cw_documents data)"
  shows "batch_versions nc ts cs h c i t =
    (if t = ts then case batch_write nc cs c i of None \<Rightarrow> h c i t | Some w \<Rightarrow> Some (written w) else h c i t)"
  using assms
proof (induction cs rule: rev_induct)
  case (snoc p cs)
  obtain cid data where p: "p = (cid, data)" by (cases p)
  have IH: "batch_versions nc ts cs h c i t =
      (if t = ts then case batch_write nc cs c i of None \<Rightarrow> h c i t | Some w \<Rightarrow> Some (written w) else h c i t)"
    using snoc by auto
  have bt: "bt_ok (cw_documents data)" using snoc.prems p by auto
  have "batch_versions nc ts (cs @ [p]) h c i t =
      fold (set_version (resolved nc cid) ts) (cw_documents data) (batch_versions nc ts cs h) c i t"
    by (simp add: batch_versions_def p)
  also have "\<dots> = (if c = resolved nc cid \<and> t = ts
      then case map_of (cw_documents data) i of None \<Rightarrow> batch_versions nc ts cs h c i t
        | Some w \<Rightarrow> Some (written w) else batch_versions nc ts cs h c i t)"
    by (rule fold_set_version[OF bt])
  finally show ?case
    unfolding IH by (auto simp: batch_write_def p split: option.splits)
qed (simp add: batch_versions_def batch_write_def)

text \<open>A write to a stored collection is the last one: temporary ids come before all others.\<close>

lemma fold_batch_write_later:
  assumes "\<forall>(cid, data) \<in> set cs. resolved nc cid \<noteq> c"
  shows "fold (\<lambda>(cid, data) r.
     if resolved nc cid = c then (case map_of (cw_documents data) i of None \<Rightarrow> r | Some w \<Rightarrow> Some w)
     else r) cs r = r"
  using assms by (induction cs arbitrary: r) auto

lemma batch_write_stored:
  assumes "ws_ok w" "0 \<le> i64_val c" "ws_document w c i = Some x"
  shows "batch_write nc (ws_collections w) c i = Some x"
proof -
  obtain data where data: "map_of (ws_collections w) c = Some data" "map_of (cw_documents data) i = Some x"
    using assms(3) by (auto simp: ws_document_def split: option.splits)
  then obtain us vs where cs: "ws_collections w = us @ (c, data) # vs"
    by (meson map_of_SomeD split_list)
  have "\<forall>(cid, d) \<in> set vs. c < cid"
    using assms(1) by (auto simp: ws_ok_def bt_ok_def cs sorted_wrt_append)
  moreover have "resolved nc cid \<noteq> c" if "c < cid" for cid
    using assms(2) that by (auto simp: resolved_def less_i64_def)
  ultimately have "\<forall>(cid, d) \<in> set vs. resolved nc cid \<noteq> c" by auto
  from fold_batch_write_later[OF this, of i] show ?thesis
    using data assms(2) by (simp add: batch_write_def cs resolved_def)
qed

text \<open>No version is above the engine's timestamp.\<close>

definition engine_inv ::
  "('d \<Rightarrow> (bytes \<times> bytes) list) \<Rightarrow> ('l \<Rightarrow> (bytes \<times> bytes) list) \<Rightarrow> ('d, 'l) engine \<Rightarrow> bool" where
  "engine_inv it dit e \<longleftrightarrow> engine_ok it dit e \<and>
     (\<forall>c i t. doc_history (documents_of it e) c i t \<noteq> None \<longrightarrow> t \<le> e_ts e)"

definition read_after :: "document_write option \<Rightarrow> bytes option \<Rightarrow> bytes option" where
  "read_after x old = (case x of None \<Rightarrow> old | Some w \<Rightarrow> written w)"

lemma batch_visible:
  assumes "\<forall>(cid, data) \<in> set cs. bt_ok (cw_documents data)"
    and "doc_history d' = batch_versions nc now cs (doc_history d)"
    and "\<And>t. doc_history d c i t \<noteq> None \<Longrightarrow> t \<le> now"
  shows "doc_visible d' ts c i =
    (if ts < now then doc_visible d ts c i else read_after (batch_write nc cs c i) (doc_visible d ts c i))"
proof (cases "batch_write nc cs c i")
  case None
  then have "doc_history d' c i = doc_history d c i"
    using batch_versions_eq[OF assms(1)] by (auto simp: assms(2))
  then show ?thesis using None by (simp add: doc_visible_def read_after_def)
next
  case (Some w)
  then have h: "doc_history d' c i = (doc_history d c i)(now \<mapsto> written w)"
    using batch_versions_eq[OF assms(1)] by (auto simp: assms(2))
  show ?thesis
  proof (cases "ts < now")
    case True
    then show ?thesis by (simp add: doc_visible_def h newest_upd_later)
  next
    case False
    then have "newest ((doc_history d c i)(now \<mapsto> written w)) ts = Some (written w)"
      using assms(3) by (intro newest_upd_now) force+
    then show ?thesis using False Some by (simp add: doc_visible_def h read_after_def)
  qed
qed

lemma ws_ok_documents: "ws_ok w \<Longrightarrow> \<forall>(cid, data) \<in> set (ws_collections w). bt_ok (cw_documents data)"
  by (auto simp: ws_ok_def cw_ok_def)

lemma put_inv:
  assumes H: "heed_laws H it dit" and run: "engine_put H w e = (Inr (), e')"
    and ok: "engine_inv it dit e" "batch_ok w" "batch_room e w"
  shows "engine_inv it dit e'"
proof -
  have ok': "engine_ok it dit e" using ok(1) by (simp add: engine_inv_def)
  have ts: "e_ts e \<le> ws_ts w" "e_ts e' = ws_ts w" using engine_put_ts[OF run] by blast+
  obtain nc where e': "engine_ok it dit e'" and h: "doc_history (documents_of it e') =
      batch_versions nc (ws_ts w) (ws_collections w) (doc_history (documents_of it e))"
    by (rule put_spec[OF H run ok' ok(2,3)])
  have bt: "\<forall>(cid, data) \<in> set (ws_collections w). bt_ok (cw_documents data)"
    by (rule ws_ok_documents) (use ok(2) in \<open>simp add: batch_ok_def\<close>)
  have "t \<le> e_ts e'" if "doc_history (documents_of it e') c i t \<noteq> None" for c i t
  proof (cases "t = ws_ts w")
    case False
    then have "t \<le> e_ts e"
      using that ok(1) unfolding h batch_versions_eq[OF bt] engine_inv_def by simp
    then show ?thesis using ts by simp
  qed (simp add: ts)
  then show ?thesis using e' by (simp add: engine_inv_def)
qed

text \<open>What readers see after a batch.\<close>

lemma put_visible:
  assumes H: "heed_laws H it dit" and run: "engine_put H w e = (Inr (), e')"
    and ok: "engine_inv it dit e" "batch_ok w" "batch_room e w"
  obtains nc where "docs_ok (documents_of it e')"
    "\<And>tmp n. map_of (ws_new_collections w) tmp = Some n \<Longrightarrow>
       \<exists>c. nc tmp = Some c \<and> names_of it e' n = Some (i64_to_be c)"
    "\<And>ts c i. doc_visible (documents_of it e') ts c i =
       (if ts < ws_ts w then doc_visible (documents_of it e) ts c i
        else read_after (batch_write nc (ws_collections w) c i) (doc_visible (documents_of it e) ts c i))"
    "engine_ok it dit e'" "names_of it e \<subseteq>\<^sub>m names_of it e'"
    "\<And>tmp. map_of (ws_new_collections w) tmp = None \<Longrightarrow> nc tmp = None"
    "dom (names_of it e') = dom (names_of it e) \<union> snd ` set (ws_new_collections w)"
    "\<And>cid data. (cid, data) \<in> set (ws_collections w) \<Longrightarrow> i64_val cid < 0 \<Longrightarrow> nc cid \<noteq> None"
proof (rule put_spec[OF H run _ ok(2,3)])
  show "engine_ok it dit e" using ok(1) by (simp add: engine_inv_def)
  fix nc :: "collection_id \<Rightarrow> collection_id option" and ni
  assume new: "names_of it e \<subseteq>\<^sub>m names_of it e'"
    "\<And>tmp. map_of (ws_new_collections w) tmp = None \<Longrightarrow> nc tmp = None"
    "dom (names_of it e') = dom (names_of it e) \<union> snd ` set (ws_new_collections w)"
    "\<And>cid data. (cid, data) \<in> set (ws_collections w) \<Longrightarrow> i64_val cid < 0 \<Longrightarrow> nc cid \<noteq> None"
  assume nc: "engine_ok it dit e'"
    "doc_history (documents_of it e') =
       batch_versions nc (ws_ts w) (ws_collections w) (doc_history (documents_of it e))"
    "\<And>tmp n. map_of (ws_new_collections w) tmp = Some n \<Longrightarrow>
       \<exists>c. nc tmp = Some c \<and> names_of it e' n = Some (i64_to_be c)"
  have bt: "\<forall>(cid, data) \<in> set (ws_collections w). bt_ok (cw_documents data)"
    by (rule ws_ok_documents) (use ok(2) in \<open>simp add: batch_ok_def\<close>)
  have "t \<le> ws_ts w" if "doc_history (documents_of it e) c i t \<noteq> None" for c i t
    using that ok(1) engine_put_ts[OF run] order_trans unfolding engine_inv_def by blast
  from batch_visible[OF bt nc(2) this] show thesis
    using nc(1,3) new by (intro that[of nc]) (auto simp: engine_ok_def)
qed

end
