(* ===== verification/Engine_Recovery.thy ===== *)
theory Engine_Recovery
  imports Engine_Batch
begin

text \<open>
  What is on disk after an operation of the engine, and what \<open>new\<close> reads back from it:
  \<open>persisted\<close> says that the metadata database agrees with the atomics, \<open>clean\<close> that moreover no
  counter waits to be saved. A call that returns leaves the engine clean, and reopening then
  restores it. A commit that fails does not: the timestamp is
  already raised in memory, and a second \<open>put\<close> of the same batch does not store it.
\<close>

section \<open>The metadata database\<close>

definition stored_u64 :: "('d \<Rightarrow> (bytes \<times> bytes) list) \<Rightarrow> ('d, 'l) dbs \<Rightarrow> bytes \<Rightarrow> u64" where
  "stored_u64 it s k = (case map_of (it (metadata_db s)) k of None \<Rightarrow> 0 | Some b \<Rightarrow> u64_from_be b)"

text \<open>What the engine keeps in the metadata database is 64-bit numbers.\<close>

definition engine_keys :: "bytes list" where
  "engine_keys = [METADATA_TS_KEY, METADATA_VISIBLE_TS_KEY, METADATA_COLLECTION_ID_KEY,
     METADATA_INDEX_ID_KEY, METADATA_INDEX_CHAIN_ID_KEY]"

definition metadata_ok :: "('d \<Rightarrow> (bytes \<times> bytes) list) \<Rightarrow> ('d, 'l) dbs \<Rightarrow> bool" where
  "metadata_ok it s \<longleftrightarrow>
     (\<forall>k \<in> set engine_keys. \<forall>b. map_of (it (metadata_db s)) k = Some b \<longrightarrow> length b = 8)"

definition persisted :: "('d \<Rightarrow> (bytes \<times> bytes) list) \<Rightarrow> ('d, 'l) engine \<Rightarrow> bool" where
  "persisted it e \<longleftrightarrow> metadata_ok it (e_dbs e) \<and>
     stored_u64 it (e_dbs e) METADATA_TS_KEY = e_ts e \<and>
     stored_u64 it (e_dbs e) METADATA_VISIBLE_TS_KEY = e_visible_ts e \<and>
     (collection_id_counter_changed e \<or>
        stored_u64 it (e_dbs e) METADATA_COLLECTION_ID_KEY = collection_id_counter e) \<and>
     (index_id_counter_changed e \<or>
        stored_u64 it (e_dbs e) METADATA_INDEX_ID_KEY = index_id_counter e) \<and>
     (index_chain_id_counter_changed e \<or>
        stored_u64 it (e_dbs e) METADATA_INDEX_CHAIN_ID_KEY = index_chain_id_counter e)"

lemma engine_keys_nonempty: "k \<in> set engine_keys \<Longrightarrow> k \<noteq> []"
  by (auto simp: engine_keys_def metadata_keys)

lemma load_u64_eq:
  assumes H: "heed_laws H it dit" and ok: "metadata_ok it (e_dbs e)" and k: "k \<in> set engine_keys"
  shows "load_u64 H k e = (Inr (stored_u64 it (e_dbs e) k), e)"
proof (cases "map_of (it (metadata_db (e_dbs e))) k")
  case None
  then show ?thesis using heed_get[OF H engine_keys_nonempty[OF k], of "metadata_db (e_dbs e)"]
    by (simp add: load_u64_def act_bind_def db_get_def act_read_def act_return_def stored_u64_def)
next
  case (Some b)
  then have "length b = 8" using ok k by (simp add: metadata_ok_def)
  then have "(decode_u64 b :: 'c storage_error + u64) = Inr (u64_from_be b)"
    by (simp add: decode_u64_def fixed_def)
  then show ?thesis using Some heed_get[OF H engine_keys_nonempty[OF k], of "metadata_db (e_dbs e)"]
    by (simp add: load_u64_def act_bind_def db_get_def act_read_def stored_u64_def)
qed

text \<open>Conversely, a number that was read is the stored one.\<close>

lemma load_u64_Inr:
  assumes H: "heed_laws H it dit" and key: "k \<in> set engine_keys" and run: "load_u64 H k e = (Inr v, e')"
  shows "e' = e \<and> v = stored_u64 it (e_dbs e) k \<and>
    (\<forall>b. map_of (it (metadata_db (e_dbs e))) k = Some b \<longrightarrow> length b = 8)"
  using run heed_get[OF H engine_keys_nonempty[OF key], of "metadata_db (e_dbs e)"]
  by (auto simp: load_u64_def act_bind_def db_get_def act_read_def act_return_def stored_u64_def
      decode_u64_def fixed_def split: option.splits if_splits sum.splits)

definition reopened :: "('d \<Rightarrow> (bytes \<times> bytes) list) \<Rightarrow> ('d, 'l) dbs \<Rightarrow> ('d, 'l) engine" where
  "reopened it s = \<lparr>e_dbs = s, e_ts = stored_u64 it s METADATA_TS_KEY,
     e_visible_ts = stored_u64 it s METADATA_VISIBLE_TS_KEY,
     collection_id_counter = stored_u64 it s METADATA_COLLECTION_ID_KEY,
     collection_id_counter_changed = False,
     index_id_counter = stored_u64 it s METADATA_INDEX_ID_KEY, index_id_counter_changed = False,
     index_chain_id_counter = stored_u64 it s METADATA_INDEX_CHAIN_ID_KEY,
     index_chain_id_counter_changed = False\<rparr>"

lemma engine_new_eq:
  assumes H: "heed_laws H it dit" and ok: "metadata_ok it s"
    and live: "h_write_txn H s = Inr ()" "h_commit H s = Inr ()"
  shows "engine_new H s = Inr (reopened it s)"
proof -
  have load: "load_u64 H k e = (Inr (stored_u64 it s k), e)" if "e_dbs e = s" "k \<in> set engine_keys" for e k
    using load_u64_eq[OF H _ that(2), of e] ok that(1) by simp
  have "load_counters H (fresh_engine s) = (Inr (), reopened it s)"
    by (simp add: load_counters_def act_bind_def act_then_def act_modify_def load fresh_engine_def
        engine_keys_def reopened_def)
  then show ?thesis using live by (simp add: engine_new_def write_txn_def reopened_def fresh_engine_def)
qed

lemma load_counters_Inr:
  assumes H: "heed_laws H it dit" and run: "load_counters H (fresh_engine s) = (Inr (), e)"
  shows "metadata_ok it s \<and> e = reopened it s"
proof -
  have load: "e2 = e1 \<and> v = stored_u64 it (e_dbs e1) k \<and>
      (\<forall>b. map_of (it (metadata_db (e_dbs e1))) k = Some b \<longrightarrow> length b = 8)"
    if "load_u64 H k e1 = (Inr v, e2)" "k \<in> set engine_keys" for k e1 v e2
    by (rule load_u64_Inr[OF H that(2,1)])
  obtain v1 e1 v2 e2 v3 e3 v4 e4 v5 e5 where
    1: "load_u64 H METADATA_TS_KEY (fresh_engine s) = (Inr v1, e1)" and
    2: "load_u64 H METADATA_VISIBLE_TS_KEY (e1\<lparr>e_ts := v1\<rparr>) = (Inr v2, e2)" and
    3: "load_u64 H METADATA_COLLECTION_ID_KEY (e2\<lparr>e_visible_ts := v2\<rparr>) = (Inr v3, e3)" and
    4: "load_u64 H METADATA_INDEX_ID_KEY (e3\<lparr>collection_id_counter := v3\<rparr>) = (Inr v4, e4)" and
    5: "load_u64 H METADATA_INDEX_CHAIN_ID_KEY (e4\<lparr>index_id_counter := v4\<rparr>) = (Inr v5, e5)" and
    e: "e = e5\<lparr>index_chain_id_counter := v5, collection_id_counter_changed := False,
      index_id_counter_changed := False, index_chain_id_counter_changed := False\<rparr>"
    using run by (auto simp: load_counters_def act_bind_def act_then_def act_modify_def split: sum.splits prod.splits)
  show ?thesis
    using load[OF 1] load[OF 2] load[OF 3] load[OF 4] load[OF 5]
    by (simp add: e engine_keys_def metadata_ok_def reopened_def fresh_engine_def)
qed

section \<open>A batch that commits is on disk\<close>

definition metadata_part :: "('d, 'l) engine \<Rightarrow> 'd" where
  "metadata_part e = metadata_db (e_dbs e)"

text \<open>Before the counters are saved, an operation marks the counters it changes.\<close>

definition marked :: "('d \<Rightarrow> (bytes \<times> bytes) list) \<Rightarrow> ('d, 'l) engine \<Rightarrow> bool" where
  "marked it e \<longleftrightarrow>
     (collection_id_counter_changed e \<or>
        stored_u64 it (e_dbs e) METADATA_COLLECTION_ID_KEY = collection_id_counter e) \<and>
     (index_id_counter_changed e \<or>
        stored_u64 it (e_dbs e) METADATA_INDEX_ID_KEY = index_id_counter e) \<and>
     (index_chain_id_counter_changed e \<or>
        stored_u64 it (e_dbs e) METADATA_INDEX_CHAIN_ID_KEY = index_chain_id_counter e)"

definition keeps_marked :: "('d \<Rightarrow> (bytes \<times> bytes) list) \<Rightarrow> ('d, 'l, 'e, 'a) engine_act \<Rightarrow> bool" where
  "keeps_marked it m \<longleftrightarrow> preserves metadata_part m \<and> (\<forall>e. marked it e \<longrightarrow> marked it (snd (m e)))"

lemma keeps_marked_run:
  assumes "keeps_marked it m" "m e = (r, e')"
  shows "metadata_part e' = metadata_part e" "marked it e \<Longrightarrow> marked it e'"
proof -
  show "metadata_part e' = metadata_part e"
    using assms unfolding keeps_marked_def preserves_def by (metis snd_conv)
  have "marked it e \<longrightarrow> marked it (snd (m e))" using assms(1) unfolding keeps_marked_def by blast
  then show "marked it e \<Longrightarrow> marked it e'" using assms(2) by simp
qed

lemma keeps_marked_base [frame]:
  "keeps_marked it (act_return x)" "keeps_marked it (act_fail y)" "keeps_marked it (act_read f)"
  "keeps_marked it (db_get H sel k)"
  by (simp_all add: keeps_marked_def db_get_def frame)
     (simp_all add: act_return_def act_fail_def act_read_def)

lemma keeps_marked_bind [frame]:
  "keeps_marked it m \<Longrightarrow> (\<And>x. keeps_marked it (k x)) \<Longrightarrow> keeps_marked it (act_bind m k)"
proof -
  assume m: "keeps_marked it m" and k: "\<And>x. keeps_marked it (k x)"
  have "marked it (snd (act_bind m k e))" if e: "marked it e" for e
  proof -
    obtain r e1 where 1: "m e = (r, e1)" by force
    then have "marked it e1" using m e unfolding keeps_marked_def by (metis snd_conv)
    then show ?thesis using 1 k unfolding keeps_marked_def by (auto simp: act_bind_def split: sum.splits)
  qed
  then show ?thesis using m k preserves_bind unfolding keeps_marked_def by blast
qed

lemma keeps_marked_then [frame]:
  "keeps_marked it m \<Longrightarrow> keeps_marked it k \<Longrightarrow> keeps_marked it (act_then m k)"
  by (simp add: act_then_def keeps_marked_bind)

lemma keeps_marked_for [frame]: "(\<And>x. keeps_marked it (g x)) \<Longrightarrow> keeps_marked it (act_for xs g)"
  by (induction xs) (auto intro: keeps_marked_base keeps_marked_then)

lemma keeps_marked_option [frame]:
  "keeps_marked it a \<Longrightarrow> (\<And>x. keeps_marked it (b x)) \<Longrightarrow>
   keeps_marked it (case r of None \<Rightarrow> a | Some x \<Rightarrow> b x)"
  by (simp split: option.splits)

lemma keeps_marked_cases [frame]:
  "keeps_marked it a \<Longrightarrow> keeps_marked it b \<Longrightarrow> keeps_marked it (if c then a else b)"
  "(\<And>x y. keeps_marked it (g x y)) \<Longrightarrow> keeps_marked it (case p of (x, y) \<Rightarrow> g x y)"
  by (simp_all split: prod.splits)

lemma keeps_marked_write:
  assumes "\<And>s d. metadata_db (upd (\<lambda>_. d) s) = metadata_db s"
  shows "keeps_marked it (db_write sel upd g)"
  using assms
  by (auto simp: keeps_marked_def preserves_def metadata_part_def marked_def stored_u64_def
      db_write_def act_update_def split: sum.splits)

lemma keeps_marked_writes [frame]:
  "keeps_marked it (db_write index_edges index_edges_update f)"
  "keeps_marked it (db_write documents documents_update f)"
  "keeps_marked it (db_write collections_catalog collections_catalog_update f)"
  "keeps_marked it (db_write collection_ids_by_name collection_ids_by_name_update f)"
  "keeps_marked it (db_write indexes_catalog indexes_catalog_update f)"
  "keeps_marked it (db_write vacuum_targets vacuum_targets_update f)"
  by (rule keeps_marked_write; simp)+

lemma keeps_marked_leaves [frame]: "keeps_marked it (leaves_write g)"
  by (auto simp: keeps_marked_def preserves_def metadata_part_def marked_def stored_u64_def
      leaves_write_def act_update_def split: sum.splits)

lemma keeps_marked_allocate [frame]:
  "keeps_marked it allocate_collection_id" "keeps_marked it allocate_index_id"
  "keeps_marked it allocate_chain_id"
  by (auto simp: keeps_marked_def preserves_def metadata_part_def marked_def Let_def
      allocate_collection_id_def allocate_index_id_def allocate_chain_id_def)

lemma keeps_marked_make_path [frame]: "keeps_marked it (make_path H iid p ss)"
  by (induction ss arbitrary: p) (auto simp: find_or_create_index_edge_def Let_def intro!: frame)

lemma keeps_marked_prune [frame]: "keeps_marked it (prune_path H iid path)"
  by (induction path) (auto simp: index_node_has_entries_def Let_def intro!: frame)

lemma keeps_marked_find_path [frame]: "keeps_marked it (find_path H iid p ss)"
  by (induction ss arbitrary: p) (auto intro!: frame)

lemma keeps_marked_create_collections [frame]: "keeps_marked it (create_collections H ts ncs m)"
  by (induction ncs arbitrary: m)
    (auto simp: create_collection_def collection_id_by_name_def put_collection_catalog_entry_def
      put_collection_id_by_name_def intro!: frame)

lemma keeps_marked_create_indexes [frame]: "keeps_marked it (create_indexes H nc nis m)"
proof -
  have 1: "keeps_marked it (create_indexes_of H c xs m)" for c xs m
    by (induction xs arbitrary: m) (auto simp: create_index_def Let_def intro!: frame)
  show ?thesis by (induction nis arbitrary: m) (auto intro!: frame 1)
qed

lemma keeps_marked_index_write [frame]: "keeps_marked it (put_index_write H iid x)"
  by (auto simp: put_index_write_def put_index_entry_def delete_index_entry_def Let_def
      intro!: frame split: prod.splits index_write.splits)

lemma keeps_marked_put_collection [frame]: "keeps_marked it (put_collection H nc ni ts x)"
  by (auto simp: put_collection_def put_document_write_def put_index_writes_def
      update_collection_metadata_def collection_by_id_def put_collection_catalog_entry_def intro!: frame)

lemma stored_u64_put:
  assumes "heed_laws H it dit" "h_put H (metadata_db s) k (u64_to_be v) = Inr d"
  shows "stored_u64 it (s\<lparr>metadata_db := d\<rparr>) k' = (if k' = k then v else stored_u64 it s k')"
    and "metadata_ok it s \<Longrightarrow> metadata_ok it (s\<lparr>metadata_db := d\<rparr>)"
  using heed_put[OF assms] by (auto simp: stored_u64_def metadata_ok_def)

text \<open>Nothing on disk is older than the atomics: the state a successful call leaves.\<close>

definition clean :: "('d \<Rightarrow> (bytes \<times> bytes) list) \<Rightarrow> ('d, 'l) engine \<Rightarrow> bool" where
  "clean it e \<longleftrightarrow> persisted it e \<and> \<not> collection_id_counter_changed e \<and>
     \<not> index_id_counter_changed e \<and> \<not> index_chain_id_counter_changed e"

lemma clean_reopened: "clean it e \<Longrightarrow> reopened it (e_dbs e) = e"
  by (cases e) (auto simp: clean_def persisted_def reopened_def)

lemma save_collection_counter_spec:
  assumes H: "heed_laws H it dit" and p: "persisted it e"
    and run: "save_collection_counter H e = (Inr (), e')"
  shows "persisted it e' \<and> \<not> collection_id_counter_changed e' \<and>
    index_id_counter_changed e' = index_id_counter_changed e \<and>
    index_chain_id_counter_changed e' = index_chain_id_counter_changed e"
  using run p stored_u64_put[OF H, of "e_dbs e"]
  by (auto simp: save_collection_counter_def act_Inr persisted_def metadata_keys split: if_splits)

lemma save_index_counter_spec:
  assumes H: "heed_laws H it dit" and p: "persisted it e"
    and run: "save_index_counter H e = (Inr (), e')"
  shows "persisted it e' \<and> \<not> index_id_counter_changed e' \<and>
    collection_id_counter_changed e' = collection_id_counter_changed e \<and>
    index_chain_id_counter_changed e' = index_chain_id_counter_changed e"
  using run p stored_u64_put[OF H, of "e_dbs e"]
  by (auto simp: save_index_counter_def act_Inr persisted_def metadata_keys split: if_splits)

lemma save_chain_counter_spec:
  assumes H: "heed_laws H it dit" and p: "persisted it e"
    and run: "save_chain_counter H e = (Inr (), e')"
  shows "persisted it e' \<and> \<not> index_chain_id_counter_changed e' \<and>
    collection_id_counter_changed e' = collection_id_counter_changed e \<and>
    index_id_counter_changed e' = index_id_counter_changed e"
  using run p stored_u64_put[OF H, of "e_dbs e"]
  by (auto simp: save_chain_counter_def act_Inr persisted_def metadata_keys split: if_splits)

lemma save_counters_spec:
  assumes H: "heed_laws H it dit" and p: "persisted it e" and run: "save_counters H e = (Inr (), e')"
  shows "clean it e'"
proof -
  obtain e1 e2 where 1: "save_collection_counter H e = (Inr (), e1)"
    and 2: "save_index_counter H e1 = (Inr (), e2)" and 3: "save_chain_counter H e2 = (Inr (), e')"
    using run by (auto simp: save_counters_def act_Inr)
  note s1 = save_collection_counter_spec[OF H p 1]
  note s2 = save_index_counter_spec[OF H conjunct1[OF s1] 2]
  note s3 = save_chain_counter_spec[OF H conjunct1[OF s2] 3]
  show ?thesis using s1 s2 s3 by (simp add: clean_def)
qed

lemma set_ts_in_spec:
  assumes H: "heed_laws H it dit" and p: "persisted it e" and run: "set_ts_in H ts e = (Inr (), e')"
  shows "persisted it e'"
  using run p stored_u64_put[OF H, of "e_dbs e"]
  by (auto simp: set_ts_in_def act_Inr persisted_def metadata_keys split: if_splits)

text \<open>The part of \<open>put\<close> before the timestamp is stored.\<close>

lemma put_prefix:
  assumes "put_body H w e = (Inr (), e')"
  obtains e3 e4 where "act_bind (create_collections H (ws_ts w) (ws_new_collections w) (\<lambda>_. None)) (\<lambda>nc.
      act_bind (create_indexes H nc (ws_new_indexes w) (\<lambda>_. None)) (\<lambda>ni.
      act_for (ws_collections w) (put_collection H nc ni (ws_ts w)))) e = (Inr (), e3)"
    "set_ts_in H (ws_ts w) e3 = (Inr (), e4)" "save_counters H e4 = (Inr (), e')"
proof -
  obtain nc e1 ni e2 e3 e4 where
    1: "create_collections H (ws_ts w) (ws_new_collections w) (\<lambda>_. None) e = (Inr nc, e1)"
    "create_indexes H nc (ws_new_indexes w) (\<lambda>_. None) e1 = (Inr ni, e2)"
    "act_for (ws_collections w) (put_collection H nc ni (ws_ts w)) e2 = (Inr (), e3)" and
    2: "set_ts_in H (ws_ts w) e3 = (Inr (), e4)" "save_counters H e4 = (Inr (), e')"
    using assms by (auto simp: put_body_def act_Inr)
  show thesis by (rule that[OF _ 2]) (simp add: act_bind_def 1)
qed

theorem put_persists:
  assumes H: "heed_laws H it dit" and p: "persisted it e" and run: "engine_put H w e = (Inr (), e')"
  shows "clean it e'"
proof -
  have body: "put_body H w e = (Inr (), e')" using run write_txn_Inr by (simp add: engine_put_def)
  let ?m = "act_bind (create_collections H (ws_ts w) (ws_new_collections w) (\<lambda>_. None)) (\<lambda>nc.
      act_bind (create_indexes H nc (ws_new_indexes w) (\<lambda>_. None)) (\<lambda>ni.
      act_for (ws_collections w) (put_collection H nc ni (ws_ts w))))"
  obtain e3 e4 where 1: "?m e = (Inr (), e3)" and 2: "set_ts_in H (ws_ts w) e3 = (Inr (), e4)"
    and 3: "save_counters H e4 = (Inr (), e')" by (rule put_prefix[OF body])
  have k: "keeps_marked it ?m" by (intro frame)
  have t: "preserves timestamps ?m" by (intro frame)
  have meta: "metadata_part e3 = metadata_part e"
    by (rule keeps_marked_run(1)[OF k 1])
  have "marked it e" using p by (simp add: persisted_def marked_def)
  then have "marked it e3" by (rule keeps_marked_run(2)[OF k 1])
  then have "persisted it e3"
    using p meta preserves_eq[OF t 1]
    by (simp add: persisted_def marked_def metadata_part_def timestamps_def metadata_ok_def stored_u64_def)
  then show ?thesis using set_ts_in_spec[OF H _ 2] save_counters_spec[OF H _ 3] by blast
qed

lemma clean_of_reopened: "metadata_ok it s \<Longrightarrow> clean it (reopened it s)"
  by (simp add: clean_def persisted_def reopened_def)

lemma set_ts_clean:
  assumes H: "heed_laws H it dit" and c: "clean it e"
  shows "engine_set_ts H ts e = (Inr (), e') \<Longrightarrow> clean it e'"
    and "engine_set_visible_ts H ts e = (Inr (), e') \<Longrightarrow> clean it e'"
  using c stored_u64_put[OF H, of "e_dbs e"]
  by (auto simp: engine_set_ts_def engine_set_visible_ts_def write_txn_def set_ts_in_def db_write_def
      act_update_def act_then_def act_bind_def act_modify_def clean_def persisted_def metadata_keys
      split: sum.splits if_splits)

section \<open>A commit that fails\<close>

text \<open>
  When the commit of a batch fails after its timestamp was stored in memory, writing the same
  batch again succeeds without storing the timestamp: \<open>set_ts\<close> finds it unchanged.
\<close>

lemma put_same_ts_stored:
  assumes H: "heed_laws H it dit" and run: "engine_put H w e = (Inr (), e')" and ts: "e_ts e = ws_ts w"
  shows "stored_u64 it (e_dbs e') METADATA_TS_KEY = stored_u64 it (e_dbs e) METADATA_TS_KEY"
proof -
  have body: "put_body H w e = (Inr (), e')" using run write_txn_Inr by (simp add: engine_put_def)
  let ?m = "act_bind (create_collections H (ws_ts w) (ws_new_collections w) (\<lambda>_. None)) (\<lambda>nc.
      act_bind (create_indexes H nc (ws_new_indexes w) (\<lambda>_. None)) (\<lambda>ni.
      act_for (ws_collections w) (put_collection H nc ni (ws_ts w))))"
  obtain e3 e4 where 1: "?m e = (Inr (), e3)" and 2: "set_ts_in H (ws_ts w) e3 = (Inr (), e4)"
    and 3: "save_counters H e4 = (Inr (), e')" by (rule put_prefix[OF body])
  have k: "keeps_marked it ?m" by (intro frame)
  have t: "preserves timestamps ?m" by (intro frame)
  have meta: "metadata_part e3 = metadata_part e"
    by (rule keeps_marked_run(1)[OF k 1])
  have "e4 = e3" using 2 preserves_eq[OF t 1] ts by (auto simp: set_ts_in_def timestamps_def)
  obtain e5 e6 where 4: "save_collection_counter H e4 = (Inr (), e5)"
    and 5: "save_index_counter H e5 = (Inr (), e6)" and 6: "save_chain_counter H e6 = (Inr (), e')"
    using 3 by (auto simp: save_counters_def act_Inr)
  have "stored_u64 it (e_dbs e5) METADATA_TS_KEY = stored_u64 it (e_dbs e4) METADATA_TS_KEY"
    using 4 stored_u64_put(1)[OF H, of "e_dbs e4"]
    by (auto simp: save_collection_counter_def act_Inr metadata_keys split: if_splits)
  moreover have "stored_u64 it (e_dbs e6) METADATA_TS_KEY = stored_u64 it (e_dbs e5) METADATA_TS_KEY"
    using 5 stored_u64_put(1)[OF H, of "e_dbs e5"]
    by (auto simp: save_index_counter_def act_Inr metadata_keys split: if_splits)
  moreover have "stored_u64 it (e_dbs e') METADATA_TS_KEY = stored_u64 it (e_dbs e6) METADATA_TS_KEY"
    using 6 stored_u64_put(1)[OF H, of "e_dbs e6"]
    by (auto simp: save_chain_counter_def act_Inr metadata_keys split: if_splits)
  ultimately show ?thesis using meta \<open>e4 = e3\<close> by (simp add: metadata_part_def stored_u64_def)
qed

end
