(* ===== verification/Transaction.thy ===== *)
theory Transaction
  imports Documents Write_Set
begin

text \<open>
  \<open>HeedDatastoreTransaction\<close> (\<open>implementations/heed/transaction.rs\<close>): a snapshot of the
  databases, a timestamp and the pending writes. Reads and document scans overlay the writes on
  the snapshot; the scan is shown to visit exactly the documents \<open>get\<close> returns, in order.
\<close>

section \<open>State\<close>

record ('d, 'l) transaction =
  tx_dbs :: "('d, 'l) dbs"
  tx_ts :: TS
  tx_writes :: write_set

definition transaction_new :: "('d, 'l) dbs \<Rightarrow> TS \<Rightarrow> ('d, 'l) transaction" where
  "transaction_new s ts =
     \<lparr>tx_dbs = s, tx_ts = ts, tx_writes = default_write_set\<lparr>ws_ts := ts\<rparr>\<rparr>"

definition into_write_set :: "TS \<Rightarrow> ('d, 'l) transaction \<Rightarrow> write_set" where
  "into_write_set ts tx = (tx_writes tx)\<lparr>ws_ts := ts\<rparr>"

text \<open>The write operations change the pending writes and return \<open>Ok\<close>.\<close>

definition tx_write ::
  "(write_set \<Rightarrow> write_set) \<Rightarrow> ('d, 'l) transaction \<Rightarrow> ('d, 'l) transaction" where
  "tx_write f tx = tx\<lparr>tx_writes := f (tx_writes tx)\<rparr>"

definition tx_put ::
  "collection_id \<Rightarrow> document_id \<Rightarrow> bytes \<Rightarrow> ('d, 'l) transaction \<Rightarrow> ('d, 'l) transaction" where
  "tx_put cid key v = tx_write (ws_put cid key v)"

definition tx_put_many ::
  "collection_id \<Rightarrow> (document_id \<times> bytes) list \<Rightarrow> ('d, 'l) transaction \<Rightarrow> ('d, 'l) transaction" where
  "tx_put_many cid docs = tx_write (ws_put_many cid docs)"

definition tx_put_index_entry ::
  "collection_id \<Rightarrow> index_id \<Rightarrow> bytes \<Rightarrow> document_id \<Rightarrow>
   ('d, 'l) transaction \<Rightarrow> ('d, 'l) transaction" where
  "tx_put_index_entry cid iid key did = tx_write (ws_put_index_entry cid iid key did)"

definition tx_put_index_entries ::
  "collection_id \<Rightarrow> (index_id \<times> bytes \<times> document_id) list \<Rightarrow>
   ('d, 'l) transaction \<Rightarrow> ('d, 'l) transaction" where
  "tx_put_index_entries cid es = tx_write (ws_put_index_entries cid es)"

definition tx_delete ::
  "collection_id \<Rightarrow> document_id \<Rightarrow> ('d, 'l) transaction \<Rightarrow> ('d, 'l) transaction" where
  "tx_delete cid key = tx_write (ws_delete cid key)"

definition tx_delete_many ::
  "collection_id \<Rightarrow> document_id list \<Rightarrow> ('d, 'l) transaction \<Rightarrow> ('d, 'l) transaction" where
  "tx_delete_many cid keys = tx_write (ws_delete_many cid keys)"

definition tx_delete_index_entry ::
  "collection_id \<Rightarrow> index_id \<Rightarrow> bytes \<Rightarrow> document_id \<Rightarrow>
   ('d, 'l) transaction \<Rightarrow> ('d, 'l) transaction" where
  "tx_delete_index_entry cid iid key did = tx_write (ws_delete_index_entry cid iid key did)"

definition tx_delete_index_entries ::
  "collection_id \<Rightarrow> (index_id \<times> bytes \<times> document_id) list \<Rightarrow>
   ('d, 'l) transaction \<Rightarrow> ('d, 'l) transaction" where
  "tx_delete_index_entries cid es = tx_write (ws_delete_index_entries cid es)"

definition tx_new_collection ::
  "collection_id \<Rightarrow> rstring \<Rightarrow> ('d, 'l) transaction \<Rightarrow> ('d, 'l) transaction" where
  "tx_new_collection cid name = tx_write (ws_new_collection cid name)"

definition tx_new_index ::
  "collection_id \<Rightarrow> index_id \<Rightarrow> rstring \<Rightarrow> bytes \<Rightarrow>
   ('d, 'l) transaction \<Rightarrow> ('d, 'l) transaction" where
  "tx_new_index cid iid name metadata = tx_write (ws_new_index cid iid name metadata)"

definition tx_update_collection_metadata ::
  "collection_id \<Rightarrow> bytes \<Rightarrow> ('d, 'l) transaction \<Rightarrow> ('d, 'l) transaction" where
  "tx_update_collection_metadata cid metadata =
     tx_write (ws_update_collection_metadata cid metadata)"

section \<open>Reading a document\<close>

definition visible_document ::
  "('d, 'l, 'e) heed \<Rightarrow> write_set \<Rightarrow> 'd \<Rightarrow> TS \<Rightarrow> collection_id \<Rightarrow> document_id \<Rightarrow>
   'e storage_error + bytes option" where
  "visible_document H writes d ts cid key =
     (case Option.bind (map_of (ws_collections writes) cid) (\<lambda>c. map_of (cw_documents c) key) of
        Some (Document_put v) \<Rightarrow> Inr (Some v)
      | Some Document_deleted \<Rightarrow> Inr None
      | None \<Rightarrow> stored_document H d ts cid key)"

definition tx_get ::
  "('d, 'l, 'e) heed \<Rightarrow> ('d, 'l) transaction \<Rightarrow> collection_id \<Rightarrow> document_id \<Rightarrow>
   'e storage_error + bytes option" where
  "tx_get H tx cid key =
     visible_document H (tx_writes tx) (documents (tx_dbs tx)) (tx_ts tx) cid key"

section \<open>Scanning the documents of a collection\<close>

text \<open>The pending puts in cursor order, and the ids of all pending writes.\<close>

definition overlay_document_entries ::
  "write_set \<Rightarrow> collection_id \<Rightarrow> document_id cursor_start \<Rightarrow> direction \<Rightarrow>
   document_entry list \<times> document_id set" where
  "overlay_document_entries writes cid start dir =
     (case map_of (ws_collections writes) cid of
        None \<Rightarrow> ([], {})
      | Some c \<Rightarrow>
          (let touched = set (map fst (cw_documents c));
               entries = List.map_filter (\<lambda>(i, w).
                 if \<not> accepts_start i start dir then None
                 else case w of
                        Document_put v \<Rightarrow> Some \<lparr>de_id = i, de_value = v\<rparr>
                      | Document_deleted \<Rightarrow> None) (cw_documents c)
           in (if dir = Reverse then rev entries else entries, touched)))"

text \<open>\<open>MergedDocumentCursor\<close>: its \<open>next_base\<close> skips the documents with a pending write.\<close>

definition document_next_base ::
  "document_id set \<Rightarrow> ('e document_cursor, 'e, document_entry) cursor" where
  "document_next_base touched =
     seek (total document_next) (\<lambda>e. Inr (if de_id e \<in> touched then None else Some e))"

definition merged_document_next ::
  "document_id set \<Rightarrow> direction \<Rightarrow>
   (('e document_cursor, document_entry) merged, 'e, document_entry) cursor" where
  "merged_document_next touched dir = merged_next de_id dir (document_next_base touched)"

text \<open>\<open>get_cursor\<close>: the state of the cursor and the set its \<open>next\<close> consults.\<close>

definition get_cursor ::
  "('d, 'l, 'e) heed \<Rightarrow> ('d, 'l) transaction \<Rightarrow> collection_id \<Rightarrow> document_id cursor_start \<Rightarrow>
   direction \<Rightarrow>
   'e storage_error + document_id set \<times> ('e document_cursor, document_entry) merged" where
  "get_cursor H tx cid start dir =
     (case overlay_document_entries (tx_writes tx) cid start dir of
        (overlay, touched) \<Rightarrow>
          and_then (stored_document_cursor H (documents (tx_dbs tx)) (tx_ts tx) cid start dir)
            (\<lambda>base. Inr (touched, merged_new base overlay)))"

section \<open>What a transaction sees\<close>

lemma visible_document_eq:
  assumes "heed_laws H it dit" "docs_ok (it d)"
  shows "visible_document H writes d ts cid key =
    Inr (case ws_document writes cid key of
           Some (Document_put v) \<Rightarrow> Some v
         | Some Document_deleted \<Rightarrow> None
         | None \<Rightarrow> doc_visible (it d) ts cid key)"
  using stored_document_visible[OF assms, of ts cid key]
  by (auto simp: visible_document_def ws_document_def split: option.splits document_write.splits)

definition tx_view ::
  "('d \<Rightarrow> (bytes \<times> bytes) list) \<Rightarrow> ('d, 'l) transaction \<Rightarrow> collection_id \<Rightarrow> document_id \<Rightarrow>
   bytes option" where
  "tx_view it tx cid key =
     (case ws_document (tx_writes tx) cid key of
        Some (Document_put v) \<Rightarrow> Some v
      | Some Document_deleted \<Rightarrow> None
      | None \<Rightarrow> doc_visible (it (documents (tx_dbs tx))) (tx_ts tx) cid key)"

lemma tx_get_view:
  "heed_laws H it dit \<Longrightarrow> docs_ok (it (documents (tx_dbs tx))) \<Longrightarrow>
   tx_get H tx cid key = Inr (tx_view it tx cid key)"
  by (simp add: tx_get_def visible_document_eq tx_view_def)

lemma in_order_rev: "in_order key Reverse (rev xs) \<longleftrightarrow> in_order key Forward xs"
  by (simp add: in_order_def sorted_wrt_rev)

lemma map_filter_eq_filter: "List.map_filter (\<lambda>x. if P x then None else Some x) xs = filter (\<lambda>x. \<not> P x) xs"
  by (induction xs) (auto simp: map_filter_simps)

lemma in_set_map_filter: "y \<in> set (List.map_filter f xs) \<longleftrightarrow> (\<exists>x \<in> set xs. f x = Some y)"
  by (induction xs) (auto simp: map_filter_simps split: option.splits)

lemma collect_results_map: "(\<And>x. x \<in> set xs \<Longrightarrow> f x = Inr (g x)) \<Longrightarrow> collect_results f xs = Inr (map g xs)"
  by (induction xs) auto

lemma map_filter_id_map: "List.map_filter id (map g xs) = List.map_filter g xs"
  by (simp add: map_filter_def comp_def filter_map)

lemma in_order_map_filter:
  assumes "bt_ok t" "\<And>p y. p \<in> set t \<Longrightarrow> f p = Some y \<Longrightarrow> key y = fst p"
  shows "in_order key Forward (List.map_filter f t)"
  using assms
proof (induction t)
  case (Cons p t)
  from Cons.prems have lt: "\<forall>q \<in> set t. fst p < fst q" and ok: "bt_ok t" by (auto simp: bt_ok_def)
  have "in_order key Forward (List.map_filter f t)" using Cons.IH[OF ok] Cons.prems(2) by auto
  moreover have "key y < key z" if fy: "f p = Some y" and zt: "z \<in> set (List.map_filter f t)" for y z
  proof -
    obtain q where q: "q \<in> set t" "f q = Some z" using zt unfolding in_set_map_filter by blast
    then show ?thesis using Cons.prems(2)[of p y] Cons.prems(2)[of q z] fy lt by simp
  qed
  ultimately show ?case by (auto simp: map_filter_simps split: option.splits)
qed (simp add: map_filter_simps)

lemma overlay_document_spec:
  assumes "ws_ok w" and "overlay_document_entries w cid start dir = (overlay, touched)"
  shows "in_order de_id dir overlay"
    and "e \<in> set overlay \<longleftrightarrow>
      ws_document w cid (de_id e) = Some (Document_put (de_value e)) \<and> accepts_start (de_id e) start dir"
    and "i \<in> touched \<longleftrightarrow> ws_document w cid i \<noteq> None"
proof -
  have "in_order de_id dir overlay \<and>
    (e \<in> set overlay \<longleftrightarrow>
      ws_document w cid (de_id e) = Some (Document_put (de_value e)) \<and> accepts_start (de_id e) start dir) \<and>
    (i \<in> touched \<longleftrightarrow> ws_document w cid i \<noteq> None)"
  proof (cases "map_of (ws_collections w) cid")
    case None
    then show ?thesis using assms(2) by (auto simp: overlay_document_entries_def ws_document_def)
  next
    case (Some c)
    define f where "f = (\<lambda>(i, w). if \<not> accepts_start i start dir then None
       else case w of Document_put v \<Rightarrow> Some \<lparr>de_id = i, de_value = v\<rparr> | Document_deleted \<Rightarrow> None)"
    have bt: "bt_ok (cw_documents c)"
      using assms(1) Some by (auto simp: ws_ok_def cw_ok_def dest: map_of_SomeD)
    have o: "overlay = (if dir = Reverse then rev else id) (List.map_filter f (cw_documents c))"
      and t: "touched = fst ` set (cw_documents c)"
      using assms(2) Some by (auto simp: overlay_document_entries_def f_def Let_def)
    have "in_order de_id Forward (List.map_filter f (cw_documents c))"
      using bt by (rule in_order_map_filter) (auto simp: f_def split: if_splits document_write.splits)
    then have 1: "in_order de_id dir overlay" using o by (cases dir) (simp_all add: in_order_rev)
    have "e \<in> set overlay \<longleftrightarrow> (\<exists>p \<in> set (cw_documents c). f p = Some e)"
      using o by (simp add: in_set_map_filter)
    also have "\<dots> \<longleftrightarrow> (de_id e, Document_put (de_value e)) \<in> set (cw_documents c) \<and>
        accepts_start (de_id e) start dir"
      by (cases e) (force simp: f_def split: if_splits document_write.splits)
    finally show ?thesis
      using 1 t Some bt_ok_map_of[OF bt] by (auto simp: ws_document_def) (force dest: map_of_SomeD)+
  qed
  then show "in_order de_id dir overlay"
    and "e \<in> set overlay \<longleftrightarrow>
      ws_document w cid (de_id e) = Some (Document_put (de_value e)) \<and> accepts_start (de_id e) start dir"
    and "i \<in> touched \<longleftrightarrow> ws_document w cid i \<noteq> None" by blast+
qed

lemma yields_document_next_base:
  assumes "yields (total document_next) c xs"
  shows "yields (document_next_base touched) c (filter (\<lambda>e. de_id e \<notin> touched) xs)"
  using yields_seek[OF assms, where f = "\<lambda>e. Inr (if de_id e \<in> touched then None else Some e)"
      and g = "\<lambda>e. if de_id e \<in> touched then None else Some e"]
  by (simp add: document_next_base_def map_filter_eq_filter)

text \<open>A scan visits the documents the transaction sees, in order, each once.\<close>

lemma get_cursor_scan:
  fixes H :: "('d, 'l, 'e) heed"
  assumes H: "heed_laws H it dit" and ok: "docs_ok (it (documents (tx_dbs tx)))"
    and ws: "ws_ok (tx_writes tx)"
  obtains touched m xs where "get_cursor H tx cid start dir = Inr (touched, m)"
    "yields (merged_document_next touched dir) m xs" "in_order de_id dir xs"
    "set xs = {e. tx_view it tx cid (de_id e) = Some (de_value e) \<and> accepts_start (de_id e) start dir}"
proof -
  obtain base bs where base:
    "stored_document_cursor H (documents (tx_dbs tx)) (tx_ts tx) cid start dir = Inr base"
    "yields (total document_next) base bs" "in_order de_id dir bs"
    "set bs = {e. doc_visible (it (documents (tx_dbs tx))) (tx_ts tx) cid (de_id e) = Some (de_value e) \<and>
       accepts_start (de_id e) start dir}"
    by (rule stored_document_cursor_scan[OF H ok])
  obtain overlay touched where ov:
    "overlay_document_entries (tx_writes tx) cid start dir = (overlay, touched)" by force
  note spec = overlay_document_spec[OF ws ov]
  let ?bs = "filter (\<lambda>e. de_id e \<notin> touched) bs"
  let ?xs = "merge_by de_id dir ?bs overlay"
  have "yields (merged_document_next touched dir) (merged_new base overlay) ?xs"
    unfolding merged_document_next_def by (intro yields_merged yields_document_next_base base(2))
  moreover have "get_cursor H tx cid start dir = Inr (touched, merged_new base overlay)"
    using base(1) ov by (simp add: get_cursor_def)
  moreover have m: "set ?xs = {x \<in> set ?bs. de_id x \<notin> de_id ` set overlay} \<union> set overlay"
    "in_order de_id dir ?xs"
    using set_merge_by[OF in_order_filter[OF base(3)] spec(1), of "\<lambda>e. de_id e \<notin> touched"] by blast+
  moreover have "e \<in> set ?xs \<longleftrightarrow>
      tx_view it tx cid (de_id e) = Some (de_value e) \<and> accepts_start (de_id e) start dir" for e
  proof -
    have "de_id e \<notin> de_id ` set overlay" if "de_id e \<notin> touched"
      using that spec(2,3) by (auto simp: image_iff)
    then show ?thesis
      unfolding m(1) using spec(2)[of e] spec(3)[of "de_id e"] base(4)
      by (auto simp: tx_view_def split: option.splits document_write.splits)
  qed
  ultimately show thesis using that by blast
qed

end
