(* ===== verification/Sample_Runs.thy ===== *)
theory Sample_Runs
  imports Engine_Recovery Transaction
begin

text \<open>
  Concrete runs of the engine on \<open>log_heed\<close>, from an empty store: the inputs at which the
  properties of the engine are shown to apply. \<open>run_simps\<close> evaluates a run.
\<close>

lemma log_ops [simp]:
  "h_put log_heed d k v = (if legal_key k then Inr ((k, Some v) # d) else Inl Bad_val_size)"
  "h_delete log_heed d k = (if legal_key k then Inr ((k, None) # d) else Inl Bad_val_size)"
  "h_get log_heed d k = (if k = [] then Inl Bad_val_size else Inr (map_of (log_items d) k))"
  "h_get_le log_heed d k =
     (if k = [] then Inl Bad_val_size else Inr (find (\<lambda>(k', _). k' \<le> k) (rev (log_items d))))"
  "h_dup_put log_heed l k v =
     (if legal_key k \<and> length v \<le> 511 then Inr ((True, k, v) # l) else Inl Bad_val_size)"
  "h_dup_delete log_heed l k v = (if legal_key k then Inr ((False, k, v) # l) else Inl Bad_val_size)"
  "h_write_txn log_heed s = Inr ()" "h_commit log_heed s = Inr ()"
  by (simp_all add: log_heed_def)

lemma split_index_key_short: "length key \<le> 495 \<Longrightarrow> split_index_key key = [key]"
  by (simp add: split_index_key_rec)

lemmas act_defs = act_bind_def act_then_def act_read_def act_return_def act_update_def db_get_def
  db_write_def leaves_write_def Let_def

lemmas write_set_defs = ws_put_index_entry_def ws_put_def ws_delete_def collection_mut_def
  ws_new_collection_def default_write_set_def write_index_entry_def bt_entry_def cw_write_index_def
  cw_write_document_def default_collection_write_set_def

lemmas put_defs = engine_put_def put_body_def write_txn_def create_collection_def
  collection_id_by_name_def allocate_collection_id_def put_collection_catalog_entry_def
  put_collection_id_by_name_def put_collection_def resolve_collection_id_def i64_val_def
  put_document_write_def set_ts_in_def save_counters_def save_collection_counter_def
  save_index_counter_def save_chain_counter_def put_index_writes_def resolve_index_id_def
  put_index_write_def put_index_entry_def

lemmas run_simps = act_defs write_set_defs put_defs metadata_keys legal_key_def fresh_engine_def
  log_dbs_def split_index_key_short encode_index_document_id_def

text \<open>
  The batch creates a collection, stores a document in it and indexes the document under a key;
  the second batch deletes the document.
\<close>

definition sample_batch :: write_set where
  "sample_batch = ws_put_index_entry (I64 1) (I64 3) [7] 9
     (ws_put (I64 1) 9 [42] (ws_new_collection (I64 (- 1)) [97] (default_write_set\<lparr>ws_ts := 5\<rparr>)))"

definition second_batch :: write_set where
  "second_batch = ws_delete (I64 1) 9 (default_write_set\<lparr>ws_ts := 8\<rparr>)"

abbreviation empty_engine :: "(log_db, log_dup_db) engine" where
  "empty_engine \<equiv> fresh_engine log_dbs"

definition sample_engine :: "(log_db, log_dup_db) engine" where
  "sample_engine = \<lparr>e_dbs = log_dbs
      \<lparr>collections_catalog := [(encode_collection_catalog_key (I64 1) 5, Some (encode_collection_catalog_value [97] []))],
       collection_ids_by_name := [([97], Some (i64_to_be (I64 1)))],
       index_leaves := [(True, encode_index_node_key (I64 3) 0 [7], u128_to_be 9),
         (False, encode_index_node_key (I64 3) 0 [7], u128_to_be 9)],
       documents := [(encode_document_key (I64 1) 9 5, Some (encode_document_value [42]))],
       vacuum_targets := [(encode_vacuum_target_key (I64 1) 9, Some [])],
       metadata_db := [([2], Some (u64_to_be 1)), ([0], Some (u64_to_be 5))]\<rparr>,
     e_ts = 5, e_visible_ts = 0, collection_id_counter = 1, collection_id_counter_changed = False,
     index_id_counter = 0, index_id_counter_changed = False, index_chain_id_counter = 0,
     index_chain_id_counter_changed = False\<rparr>"

lemma sample_run: "engine_put log_heed sample_batch empty_engine = (Inr (), sample_engine)"
  by (simp add: run_simps sample_batch_def sample_engine_def ROOT_INDEX_CHAIN_ID_def)

lemma second_run: "\<exists>e. engine_put log_heed second_batch sample_engine = (Inr (), e)"
  by (simp add: run_simps second_batch_def sample_engine_def)

lemma engine_ok_empty: "engine_ok log_items log_dup_items empty_engine"
  by (simp add: engine_ok_def docs_ok_def documents_of_def index_ok_def trie_ok_def edges_of_def
      leaves_of_def catalog_ok_def catalog_rows_ok_def names_of_def catalog_of_def log_dup_items_def
      fresh_engine_def log_dbs_def bt_ok_def)

lemma persisted_empty: "persisted log_items empty_engine"
  by (simp add: persisted_def metadata_ok_def stored_u64_def fresh_engine_def log_dbs_def)

lemma sample_batch_ok: "batch_ok sample_batch" "batch_room empty_engine sample_batch"
proof -
  have "ws_ok sample_batch" by (simp add: sample_batch_def)
  moreover have "ws_new_collections sample_batch = [(I64 (- 1), [97])]"
    by (simp add: sample_batch_def write_set_defs)
  moreover have "name_ok [97]" by (simp add: name_ok_def)
  ultimately show "batch_ok sample_batch" by (simp add: batch_ok_def)
  show "batch_room empty_engine sample_batch"
    by (simp add: batch_room_def collection_room_def chain_room_def batch_segments_def
      collection_segments_def entries_segments_def sample_batch_def write_set_defs fresh_engine_def
      split_index_key_short)
qed

lemma second_batch_ok: "batch_ok second_batch" "batch_room sample_engine second_batch"
  by (simp_all add: second_batch_def batch_ok_def batch_room_def collection_room_def chain_room_def
      batch_segments_def collection_segments_def write_set_defs sample_engine_def)
     (simp add: ws_ok_def cw_ok_def bt_ok_def)

lemma engine_ok_sample: "engine_ok log_items log_dup_items sample_engine"
  by (rule put_spec[OF log_heed_laws sample_run engine_ok_empty sample_batch_ok])

lemma persisted_sample: "persisted log_items sample_engine"
  using put_persists[OF log_heed_laws persisted_empty sample_run] by (simp add: clean_def)

lemma engine_inv_empty: "engine_inv log_items log_dup_items empty_engine"
  using engine_ok_empty
  by (simp add: engine_inv_def doc_history_def documents_of_def fresh_engine_def log_dbs_def)

end
