(* ===== verification/Index_Cursor.thy ===== *)
theory Index_Cursor
  imports Index_Trie Documents
begin

text \<open>
  \<open>HeedIndexCursor\<close> of \<open>implementations/heed/cursors.rs\<close>: the walk over the index trie, a stack
  of frames that merge the leaves and the edges of one chain. The walk is shown to end and to
  visit exactly the positions in the index, in the order of the direction.
\<close>

section \<open>Frames\<close>

record index_candidate =
  ic_value :: bytes
  ic_document_id :: document_id

record leaf_candidate =
  lc_segment :: bytes
  lc_document_id :: document_id

record edge_candidate =
  ec_segment :: bytes
  ec_child_chain_id :: u64

datatype pending_action = Pending_leaf | Pending_edge

datatype index_cursor_action =
    Action_leaf index_candidate
  | Action_edge u64 bytes
  | Exhausted

record 'e index_frame =
  fr_value_prefix :: bytes
  fr_leaves :: "'e raw"
  fr_edges :: "'e raw"
  fr_pending_leaf :: "leaf_candidate option"
  fr_pending_edge :: "edge_candidate option"

text \<open>\<open>HeedIndexCursorOptions\<close>: all of the cursor but its stack, which is its state.\<close>

record ('d, 'l) index_cursor_options =
  io_collection :: collection_id
  io_index_id :: index_id
  io_edges :: 'd
  io_leaves :: 'l
  io_documents :: 'd
  io_ts :: TS
  io_start :: "index_position cursor_start"
  io_direction :: direction

definition frame_new ::
  "('d, 'l, 'e) heed \<Rightarrow> index_id \<Rightarrow> u64 \<Rightarrow> bytes \<Rightarrow> 'd \<Rightarrow> 'l \<Rightarrow> direction \<Rightarrow>
   'e storage_error + 'e index_frame" where
  "frame_new H iid chain value_prefix edges leaves dir =
     (let prefix = index_node_prefix iid chain
      in and_then (heed_call (case dir of
             Forward \<Rightarrow> h_dup_prefix H leaves prefix | Reverse \<Rightarrow> h_dup_rev_prefix H leaves prefix)) (\<lambda>ls.
         and_then (heed_call (case dir of
             Forward \<Rightarrow> h_prefix H edges prefix | Reverse \<Rightarrow> h_rev_prefix H edges prefix)) (\<lambda>es.
         Inr \<lparr>fr_value_prefix = value_prefix, fr_leaves = ls, fr_edges = es,
              fr_pending_leaf = None, fr_pending_edge = None\<rparr>)))"

definition next_leaf :: "('e index_frame, 'e storage_error, leaf_candidate option) act" where
  "next_leaf f =
     (case next_raw (fr_leaves f) of
        (Inl e, raw) \<Rightarrow> (Inl e, f\<lparr>fr_leaves := raw\<rparr>)
      | (Inr None, raw) \<Rightarrow> (Inr None, f\<lparr>fr_leaves := raw\<rparr>)
      | (Inr (Some (key, v)), raw) \<Rightarrow>
          (and_then (decode_index_node_key key) (\<lambda>(_, _, segment).
           and_then (decode_index_document_id v) (\<lambda>d.
           Inr (Some \<lparr>lc_segment = segment, lc_document_id = d\<rparr>))), f\<lparr>fr_leaves := raw\<rparr>))"

definition next_edge :: "('e index_frame, 'e storage_error, edge_candidate option) act" where
  "next_edge f =
     (case next_raw (fr_edges f) of
        (Inl e, raw) \<Rightarrow> (Inl e, f\<lparr>fr_edges := raw\<rparr>)
      | (Inr None, raw) \<Rightarrow> (Inr None, f\<lparr>fr_edges := raw\<rparr>)
      | (Inr (Some (key, v)), raw) \<Rightarrow>
          (and_then (decode_index_node_key key) (\<lambda>(_, _, segment).
           and_then (decode_u64 v) (\<lambda>c.
           Inr (Some \<lparr>ec_segment = segment, ec_child_chain_id = c\<rparr>))), f\<lparr>fr_edges := raw\<rparr>))"

definition choose_action :: "direction \<Rightarrow> 'e index_frame \<Rightarrow> pending_action option" where
  "choose_action dir f =
     (case (fr_pending_leaf f, fr_pending_edge f) of
        (Some _, None) \<Rightarrow> Some Pending_leaf
      | (None, Some _) \<Rightarrow> Some Pending_edge
      | (None, None) \<Rightarrow> None
      | (Some l, Some edge) \<Rightarrow>
          Some (case dir of
            Forward \<Rightarrow> if lc_segment l \<le> ec_segment edge then Pending_leaf else Pending_edge
          | Reverse \<Rightarrow> if ec_segment edge < lc_segment l then Pending_leaf else Pending_edge))"

text \<open>\<open>next_action\<close> fills the two pending candidates and takes one of them.\<close>

definition fill_leaf :: "('e index_frame, 'e storage_error, unit) act" where
  "fill_leaf f =
     (if fr_pending_leaf f = None
      then act_bind next_leaf (\<lambda>r. act_modify (\<lambda>f. f\<lparr>fr_pending_leaf := r\<rparr>)) f
      else (Inr (), f))"

definition fill_edge :: "('e index_frame, 'e storage_error, unit) act" where
  "fill_edge f =
     (if fr_pending_edge f = None
      then act_bind next_edge (\<lambda>r. act_modify (\<lambda>f. f\<lparr>fr_pending_edge := r\<rparr>)) f
      else (Inr (), f))"

definition take_action :: "direction \<Rightarrow> ('e index_frame, 'e storage_error, index_cursor_action) act" where
  "take_action dir f =
     (case choose_action dir f of
        None \<Rightarrow> (Inr Exhausted, f)
      | Some Pending_leaf \<Rightarrow>
          (let l = the (fr_pending_leaf f)
           in (Inr (Action_leaf \<lparr>ic_value = fr_value_prefix f @ lc_segment l,
                 ic_document_id = lc_document_id l\<rparr>), f\<lparr>fr_pending_leaf := None\<rparr>))
      | Some Pending_edge \<Rightarrow>
          (let edge = the (fr_pending_edge f)
           in (Inr (Action_edge (ec_child_chain_id edge) (fr_value_prefix f @ ec_segment edge)),
               f\<lparr>fr_pending_edge := None\<rparr>)))"

definition next_action :: "direction \<Rightarrow> ('e index_frame, 'e storage_error, index_cursor_action) act" where
  "next_action dir = act_then fill_leaf (act_then fill_edge (take_action dir))"

section \<open>The cursor\<close>

text \<open>The top of the stack is the head of the list.\<close>

definition push_frame ::
  "('d, 'l, 'e) heed \<Rightarrow> ('d, 'l) index_cursor_options \<Rightarrow> u64 \<Rightarrow> bytes \<Rightarrow>
   ('e index_frame list, 'e storage_error, unit) act" where
  "push_frame H opt chain value_prefix stack =
     (case frame_new H (io_index_id opt) chain value_prefix (io_edges opt) (io_leaves opt) (io_direction opt) of
        Inl e \<Rightarrow> (Inl e, stack) | Inr f \<Rightarrow> (Inr (), f # stack))"

definition index_cursor_new ::
  "('d, 'l, 'e) heed \<Rightarrow> ('d, 'l) index_cursor_options \<Rightarrow> 'e storage_error + 'e index_frame list" where
  "index_cursor_new H opt =
     (case push_frame H opt ROOT_INDEX_CHAIN_ID [] [] of (Inl e, _) \<Rightarrow> Inl e | (Inr _, stack) \<Rightarrow> Inr stack)"

partial_function (option) next_unfiltered ::
  "('d, 'l, 'e) heed \<Rightarrow> ('d, 'l) index_cursor_options \<Rightarrow> ('e index_frame list, 'e, index_candidate) cursor" where
  "next_unfiltered H opt stack =
     (case stack of
        [] \<Rightarrow> Some (Inr None, [])
      | frame # rest \<Rightarrow>
          (case next_action (io_direction opt) frame of
             (Inl e, f) \<Rightarrow> Some (Inl e, f # rest)
           | (Inr (Action_leaf entry), f) \<Rightarrow> Some (Inr (Some entry), f # rest)
           | (Inr (Action_edge chain p), f) \<Rightarrow>
               (case push_frame H opt chain p (f # rest) of
                  (Inl e, stack') \<Rightarrow> Some (Inl e, stack')
                | (Inr _, stack') \<Rightarrow> next_unfiltered H opt stack')
           | (Inr Exhausted, f) \<Rightarrow> next_unfiltered H opt rest))"

definition candidate_position :: "index_candidate \<Rightarrow> index_position" where
  "candidate_position c = Position (ic_value c) (ic_document_id c)"

definition next_candidate ::
  "('d, 'l, 'e) heed \<Rightarrow> ('d, 'l) index_cursor_options \<Rightarrow> ('e index_frame list, 'e, index_candidate) cursor" where
  "next_candidate H opt =
     seek (next_unfiltered H opt) (\<lambda>entry.
       Inr (if accepts_start (candidate_position entry) (io_start opt) (io_direction opt)
            then Some entry else None))"

definition index_visible_document ::
  "('d, 'l, 'e) heed \<Rightarrow> ('d, 'l) index_cursor_options \<Rightarrow> document_id \<Rightarrow> 'e storage_error + bytes option" where
  "index_visible_document H opt did =
     stored_document H (io_documents opt) (io_ts opt) (io_collection opt) did"

definition index_cursor_next ::
  "('d, 'l, 'e) heed \<Rightarrow> ('d, 'l) index_cursor_options \<Rightarrow> ('e index_frame list, 'e, index_entry) cursor" where
  "index_cursor_next H opt =
     seek (next_candidate H opt) (\<lambda>entry.
       and_then (index_visible_document H opt (ic_document_id entry)) (\<lambda>r.
       Inr (map_option (\<lambda>v. \<lparr>ie_value = ic_value entry, ie_document_id = ic_document_id entry,
         ie_document_value = v\<rparr>) r)))"

section \<open>The rows of a chain\<close>

definition leaf_row :: "index_id \<Rightarrow> u64 \<Rightarrow> bytes \<times> document_id \<Rightarrow> bytes \<times> bytes" where
  "leaf_row iid n = (\<lambda>(s, d). leaf iid n s d)"

definition edge_row :: "index_id \<Rightarrow> u64 \<Rightarrow> bytes \<times> u64 \<Rightarrow> bytes \<times> bytes" where
  "edge_row iid n = (\<lambda>(s, c). (encode_index_node_key iid n s, u64_to_be c))"

text \<open>What is left of a frame: leaves and edges still to come, the pending ones included.\<close>

definition frame_rep ::
  "index_id \<Rightarrow> u64 \<Rightarrow> bytes \<Rightarrow> (bytes \<times> document_id) list \<Rightarrow> (bytes \<times> u64) list \<Rightarrow> 'e index_frame \<Rightarrow> bool" where
  "frame_rep iid n P ls es f \<longleftrightarrow> fr_value_prefix f = P \<and>
     (case fr_pending_leaf f of
        None \<Rightarrow> fr_leaves f = map (\<lambda>r. Inr (leaf_row iid n r)) ls
      | Some x \<Rightarrow> \<exists>ls'. ls = (lc_segment x, lc_document_id x) # ls' \<and>
          fr_leaves f = map (\<lambda>r. Inr (leaf_row iid n r)) ls') \<and>
     (case fr_pending_edge f of
        None \<Rightarrow> fr_edges f = map (\<lambda>r. Inr (edge_row iid n r)) es
      | Some x \<Rightarrow> \<exists>es'. es = (ec_segment x, ec_child_chain_id x) # es' \<and>
          fr_edges f = map (\<lambda>r. Inr (edge_row iid n r)) es')"

lemma fill_leaf_rep:
  assumes "frame_rep iid n P ls es f"
  obtains f' where "fill_leaf f = (Inr (), f')" "frame_rep iid n P ls es f'"
    "fr_pending_leaf f' = (case ls of [] \<Rightarrow> None | (s, d) # _ \<Rightarrow> Some \<lparr>lc_segment = s, lc_document_id = d\<rparr>)"
    "fr_pending_edge f' = fr_pending_edge f"
proof (cases "fr_pending_leaf f")
  case None
  let ?raw = "map (\<lambda>r. Inr (leaf_row iid n r)) (tl ls)"
  let ?x = "case ls of [] \<Rightarrow> None | (s, d) # _ \<Rightarrow> Some \<lparr>lc_segment = s, lc_document_id = d\<rparr>"
  have "fr_leaves f = map (\<lambda>r. Inr (leaf_row iid n r)) ls" using assms None by (simp add: frame_rep_def)
  then have "next_leaf f = (Inr ?x, f\<lparr>fr_leaves := ?raw\<rparr>)"
    by (cases ls)
       (auto simp: next_leaf_def leaf_row_def leaf_def decode_index_document_id_def
         encode_index_document_id_def decode_u128_def fixed_def)
  then have "fill_leaf f = (Inr (), f\<lparr>fr_leaves := ?raw, fr_pending_leaf := ?x\<rparr>)"
    using None by (simp add: fill_leaf_def act_bind_def act_modify_def)
  then show ?thesis
    by (rule that) (use assms None in \<open>cases ls; auto simp: frame_rep_def cong: option.case_cong\<close>)+
next
  case (Some x)
  then show ?thesis using assms that[of f] by (auto simp: frame_rep_def fill_leaf_def)
qed

lemma fill_edge_rep:
  assumes "frame_rep iid n P ls es f"
  obtains f' where "fill_edge f = (Inr (), f')" "frame_rep iid n P ls es f'"
    "fr_pending_edge f' = (case es of [] \<Rightarrow> None | (s, c) # _ \<Rightarrow> Some \<lparr>ec_segment = s, ec_child_chain_id = c\<rparr>)"
    "fr_pending_leaf f' = fr_pending_leaf f"
proof (cases "fr_pending_edge f")
  case None
  let ?raw = "map (\<lambda>r. Inr (edge_row iid n r)) (tl es)"
  let ?x = "case es of [] \<Rightarrow> None | (s, c) # _ \<Rightarrow> Some \<lparr>ec_segment = s, ec_child_chain_id = c\<rparr>"
  have "fr_edges f = map (\<lambda>r. Inr (edge_row iid n r)) es" using assms None by (simp add: frame_rep_def)
  then have "next_edge f = (Inr ?x, f\<lparr>fr_edges := ?raw\<rparr>)"
    by (cases es) (auto simp: next_edge_def edge_row_def decode_u64_def fixed_def)
  then have "fill_edge f = (Inr (), f\<lparr>fr_edges := ?raw, fr_pending_edge := ?x\<rparr>)"
    using None by (simp add: fill_edge_def act_bind_def act_modify_def)
  then show ?thesis
    by (rule that) (use assms None in \<open>cases es; auto simp: frame_rep_def cong: option.case_cong\<close>)+
next
  case (Some x)
  then show ?thesis using assms that[of f] by (auto simp: frame_rep_def fill_edge_def)
qed

text \<open>The action a frame takes, by what is left of it.\<close>

definition leaf_first :: "direction \<Rightarrow> bytes \<Rightarrow> bytes \<Rightarrow> bool" where
  "leaf_first dir s t = (case dir of Forward \<Rightarrow> s \<le> t | Reverse \<Rightarrow> t < s)"

lemma next_action_filled:
  assumes "frame_rep iid n P ls es f"
  obtains f' where "next_action dir f = take_action dir f'" "frame_rep iid n P ls es f'"
    "fr_pending_leaf f' = (case ls of [] \<Rightarrow> None | (s, d) # _ \<Rightarrow> Some \<lparr>lc_segment = s, lc_document_id = d\<rparr>)"
    "fr_pending_edge f' = (case es of [] \<Rightarrow> None | (s, c) # _ \<Rightarrow> Some \<lparr>ec_segment = s, ec_child_chain_id = c\<rparr>)"
proof -
  obtain f1 where 1: "fill_leaf f = (Inr (), f1)" "frame_rep iid n P ls es f1"
    "fr_pending_leaf f1 = (case ls of [] \<Rightarrow> None | (s, d) # _ \<Rightarrow> Some \<lparr>lc_segment = s, lc_document_id = d\<rparr>)"
    by (rule fill_leaf_rep[OF assms])
  obtain f2 where 2: "fill_edge f1 = (Inr (), f2)" "frame_rep iid n P ls es f2"
    "fr_pending_edge f2 = (case es of [] \<Rightarrow> None | (s, c) # _ \<Rightarrow> Some \<lparr>ec_segment = s, ec_child_chain_id = c\<rparr>)"
    "fr_pending_leaf f2 = fr_pending_leaf f1"
    by (rule fill_edge_rep[OF 1(2)])
  show thesis
    by (rule that[of f2]) (use 1 2 in \<open>simp_all add: next_action_def act_then_def act_bind_def\<close>)
qed

lemma next_action_exhausted:
  assumes "frame_rep iid n P [] [] f"
  obtains f' where "next_action dir f = (Inr Exhausted, f')"
  by (rule next_action_filled[OF assms, of dir]) (auto simp: take_action_def choose_action_def intro: that)

lemma next_action_leaf:
  assumes "frame_rep iid n P ((s, d) # ls) es f" "es = [] \<or> leaf_first dir s (fst (hd es))"
  obtains f' where "next_action dir f = (Inr (Action_leaf \<lparr>ic_value = P @ s, ic_document_id = d\<rparr>), f')"
    "frame_rep iid n P ls es f'"
proof (rule next_action_filled[OF assms(1), of dir])
  fix f'
  assume f': "next_action dir f = take_action dir f'" "frame_rep iid n P ((s, d) # ls) es f'"
    "fr_pending_leaf f' = (case (s, d) # ls of [] \<Rightarrow> None | (s, d) # _ \<Rightarrow> Some \<lparr>lc_segment = s, lc_document_id = d\<rparr>)"
    "fr_pending_edge f' = (case es of [] \<Rightarrow> None | (s, c) # _ \<Rightarrow> Some \<lparr>ec_segment = s, ec_child_chain_id = c\<rparr>)"
  then have "choose_action dir f' = Some Pending_leaf"
    using assms(2) by (cases es; cases dir) (auto simp: choose_action_def leaf_first_def)
  then show thesis
    using f' by (intro that[of "f'\<lparr>fr_pending_leaf := None\<rparr>"]) (auto simp: take_action_def frame_rep_def cong: option.case_cong)
qed

lemma next_action_edge:
  assumes "frame_rep iid n P ls ((t, c) # es) f" "ls = [] \<or> \<not> leaf_first dir (fst (hd ls)) t"
  obtains f' where "next_action dir f = (Inr (Action_edge c (P @ t)), f')" "frame_rep iid n P ls es f'"
proof (rule next_action_filled[OF assms(1), of dir])
  fix f'
  assume f': "next_action dir f = take_action dir f'" "frame_rep iid n P ls ((t, c) # es) f'"
    "fr_pending_leaf f' = (case ls of [] \<Rightarrow> None | (s, d) # _ \<Rightarrow> Some \<lparr>lc_segment = s, lc_document_id = d\<rparr>)"
    "fr_pending_edge f' = (case (t, c) # es of [] \<Rightarrow> None | (s, c) # _ \<Rightarrow> Some \<lparr>ec_segment = s, ec_child_chain_id = c\<rparr>)"
  then have "choose_action dir f' = Some Pending_edge"
    using assms(2) by (cases ls; cases dir) (auto simp: choose_action_def leaf_first_def)
  then show thesis
    using f' by (intro that[of "f'\<lparr>fr_pending_edge := None\<rparr>"]) (auto simp: take_action_def frame_rep_def cong: option.case_cong)
qed

section \<open>The content of a chain\<close>

definition chain_content :: "edges \<Rightarrow> leaves \<Rightarrow> index_id \<Rightarrow> u64 \<Rightarrow> bytes \<Rightarrow> index_candidate set" where
  "chain_content E L iid n P = {x. \<exists>segs m s. walk E iid n segs = Some m \<and>
     leaf iid m s (ic_document_id x) \<in> L \<and> ic_value x = P @ concat segs @ s}"

definition leaf_content :: "bytes \<Rightarrow> (bytes \<times> document_id) list \<Rightarrow> index_candidate set" where
  "leaf_content P ls = {x. \<exists>s. (s, ic_document_id x) \<in> set ls \<and> ic_value x = P @ s}"

definition edge_content ::
  "edges \<Rightarrow> leaves \<Rightarrow> index_id \<Rightarrow> bytes \<Rightarrow> (bytes \<times> u64) list \<Rightarrow> index_candidate set" where
  "edge_content E L iid P es = (\<Union>(t, c) \<in> set es. chain_content E L iid c (P @ t))"

text \<open>The rows of a chain, in the order of the direction.\<close>

definition chain_rows ::
  "edges \<Rightarrow> leaves \<Rightarrow> index_id \<Rightarrow> u64 \<Rightarrow> direction \<Rightarrow> (bytes \<times> document_id) list \<Rightarrow> (bytes \<times> u64) list \<Rightarrow> bool" where
  "chain_rows E L iid n dir ls es \<longleftrightarrow>
     set ls = {(s, d). leaf iid n s d \<in> L} \<and>
     set es = {(s, c). E (encode_index_node_key iid n s) = Some (u64_to_be c)} \<and>
     sorted_wrt (\<lambda>(s, d) (s', d'). before dir (Position s d) (Position s' d')) ls \<and>
     sorted_wrt (\<lambda>(s, _) (s', _). before dir s s') es"

lemma chain_content_rec:
  assumes "trie_ok E L counter" "chain_rows E L iid n dir ls es"
  shows "chain_content E L iid n P = leaf_content P ls \<union> edge_content E L iid P es"
proof (intro set_eqI iffI)
  fix x
  assume "x \<in> chain_content E L iid n P"
  then obtain segs m s where w: "walk E iid n segs = Some m" and l: "leaf iid m s (ic_document_id x) \<in> L"
    and v: "ic_value x = P @ concat segs @ s" by (auto simp: chain_content_def)
  show "x \<in> leaf_content P ls \<union> edge_content E L iid P es"
  proof (cases segs)
    case Nil
    then show ?thesis using w l v assms(2) by (auto simp: leaf_content_def chain_rows_def)
  next
    case (Cons t ts)
    then obtain b where b: "E (encode_index_node_key iid n t) = Some b" "walk E iid (u64_from_be b) ts = Some m"
      using w by (auto split: option.splits)
    obtain c where c: "b = u64_to_be c" by (rule trie_edge[OF assms(1) b(1)])
    have "x \<in> chain_content E L iid c (P @ t)"
      using b(2) c l v Cons by (auto simp: chain_content_def intro!: exI[of _ ts])
    moreover have "(t, c) \<in> set es" using b(1) c assms(2) by (simp add: chain_rows_def)
    ultimately show ?thesis by (auto simp: edge_content_def)
  qed
next
  fix x
  assume "x \<in> leaf_content P ls \<union> edge_content E L iid P es"
  then consider (a) "x \<in> leaf_content P ls" | (b) t c where "(t, c) \<in> set es" "x \<in> chain_content E L iid c (P @ t)"
    by (auto simp: edge_content_def)
  then show "x \<in> chain_content E L iid n P"
  proof cases
    case a
    then obtain s where "leaf iid n s (ic_document_id x) \<in> L" "ic_value x = P @ s"
      using assms(2) by (auto simp: leaf_content_def chain_rows_def)
    then show ?thesis by (auto simp: chain_content_def intro!: exI[of _ "[]"])
  next
    case b
    then obtain segs m s where w: "walk E iid c segs = Some m" "leaf iid m s (ic_document_id x) \<in> L"
      "ic_value x = P @ concat (t # segs) @ s" by (auto simp: chain_content_def)
    moreover have "walk E iid n (t # segs) = Some m"
      using b(1) assms(2) w(1) by (simp add: chain_rows_def)
    ultimately show ?thesis unfolding chain_content_def by blast
  qed
qed

text \<open>Behind an edge no value ends: every value below it is longer than its segments.\<close>

lemma chain_content_below:
  assumes "trie_ok E L counter" "n \<noteq> 0" "x \<in> chain_content E L iid n P"
  obtains z where "ic_value x = P @ z" "z \<noteq> []"
proof -
  obtain segs m s where w: "walk E iid n segs = Some m" and l: "leaf iid m s (ic_document_id x) \<in> L"
    and v: "ic_value x = P @ concat segs @ s" using assms(3) by (auto simp: chain_content_def)
  have "concat segs @ s \<noteq> []"
  proof (cases segs)
    case Nil
    then show ?thesis using trie_leaf[OF assms(1) l] w assms(2) by auto
  next
    case (Cons t ts)
    then obtain b where "E (encode_index_node_key iid n t) = Some b" using w by (auto split: option.splits)
    then have "length t = 495" by (rule trie_edge[OF assms(1)])
    then show ?thesis using Cons by auto
  qed
  then show thesis using that v by blast
qed

lemma index_prefix_node [simp]:
  "has_prefix (index_node_prefix iid n) (encode_index_node_key iid' n' s) \<longleftrightarrow> iid' = iid \<and> n' = n"
proof -
  have "length (i64_to_be iid @ u64_to_be n) = length (i64_to_be iid' @ u64_to_be n')" by simp
  then show ?thesis
    by (auto simp: has_prefix_def index_node_prefix_def encode_index_node_key_def)
qed

lemma node_key_less [order_simps]:
  "encode_index_node_key iid n s < encode_index_node_key iid n s' \<longleftrightarrow> s < s'"
  by (simp add: encode_index_node_key_def)

lemma leaf_row_less:
  "leaf_row iid n p < leaf_row iid n q \<longleftrightarrow> Position (fst p) (snd p) < Position (fst q) (snd q)"
  by (cases p; cases q) (auto simp: leaf_row_def leaf_def encode_index_document_id_def order_simps le_less)

text \<open>The iterators of a new frame return the rows of its chain.\<close>

lemma frame_new_rows:
  fixes H :: "('d, 'l, 'e) heed"
  assumes H: "heed_laws H it dit" and ok: "trie_ok (map_of (it edges)) (set (dit leaves)) counter"
  obtains f ls es where "frame_new H iid n P edges leaves dir = Inr f" "frame_rep iid n P ls es f"
    "chain_rows (map_of (it edges)) (set (dit leaves)) iid n dir ls es"
proof -
  let ?p = "index_node_prefix iid n" and ?E = "map_of (it edges)" and ?L = "set (dit leaves)"
  have p: "?p \<noteq> []" by (simp add: index_node_prefix_def)
  let ?ord = "case dir of Forward \<Rightarrow> id | Reverse \<Rightarrow> rev"
  let ?lrows = "filter (\<lambda>(k, _). has_prefix ?p k) (dit leaves)"
  let ?erows = "filter (\<lambda>(k, _). has_prefix ?p k) (it edges)"
  have "\<exists>r. p = leaf_row iid n r" if "p \<in> set ?lrows" for p
  proof -
    have "p \<in> ?L" using that by auto
    then obtain iid' n' s d where "p = leaf iid' n' s d" using ok unfolding trie_ok_def by blast
    then show ?thesis using that by (auto simp: leaf_def leaf_row_def)
  qed
  then obtain ls where ls: "?lrows = map (leaf_row iid n) ls" using ex_map_conv[of ?lrows "leaf_row iid n"] by blast
  have E: "?E k = Some v \<longleftrightarrow> (k, v) \<in> set (it edges)" for k v
    using bt_ok_map_of[OF heed_it_ok[OF H]] by simp
  have "\<exists>r. p = edge_row iid n r" if "p \<in> set ?erows" for p
  proof -
    obtain k v where kv: "p = (k, v)" by (cases p)
    then have "?E k = Some v" using that by (simp add: E)
    then obtain iid' n' s c where "k = encode_index_node_key iid' n' s" "v = u64_to_be c"
      using ok unfolding trie_ok_def by blast
    then show ?thesis using that kv by (auto simp: edge_row_def)
  qed
  then obtain es where es: "?erows = map (edge_row iid n) es" using ex_map_conv[of ?erows "edge_row iid n"] by blast
  have "heed_call (case dir of Forward \<Rightarrow> h_dup_prefix H leaves ?p | Reverse \<Rightarrow> h_dup_rev_prefix H leaves ?p) =
      Inr (map (\<lambda>r. Inr (leaf_row iid n r)) (?ord ls))"
    using heed_dup_prefix[OF H p, of leaves] heed_dup_rev_prefix[OF H p, of leaves]
    by (cases dir) (simp_all add: ls rev_map)
  moreover have "heed_call (case dir of Forward \<Rightarrow> h_prefix H edges ?p | Reverse \<Rightarrow> h_rev_prefix H edges ?p) =
      Inr (map (\<lambda>r. Inr (edge_row iid n r)) (?ord es))"
    using heed_prefix[OF H p, of edges] heed_rev_prefix[OF H p, of edges]
    by (cases dir) (simp_all add: es rev_map)
  ultimately have f: "frame_new H iid n P edges leaves dir =
      Inr \<lparr>fr_value_prefix = P, fr_leaves = map (\<lambda>r. Inr (leaf_row iid n r)) (?ord ls),
        fr_edges = map (\<lambda>r. Inr (edge_row iid n r)) (?ord es),
        fr_pending_leaf = None, fr_pending_edge = None\<rparr>"
    by (simp add: frame_new_def Let_def)
  have sl: "(s, d) \<in> set ls \<longleftrightarrow> leaf iid n s d \<in> ?L" for s d
  proof -
    have "(s, d) \<in> set ls \<longleftrightarrow> leaf iid n s d \<in> set (map (leaf_row iid n) ls)"
      by (auto simp: leaf_row_def)
    then show ?thesis unfolding ls[symmetric] by (simp add: leaf_def)
  qed
  have se: "(s, c) \<in> set es \<longleftrightarrow> ?E (encode_index_node_key iid n s) = Some (u64_to_be c)" for s c
  proof -
    have "(s, c) \<in> set es \<longleftrightarrow> (encode_index_node_key iid n s, u64_to_be c) \<in> set (map (edge_row iid n) es)"
      by (auto simp: edge_row_def)
    then show ?thesis unfolding es[symmetric] by (simp add: E)
  qed
  have "sorted_wrt (<) (map (leaf_row iid n) ls)"
    unfolding ls[symmetric] by (rule sorted_wrt_filter[OF heed_dit_sorted[OF H]])
  then have ol: "sorted_wrt (\<lambda>(s, d) (s', d'). Position s d < Position s' d') ls"
    by (simp add: sorted_wrt_map leaf_row_less case_prod_unfold)
  have "sorted_wrt (\<lambda>p q. fst p < fst q) (map (edge_row iid n) es)"
    unfolding es[symmetric] using heed_it_ok[OF H, of edges]
    by (intro sorted_wrt_filter) (simp add: bt_ok_def sorted_wrt_map)
  then have oe: "sorted_wrt (\<lambda>(s, _) (s', _). s < s') es"
    by (simp add: sorted_wrt_map edge_row_def case_prod_unfold order_simps)
  have "chain_rows ?E ?L iid n dir (?ord ls) (?ord es)"
    using sl se ol oe
    by (cases dir) (auto simp: chain_rows_def sorted_wrt_rev case_prod_unfold)
  then show thesis by (intro that[OF f]) (simp_all add: frame_rep_def)
qed

section \<open>The walk\<close>

lemma leaf_before_below:
  fixes s t z :: bytes
  assumes "length s \<le> length t" "z \<noteq> []"
  shows "leaf_first dir s t \<Longrightarrow> before dir (Position (P @ s) d) (Position (P @ t @ z) d')"
    and "\<not> leaf_first dir s t \<Longrightarrow> before dir (Position (P @ t @ z) d') (Position (P @ s) d)"
proof -
  have le: "s \<le> t \<longleftrightarrow> s < t @ z"
  proof
    assume "s \<le> t"
    then show "s < t @ z" using lex_prefix_less[OF assms(2), of t] by (rule le_less_trans)
  next
    assume a: "s < t @ z"
    show "s \<le> t"
    proof (rule ccontr)
      assume "\<not> s \<le> t"
      then have "diverge t s" using assms(1) by (intro less_diverge_shorter) auto
      then have "t @ z < s @ []" by (rule diverge_append_less)
      then show False using a by simp
    qed
  qed
  moreover have "s \<noteq> t @ z" using assms by (metis append_eq_conv_conj length_append length_greater_0_conv
        less_add_same_cancel1 not_le)
  moreover have "t < s \<longleftrightarrow> \<not> s \<le> t" by (rule not_le[symmetric])
  ultimately have "t < s \<longleftrightarrow> t @ z < s" using not_less_iff_gr_or_eq[of s "t @ z"] by auto
  then show "leaf_first dir s t \<Longrightarrow> before dir (Position (P @ s) d) (Position (P @ t @ z) d')"
    and "\<not> leaf_first dir s t \<Longrightarrow> before dir (Position (P @ t @ z) d') (Position (P @ s) d)"
    using le by (cases dir; auto simp: leaf_first_def)+
qed

lemma below_before_below:
  fixes t t' :: bytes
  assumes "length t = length t'" "before dir t t'"
  shows "before dir (Position (P @ t @ z) d) (Position (P @ t' @ z') d')"
  using assms by (cases dir) (auto simp: lex_append_block)

abbreviation positions_in_order :: "direction \<Rightarrow> index_candidate list \<Rightarrow> bool" where
  "positions_in_order \<equiv> in_order candidate_position"

lemma in_order_append:
  "in_order key dir (xs @ ys) \<longleftrightarrow> in_order key dir xs \<and> in_order key dir ys \<and>
     (\<forall>x \<in> set xs. \<forall>y \<in> set ys. before dir (key x) (key y))"
  by (simp add: in_order_def sorted_wrt_append)

text \<open>What visiting a chain does, whatever is below it on the stack.\<close>

definition visits ::
  "('d, 'l, 'e) heed \<Rightarrow> ('d, 'l) index_cursor_options \<Rightarrow> 'e index_frame \<Rightarrow> index_candidate list \<Rightarrow> bool" where
  "visits H opt f xs \<longleftrightarrow> (\<forall>S ys. yields (next_unfiltered H opt) S ys \<longrightarrow>
     yields (next_unfiltered H opt) (f # S) (xs @ ys))"

lemma next_unfiltered_step:
  "next_action (io_direction opt) f = (Inr (Action_leaf x), f') \<Longrightarrow>
     next_unfiltered H opt (f # S) = Some (Inr (Some x), f' # S)"
  "next_action (io_direction opt) f = (Inr Exhausted, f') \<Longrightarrow>
     next_unfiltered H opt (f # S) = next_unfiltered H opt S"
  "next_action (io_direction opt) f = (Inr (Action_edge c P), f') \<Longrightarrow>
     frame_new H (io_index_id opt) c P (io_edges opt) (io_leaves opt) (io_direction opt) = Inr g \<Longrightarrow>
     next_unfiltered H opt (f # S) = next_unfiltered H opt (g # f' # S)"
  by (subst next_unfiltered.simps, simp add: push_frame_def)+

lemma visits_leaf:
  assumes "next_action (io_direction opt) f = (Inr (Action_leaf x), f')" "visits H opt f' xs"
  shows "visits H opt f (x # xs)"
  using assms next_unfiltered_step(1)[OF assms(1)] unfolding visits_def
  by (auto intro: yields_item)

lemma visits_edge:
  assumes "next_action (io_direction opt) f = (Inr (Action_edge c P), f')"
    and "frame_new H (io_index_id opt) c P (io_edges opt) (io_leaves opt) (io_direction opt) = Inr g"
    and "visits H opt g us" "visits H opt f' xs"
  shows "visits H opt f (us @ xs)"
  unfolding visits_def
proof (intro allI impI)
  fix S ys
  assume "yields (next_unfiltered H opt) S ys"
  then have "yields (next_unfiltered H opt) (f' # S) (xs @ ys)" using assms(4) by (simp add: visits_def)
  then have "yields (next_unfiltered H opt) (g # f' # S) (us @ xs @ ys)"
    using assms(3) unfolding visits_def by blast
  then show "yields (next_unfiltered H opt) (f # S) ((us @ xs) @ ys)"
    using yields_prefix next_unfiltered_step(3)[OF assms(1,2)] by (metis append_assoc)
qed

lemma visits_exhausted:
  assumes "next_action (io_direction opt) f = (Inr Exhausted, f')"
  shows "visits H opt f []"
  using next_unfiltered_step(2)[OF assms] unfolding visits_def by (auto intro: yields_prefix)

text \<open>
  A frame visits what is left of its chain, in order, if each of its edges leads to a chain that
  is visited in order.
\<close>

lemma visits_frame:
  fixes H :: "('d, 'l, 'e) heed"
  assumes ok: "trie_ok E L counter"
    and child: "\<And>t c. (t, c) \<in> set es \<Longrightarrow> c \<noteq> 0 \<and> length t = 495 \<and> (\<exists>g us.
       frame_new H (io_index_id opt) c (P @ t) (io_edges opt) (io_leaves opt) (io_direction opt) = Inr g \<and>
       visits H opt g us \<and> positions_in_order (io_direction opt) us \<and>
       set us = chain_content E L (io_index_id opt) c (P @ t))"
    and short: "\<And>s d. (s, d) \<in> set ls \<Longrightarrow> length s \<le> 495"
    and sorted: "sorted_wrt (\<lambda>(s, d) (s', d'). before (io_direction opt) (Position s d) (Position s' d')) ls"
      "sorted_wrt (\<lambda>(s, _) (s', _). before (io_direction opt) s s') es"
    and rep: "frame_rep (io_index_id opt) n P ls es f"
  shows "\<exists>xs. visits H opt f xs \<and> positions_in_order (io_direction opt) xs \<and>
    set xs = leaf_content P ls \<union> edge_content E L (io_index_id opt) P es"
  using assms(2-6)
proof (induction "length ls + length es" arbitrary: ls es f rule: less_induct)
  case less
  let ?dir = "io_direction opt" and ?iid = "io_index_id opt"
  have below: "\<exists>z. ic_value x = P @ t @ z \<and> z \<noteq> []" if "(t, c) \<in> set es" "x \<in> chain_content E L ?iid c (P @ t)"
    for t c x
    using chain_content_below[OF ok _ that(2)] less.prems(1)[OF that(1)] by fastforce
  consider (none) "ls = []" "es = []"
    | (leaf) s d ls' where "ls = (s, d) # ls'" "es = [] \<or> leaf_first ?dir s (fst (hd es))"
    | (edge) t c es' where "es = (t, c) # es'" "ls = [] \<or> \<not> leaf_first ?dir (fst (hd ls)) t"
    by (cases ls; cases es) force+
  then show ?case
  proof cases
    case none
    then obtain f' where "next_action ?dir f = (Inr Exhausted, f')"
      using next_action_exhausted less.prems(5) by blast
    then have "visits H opt f []" by (rule visits_exhausted)
    then show ?thesis using none by (intro exI[of _ "[]"]) (simp add: leaf_content_def edge_content_def)
  next
    case leaf
    let ?x = "\<lparr>ic_value = P @ s, ic_document_id = d\<rparr>"
    obtain f' where f': "next_action ?dir f = (Inr (Action_leaf ?x), f')" "frame_rep ?iid n P ls' es f'"
      by (rule next_action_leaf[OF less.prems(5)[unfolded leaf(1)] leaf(2)])
    have "\<exists>xs. visits H opt f' xs \<and> positions_in_order ?dir xs \<and>
        set xs = leaf_content P ls' \<union> edge_content E L ?iid P es"
      by (rule less.hyps[OF _ _ _ _ _ f'(2)]) (use less.prems(1-4) leaf(1) in auto)
    then obtain xs where xs: "visits H opt f' xs" "positions_in_order ?dir xs"
      "set xs = leaf_content P ls' \<union> edge_content E L ?iid P es" by blast
    have "before ?dir (candidate_position ?x) (candidate_position y)" if "y \<in> set xs" for y
      using that unfolding xs(3)
    proof
      assume "y \<in> leaf_content P ls'"
      then obtain s' where "(s', ic_document_id y) \<in> set ls'" "ic_value y = P @ s'"
        by (auto simp: leaf_content_def)
      then show ?thesis using less.prems(3) leaf(1) by (cases ?dir) (auto simp: candidate_position_def)
    next
      assume "y \<in> edge_content E L ?iid P es"
      then obtain t c where tc: "(t, c) \<in> set es" "y \<in> chain_content E L ?iid c (P @ t)"
        by (auto simp: edge_content_def)
      from below[OF this] obtain z where z: "ic_value y = P @ t @ z" "z \<noteq> []" by (elim exE conjE)
      obtain t0 c0 es0 where es: "es = (t0, c0) # es0" using tc(1) by (cases es) auto
      have "leaf_first ?dir s t0" using leaf(2) es by simp
      moreover have "t = t0 \<or> before ?dir t0 t" using less.prems(4) tc(1) es by auto
      ultimately have "leaf_first ?dir s t" by (cases ?dir) (auto simp: leaf_first_def)
      moreover have "length s \<le> length t" using less.prems(1,2) tc(1) leaf(1) by fastforce
      ultimately show ?thesis using leaf_before_below(1)[of s t z ?dir P] z by (simp add: candidate_position_def)
    qed
    then have "positions_in_order ?dir (?x # xs)" using xs(2) by simp
    moreover have "set (?x # xs) = leaf_content P ls \<union> edge_content E L ?iid P es"
      using xs(3) leaf(1) by (auto simp: leaf_content_def)
    ultimately show ?thesis using visits_leaf[OF f'(1) xs(1)] by blast
  next
    case edge
    obtain f' where f': "next_action ?dir f = (Inr (Action_edge c (P @ t)), f')" "frame_rep ?iid n P ls es' f'"
      by (rule next_action_edge[OF less.prems(5)[unfolded edge(1)] edge(2)])
    have "\<exists>xs. visits H opt f' xs \<and> positions_in_order ?dir xs \<and>
        set xs = leaf_content P ls \<union> edge_content E L ?iid P es'"
    proof (rule less.hyps[OF _ _ _ _ _ f'(2)])
      show "length ls + length es' < length ls + length es" by (simp add: edge(1))
      fix u b
      assume "(u, b) \<in> set es'"
      then have "(u, b) \<in> set es" by (simp add: edge(1))
      then show "b \<noteq> 0 \<and> length u = 495 \<and> (\<exists>g us.
         frame_new H ?iid b (P @ u) (io_edges opt) (io_leaves opt) ?dir = Inr g \<and> visits H opt g us \<and>
         positions_in_order ?dir us \<and> set us = chain_content E L ?iid b (P @ u))" by (rule less.prems(1))
    next
      show "sorted_wrt (\<lambda>(s, _) (s', _). before ?dir s s') es'" using less.prems(4) by (simp add: edge(1))
    qed (fact less.prems(2,3))+
    then obtain xs where xs: "visits H opt f' xs" "positions_in_order ?dir xs"
      "set xs = leaf_content P ls \<union> edge_content E L ?iid P es'" by blast
    have tc: "(t, c) \<in> set es" using edge(1) by simp
    obtain g us where us: "frame_new H ?iid c (P @ t) (io_edges opt) (io_leaves opt) ?dir = Inr g"
      "visits H opt g us" "positions_in_order ?dir us" "set us = chain_content E L ?iid c (P @ t)"
      using less.prems(1)[OF tc] by blast
    have "before ?dir (candidate_position x) (candidate_position y)" if "x \<in> set us" "y \<in> set xs" for x y
    proof -
      have "x \<in> chain_content E L ?iid c (P @ t)" using that(1) us(4) by simp
      from below[OF tc this] obtain z where z: "ic_value x = P @ t @ z" "z \<noteq> []" by (elim exE conjE)
      from that(2) show ?thesis unfolding xs(3)
      proof
        assume "y \<in> leaf_content P ls"
        then obtain s where s: "(s, ic_document_id y) \<in> set ls" "ic_value y = P @ s"
          by (auto simp: leaf_content_def)
        obtain s0 d0 ls0 where ls: "ls = (s0, d0) # ls0" using s(1) by (cases ls) auto
        have "\<not> leaf_first ?dir s0 t" using edge(2) ls by simp
        moreover have "s = s0 \<or> before ?dir s0 s" using less.prems(3) s(1) ls by (cases ?dir) auto
        ultimately have "\<not> leaf_first ?dir s t" by (cases ?dir) (auto simp: leaf_first_def)
        moreover have "length s \<le> length t" using less.prems(1)[OF tc] less.prems(2)[OF s(1)] by simp
        ultimately show ?thesis using leaf_before_below(2)[of s t z ?dir P] z s(2) by (simp add: candidate_position_def)
      next
        assume "y \<in> edge_content E L ?iid P es'"
        then obtain t' c' where tc': "(t', c') \<in> set es'" "y \<in> chain_content E L ?iid c' (P @ t')"
          by (auto simp: edge_content_def)
        then have in_es: "(t', c') \<in> set es" using edge(1) by simp
        from below[OF in_es tc'(2)] obtain z' where z': "ic_value y = P @ t' @ z'" by (elim exE conjE)
        have "before ?dir t t'" using less.prems(4) tc'(1) edge(1) by auto
        moreover have "length t = length t'" using less.prems(1)[OF tc] less.prems(1)[OF in_es] by simp
        ultimately show ?thesis using below_before_below[of t t' ?dir P z _ z'] z z' by (simp add: candidate_position_def)
      qed
    qed
    then have "positions_in_order ?dir (us @ xs)" using us(3) xs(2) by (simp add: in_order_append)
    moreover have "set (us @ xs) = leaf_content P ls \<union> edge_content E L ?iid P es"
      using us(4) xs(3) edge(1) by (auto simp: edge_content_def)
    ultimately show ?thesis using visits_edge[OF f'(1) us(1,2) xs(1)] by blast
  qed
qed

lemma visits_chain:
  fixes H :: "('d, 'l, 'e) heed" and opt :: "('d, 'l) index_cursor_options"
  defines "E it \<equiv> map_of (it (io_edges opt))" and "L dit \<equiv> set (dit (io_leaves opt))"
  assumes H: "heed_laws H it dit" and ok: "trie_ok (E it) (L dit) counter"
  shows "\<exists>f xs. frame_new H (io_index_id opt) n P (io_edges opt) (io_leaves opt) (io_direction opt) = Inr f \<and>
    visits H opt f xs \<and> positions_in_order (io_direction opt) xs \<and>
    set xs = chain_content (E it) (L dit) (io_index_id opt) n P"
proof (induction "unat counter - unat n" arbitrary: n P rule: less_induct)
  case less
  let ?dir = "io_direction opt" and ?iid = "io_index_id opt"
  obtain f ls es where f: "frame_new H ?iid n P (io_edges opt) (io_leaves opt) ?dir = Inr f"
    "frame_rep ?iid n P ls es f" and rows: "chain_rows (E it) (L dit) ?iid n ?dir ls es"
    by (rule frame_new_rows[OF H ok[unfolded E_def L_def], folded E_def L_def])
  have "\<exists>xs. visits H opt f xs \<and> positions_in_order ?dir xs \<and>
      set xs = leaf_content P ls \<union> edge_content (E it) (L dit) ?iid P es"
  proof (rule visits_frame[OF ok _ _ _ _ f(2)])
    fix t c
    assume "(t, c) \<in> set es"
    then have "E it (encode_index_node_key ?iid n t) = Some (u64_to_be c)" using rows by (simp add: chain_rows_def)
    then obtain c' where "u64_to_be c = u64_to_be c'" "length t = 495" "n < c'" "c' \<le> counter"
      by (rule trie_edge[OF ok])
    then have c: "length t = 495" "n < c" "c \<le> counter" by simp_all
    then have "unat counter - unat c < unat counter - unat n"
      by (simp add: word_less_nat_alt word_le_nat_alt)
    from less.hyps[OF this, of "P @ t"] c show "c \<noteq> 0 \<and> length t = 495 \<and> (\<exists>g us.
       frame_new H ?iid c (P @ t) (io_edges opt) (io_leaves opt) ?dir = Inr g \<and>
       visits H opt g us \<and> positions_in_order ?dir us \<and>
       set us = chain_content (E it) (L dit) ?iid c (P @ t))" by auto
  next
    fix s d
    assume "(s, d) \<in> set ls"
    then have "leaf ?iid n s d \<in> L dit" using rows by (simp add: chain_rows_def)
    then show "length s \<le> 495" using trie_leaf[OF ok] by blast
  next
    show "sorted_wrt (\<lambda>(s, d) (s', d'). before ?dir (Position s d) (Position s' d')) ls"
      "sorted_wrt (\<lambda>(s, _) (s', _). before ?dir s s') es" using rows by (simp_all add: chain_rows_def)
  qed
  then show ?case using f(1) chain_content_rec[OF ok rows] by metis
qed

text \<open>From the root, the content of an index: the segments of a path and a leaf are the split of
  the key.\<close>

lemma walk_segments: "trie_ok E L counter \<Longrightarrow> walk E iid n ss = Some m \<Longrightarrow> \<forall>s \<in> set ss. length s = 495"
proof (induction E iid n ss rule: walk.induct)
  case (2 E iid n s ss)
  then obtain v where v: "E (encode_index_node_key iid n s) = Some v" "walk E iid (u64_from_be v) ss = Some m"
    by (auto split: option.splits)
  moreover have "length s = 495" by (rule trie_edge[OF 2(2) v(1)])
  ultimately show ?case using 2(1)[OF v(1) 2(2)] by simp
qed simp

lemma root_content:
  assumes ok: "trie_ok E L counter"
  shows "chain_content E L iid ROOT_INDEX_CHAIN_ID [] = {x. trie_mem E L iid (ic_value x) (ic_document_id x)}"
proof (intro set_eqI iffI)
  fix x :: index_candidate
  assume "x \<in> chain_content E L iid ROOT_INDEX_CHAIN_ID []"
  then obtain segs m s where w: "walk E iid 0 segs = Some m" and l: "leaf iid m s (ic_document_id x) \<in> L"
    and v: "ic_value x = concat segs @ s" by (auto simp: chain_content_def ROOT_INDEX_CHAIN_ID_def)
  note s = trie_leaf[OF ok l]
  have "segs = []" if "s = []"
  proof (cases segs rule: rev_cases)
    case (snoc ts t)
    then obtain p where "p < m" using walk_last[OF ok] w by blast
    then show ?thesis using s that by simp
  qed
  then have "well_split (segs @ [s])" using walk_segments[OF ok w] s by (simp add: well_split_def)
  then have "split_index_key (concat (segs @ [s])) = segs @ [s]" by (rule split_index_key_concat)
  then show "x \<in> {x. trie_mem E L iid (ic_value x) (ic_document_id x)}"
    using w l v by (simp add: trie_mem_def ROOT_INDEX_CHAIN_ID_def)
next
  fix x :: index_candidate
  let ?segs = "split_index_key (ic_value x)"
  assume "x \<in> {x. trie_mem E L iid (ic_value x) (ic_document_id x)}"
  then obtain m where "walk E iid ROOT_INDEX_CHAIN_ID (butlast ?segs) = Some m"
    "leaf iid m (last ?segs) (ic_document_id x) \<in> L" by (auto simp: trie_mem_def split: option.splits)
  moreover have "concat (butlast ?segs @ [last ?segs]) = ic_value x" by (simp del: concat_append)
  then have "ic_value x = [] @ concat (butlast ?segs) @ last ?segs"
    by (simp only: concat_append concat.simps append_Nil2 append_Nil)
  ultimately show "x \<in> chain_content E L iid ROOT_INDEX_CHAIN_ID []"
    unfolding chain_content_def by blast
qed

text \<open>The cursor visits the positions of the index that its start accepts.\<close>

lemma next_unfiltered_Nil: "yields (next_unfiltered H opt) [] []"
  by (rule yields_end[where c' = "[]"]) (simp_all add: next_unfiltered.simps)

lemma index_cursor_candidates:
  fixes H :: "('d, 'l, 'e) heed" and opt :: "('d, 'l) index_cursor_options"
  assumes H: "heed_laws H it dit"
    and ok: "trie_ok (map_of (it (io_edges opt))) (set (dit (io_leaves opt))) counter"
  obtains stack xs where "index_cursor_new H opt = Inr stack" "yields (next_candidate H opt) stack xs"
    "positions_in_order (io_direction opt) xs"
    "set xs = {x. trie_mem (map_of (it (io_edges opt))) (set (dit (io_leaves opt))) (io_index_id opt)
       (ic_value x) (ic_document_id x) \<and>
       accepts_start (candidate_position x) (io_start opt) (io_direction opt)}"
proof -
  let ?dir = "io_direction opt" and ?iid = "io_index_id opt"
  let ?acc = "\<lambda>x. accepts_start (candidate_position x) (io_start opt) ?dir"
  obtain f xs where f: "frame_new H ?iid ROOT_INDEX_CHAIN_ID [] (io_edges opt) (io_leaves opt) ?dir = Inr f"
    and v: "visits H opt f xs" and o: "positions_in_order ?dir xs"
    and c: "set xs = chain_content (map_of (it (io_edges opt))) (set (dit (io_leaves opt))) ?iid ROOT_INDEX_CHAIN_ID []"
    using visits_chain[OF H ok] by blast
  have "yields (next_unfiltered H opt) [f] xs"
    using v next_unfiltered_Nil[of H opt] unfolding visits_def by fastforce
  from yields_seek[OF this, where f = "\<lambda>x. Inr (if ?acc x then Some x else None)"
      and g = "\<lambda>x. if ?acc x then Some x else None"]
  have "yields (next_candidate H opt) [f] (List.map_filter (\<lambda>x. if ?acc x then Some x else None) xs)"
    by (simp add: next_candidate_def)
  moreover have "List.map_filter (\<lambda>x. if ?acc x then Some x else None) xs = filter ?acc xs"
    by (induction xs) (auto simp: map_filter_simps)
  ultimately have y: "yields (next_candidate H opt) [f] (filter ?acc xs)" by simp
  show thesis
    by (rule that[of "[f]", OF _ y])
       (use f o c root_content[OF ok, of ?iid] in
         \<open>auto simp: index_cursor_new_def push_frame_def in_order_filter\<close>)
qed

end
