(* ===== verification/Transaction_Index.thy ===== *)
theory Transaction_Index
  imports Transaction Index_Cursor
begin

text \<open>
  The index scan of a transaction (\<open>get_index_cursor\<close> of \<open>implementations/heed/transaction.rs\<close>):
  \<open>MergedIndexCursor\<close> overlays the pending index writes on the stored index and looks up every
  document through the transaction. It is shown to visit exactly the positions the transaction has
  in the index, with the documents \<open>get\<close> returns.
\<close>

section \<open>Definitions\<close>

definition index_position_of :: "index_entry \<Rightarrow> index_position" where
  "index_position_of e = Position (ie_value e) (ie_document_id e)"

definition entry_at :: "index_position \<Rightarrow> bytes \<Rightarrow> index_entry" where
  "entry_at p v = \<lparr>ie_value = pos_value p, ie_document_id = pos_document_id p, ie_document_value = v\<rparr>"

definition overlay_index_entries ::
  "('d, 'l, 'e) heed \<Rightarrow> write_set \<Rightarrow> 'd \<Rightarrow> TS \<Rightarrow> collection_id \<Rightarrow> index_id \<Rightarrow>
   index_position cursor_start \<Rightarrow> direction \<Rightarrow> 'e storage_error + index_entry list \<times> index_position set" where
  "overlay_index_entries H writes d ts cid iid start dir =
     (case Option.bind (map_of (ws_collections writes) cid) (\<lambda>c. map_of (cw_index_entries c) iid) of
        None \<Rightarrow> Inr ([], {})
      | Some index_writes \<Rightarrow>
          (let touched = set (map fst index_writes)
           in and_then (collect_results (\<lambda>(position, write).
                 if write \<noteq> Index_put \<or> \<not> accepts_start position start dir then Inr None
                 else and_then (visible_document H writes d ts cid (pos_document_id position)) (\<lambda>r.
                        Inr (map_option (entry_at position) r))) index_writes) (\<lambda>rows.
              let entries = List.map_filter id rows
              in Inr (if dir = Reverse then rev entries else entries, touched))))"

definition index_next_base ::
  "('d, 'l, 'e) heed \<Rightarrow> ('d, 'l) index_cursor_options \<Rightarrow> write_set \<Rightarrow> index_position set \<Rightarrow>
   ('e index_frame list, 'e, index_entry) cursor" where
  "index_next_base H opt writes touched =
     seek (next_candidate H opt) (\<lambda>candidate.
       if candidate_position candidate \<in> touched then Inr None
       else and_then (visible_document H writes (io_documents opt) (io_ts opt) (io_collection opt)
                (ic_document_id candidate)) (\<lambda>r.
            Inr (map_option (entry_at (candidate_position candidate)) r)))"

definition merged_index_next ::
  "('d, 'l, 'e) heed \<Rightarrow> ('d, 'l) index_cursor_options \<Rightarrow> write_set \<Rightarrow> index_position set \<Rightarrow>
   (('e index_frame list, index_entry) merged, 'e, index_entry) cursor" where
  "merged_index_next H opt writes touched =
     merged_next index_position_of (io_direction opt) (index_next_base H opt writes touched)"

definition index_options ::
  "('d, 'l) transaction \<Rightarrow> collection_id \<Rightarrow> index_id \<Rightarrow> index_position cursor_start \<Rightarrow> direction \<Rightarrow>
   ('d, 'l) index_cursor_options" where
  "index_options tx cid iid start dir =
     \<lparr>io_collection = cid, io_index_id = iid, io_edges = index_edges (tx_dbs tx),
      io_leaves = index_leaves (tx_dbs tx), io_documents = documents (tx_dbs tx), io_ts = tx_ts tx,
      io_start = start, io_direction = dir\<rparr>"

definition get_index_cursor ::
  "('d, 'l, 'e) heed \<Rightarrow> ('d, 'l) transaction \<Rightarrow> collection_id \<Rightarrow> index_id \<Rightarrow>
   index_position cursor_start \<Rightarrow> direction \<Rightarrow>
   'e storage_error + index_position set \<times> ('e index_frame list, index_entry) merged" where
  "get_index_cursor H tx cid iid start dir =
     and_then (overlay_index_entries H (tx_writes tx) (documents (tx_dbs tx)) (tx_ts tx) cid iid start dir)
       (\<lambda>(overlay, touched).
     and_then (index_cursor_new H (index_options tx cid iid start dir)) (\<lambda>base.
     Inr (touched, merged_new base overlay)))"

section \<open>The stored index\<close>

lemma map_filter_map_option: "set (List.map_filter (\<lambda>x. map_option (f x) (g x)) xs) =
    {y. \<exists>x v. x \<in> set xs \<and> g x = Some v \<and> y = f x v}"
proof (rule set_eqI)
  fix y
  show "y \<in> set (List.map_filter (\<lambda>x. map_option (f x) (g x)) xs) \<longleftrightarrow>
      y \<in> {y. \<exists>x v. x \<in> set xs \<and> g x = Some v \<and> y = f x v}"
    unfolding in_set_map_filter mem_Collect_eq map_option_eq_Some by blast
qed

lemma in_order_map_filter_key:
  assumes "in_order k1 dir xs" "\<And>x y. x \<in> set xs \<Longrightarrow> f x = Some y \<Longrightarrow> k2 y = k1 x"
  shows "in_order k2 dir (List.map_filter f xs)"
  using assms
proof (induction xs)
  case (Cons x xs)
  have "in_order k2 dir (List.map_filter f xs)" using Cons by auto
  moreover have "before dir (k2 y) (k2 z)" if "f x = Some y" "z \<in> set (List.map_filter f xs)" for y z
  proof -
    obtain w where w: "w \<in> set xs" "f w = Some z" using \<open>z \<in> _\<close> unfolding in_set_map_filter by blast
    then show ?thesis using Cons.prems(1) Cons.prems(2)[of x y] Cons.prems(2)[of w z] \<open>f x = Some y\<close> by simp
  qed
  ultimately show ?case by (auto simp: map_filter_simps split: option.splits)
qed (simp add: map_filter_simps)

lemma entry_at_position [simp]: "index_position_of (entry_at p v) = p"
  by (simp add: index_position_of_def entry_at_def)

lemma entry_at_eq: "e = entry_at p v \<longleftrightarrow> index_position_of e = p \<and> ie_document_value e = v"
  by (cases e; cases p) (auto simp: index_position_of_def entry_at_def)

text \<open>\<open>HeedIndexCursor::next\<close>: the visible documents of the stored index, in order.\<close>

lemma index_cursor_scan:
  fixes H :: "('d, 'l, 'e) heed" and opt :: "('d, 'l) index_cursor_options"
  assumes H: "heed_laws H it dit" and docs: "docs_ok (it (io_documents opt))"
    and ok: "trie_ok (map_of (it (io_edges opt))) (set (dit (io_leaves opt))) counter"
  obtains stack xs where "index_cursor_new H opt = Inr stack" "yields (index_cursor_next H opt) stack xs"
    "in_order index_position_of (io_direction opt) xs"
    "set xs = {e. trie_mem (map_of (it (io_edges opt))) (set (dit (io_leaves opt))) (io_index_id opt)
       (ie_value e) (ie_document_id e) \<and>
       doc_visible (it (io_documents opt)) (io_ts opt) (io_collection opt) (ie_document_id e) =
         Some (ie_document_value e) \<and>
       accepts_start (index_position_of e) (io_start opt) (io_direction opt)}"
proof -
  obtain stack cs where c: "index_cursor_new H opt = Inr stack" "yields (next_candidate H opt) stack cs"
    "positions_in_order (io_direction opt) cs"
    "set cs = {x. trie_mem (map_of (it (io_edges opt))) (set (dit (io_leaves opt))) (io_index_id opt)
       (ic_value x) (ic_document_id x) \<and>
       accepts_start (candidate_position x) (io_start opt) (io_direction opt)}"
    by (rule index_cursor_candidates[OF H ok])
  let ?vis = "doc_visible (it (io_documents opt)) (io_ts opt) (io_collection opt)"
  let ?g = "\<lambda>x. map_option (entry_at (candidate_position x)) (?vis (ic_document_id x))"
  have "yields (index_cursor_next H opt) stack (List.map_filter ?g cs)"
    unfolding index_cursor_next_def
    by (rule yields_seek[OF c(2)])
       (simp add: index_visible_document_def stored_document_visible[OF H docs] entry_at_def[abs_def] candidate_position_def)
  moreover have "in_order index_position_of (io_direction opt) (List.map_filter ?g cs)"
    by (rule in_order_map_filter_key[OF c(3)]) auto
  moreover have "e \<in> set (List.map_filter ?g cs) \<longleftrightarrow>
      trie_mem (map_of (it (io_edges opt))) (set (dit (io_leaves opt))) (io_index_id opt)
       (ie_value e) (ie_document_id e) \<and> ?vis (ie_document_id e) = Some (ie_document_value e) \<and>
       accepts_start (index_position_of e) (io_start opt) (io_direction opt)" for e
    unfolding map_filter_map_option c(4)
    by (auto simp: entry_at_eq candidate_position_def index_position_of_def
        intro!: exI[of _ "\<lparr>ic_value = ie_value e, ic_document_id = ie_document_id e\<rparr>"])
  ultimately show thesis using that c(1) by blast
qed

section \<open>The scan of a transaction\<close>

text \<open>A position is in the index of a transaction if it has a pending put there, or no pending write
  and the stored index has it.\<close>

definition tx_index_mem ::
  "('d \<Rightarrow> (bytes \<times> bytes) list) \<Rightarrow> ('l \<Rightarrow> (bytes \<times> bytes) list) \<Rightarrow> ('d, 'l) transaction \<Rightarrow>
   collection_id \<Rightarrow> index_id \<Rightarrow> bytes \<Rightarrow> document_id \<Rightarrow> bool" where
  "tx_index_mem it dit tx cid iid key did =
     (case ws_index (tx_writes tx) cid iid (Position key did) of
        Some w \<Rightarrow> w = Index_put
      | None \<Rightarrow> trie_mem (map_of (it (index_edges (tx_dbs tx)))) (set (dit (index_leaves (tx_dbs tx)))) iid key did)"

lemma visible_document_tx_view:
  fixes H :: "('d, 'l, 'e) heed" and tx :: "('d, 'l) transaction"
  assumes "heed_laws H it dit" "docs_ok (it (documents (tx_dbs tx)))"
  shows "visible_document H (tx_writes tx) (documents (tx_dbs tx)) (tx_ts tx) cid did = Inr (tx_view it tx cid did)"
  using tx_get_view[OF assms] by (simp add: tx_get_def)

lemma overlay_index_spec:
  fixes H :: "('d, 'l, 'e) heed" and tx :: "('d, 'l) transaction"
  assumes H: "heed_laws H it dit" and docs: "docs_ok (it (documents (tx_dbs tx)))"
    and ws: "ws_ok (tx_writes tx)"
  obtains overlay touched where
    "overlay_index_entries H (tx_writes tx) (documents (tx_dbs tx)) (tx_ts tx) cid iid start dir =
       Inr (overlay, touched)"
    "in_order index_position_of dir overlay"
    "\<forall>e. e \<in> set overlay \<longleftrightarrow> ws_index (tx_writes tx) cid iid (index_position_of e) = Some Index_put \<and>
       accepts_start (index_position_of e) start dir \<and>
       tx_view it tx cid (ie_document_id e) = Some (ie_document_value e)"
    "\<forall>p. p \<in> touched \<longleftrightarrow> ws_index (tx_writes tx) cid iid p \<noteq> None"
proof (cases "Option.bind (map_of (ws_collections (tx_writes tx)) cid) (\<lambda>c. map_of (cw_index_entries c) iid)")
  case None
  then have "ws_index (tx_writes tx) cid iid p = None" for p
    by (auto simp: ws_index_def split: option.splits)
  with None show thesis by (intro that[of "[]" "{}"]) (auto simp: overlay_index_entries_def)
next
  case (Some t)
  then obtain c where c: "map_of (ws_collections (tx_writes tx)) cid = Some c"
    "map_of (cw_index_entries c) iid = Some t" by (auto simp: bind_eq_Some_conv)
  then have "(cid, c) \<in> set (ws_collections (tx_writes tx))" "(iid, t) \<in> set (cw_index_entries c)"
    by (auto dest: map_of_SomeD)
  then have t: "bt_ok t" using ws unfolding ws_ok_def cw_ok_def by fast
  have idx: "ws_index (tx_writes tx) cid iid p = map_of t p" for p by (simp add: ws_index_def c)
  define g where "g = (\<lambda>(p, w). if w \<noteq> Index_put \<or> \<not> accepts_start p start dir then None
      else map_option (entry_at p) (tx_view it tx cid (pos_document_id p)))"
  let ?overlay = "(if dir = Reverse then rev else id) (List.map_filter g t)"
  have "collect_results (\<lambda>(position, write).
      if write \<noteq> Index_put \<or> \<not> accepts_start position start dir then Inr None
      else and_then (visible_document H (tx_writes tx) (documents (tx_dbs tx)) (tx_ts tx) cid (pos_document_id position))
             (\<lambda>r. Inr (map_option (entry_at position) r))) t = Inr (map g t)"
    by (rule collect_results_map) (auto simp: g_def visible_document_tx_view[OF H docs])
  then have run: "overlay_index_entries H (tx_writes tx) (documents (tx_dbs tx)) (tx_ts tx) cid iid start dir =
      Inr (?overlay, set (map fst t))"
    by (simp add: overlay_index_entries_def Some map_filter_id_map Let_def)
  have gk: "index_position_of y = fst p" if "g p = Some y" for p y
    using that by (cases p) (auto simp: g_def split: if_splits)
  have "in_order index_position_of Forward (List.map_filter g t)"
    by (rule in_order_map_filter[OF t]) (rule gk)
  then have order: "in_order index_position_of dir ?overlay" by (cases dir) (simp_all add: in_order_rev)
  have mem: "e \<in> set ?overlay \<longleftrightarrow> map_of t (index_position_of e) = Some Index_put \<and>
      accepts_start (index_position_of e) start dir \<and>
      tx_view it tx cid (ie_document_id e) = Some (ie_document_value e)" for e
  proof -
    have "e \<in> set ?overlay \<longleftrightarrow> (\<exists>w. map_of t (index_position_of e) = Some w \<and> g (index_position_of e, w) = Some e)"
      using gk bt_ok_map_of[OF t] by (auto simp: in_set_map_filter)
    also have "\<dots> \<longleftrightarrow> map_of t (index_position_of e) = Some Index_put \<and> g (index_position_of e, Index_put) = Some e"
      by (auto simp: g_def split: if_splits)
    also have "g (index_position_of e, Index_put) = Some e \<longleftrightarrow> accepts_start (index_position_of e) start dir \<and>
        tx_view it tx cid (ie_document_id e) = Some (ie_document_value e)"
      by (cases e) (auto simp: g_def index_position_of_def entry_at_def)
    finally show ?thesis .
  qed
  show thesis
    by (rule that[OF run order]) (use mem in \<open>simp_all add: idx map_of_eq_None_iff\<close>)
qed

text \<open>An index scan visits the positions of the transaction's index whose document the transaction
  sees, in order, each once.\<close>

lemma get_index_cursor_scan:
  fixes H :: "('d, 'l, 'e) heed" and tx :: "('d, 'l) transaction"
  assumes H: "heed_laws H it dit" and docs: "docs_ok (it (documents (tx_dbs tx)))"
    and ok: "trie_ok (map_of (it (index_edges (tx_dbs tx)))) (set (dit (index_leaves (tx_dbs tx)))) counter"
    and ws: "ws_ok (tx_writes tx)"
  obtains touched m xs where "get_index_cursor H tx cid iid start dir = Inr (touched, m)"
    "yields (merged_index_next H (index_options tx cid iid start dir) (tx_writes tx) touched) m xs"
    "in_order index_position_of dir xs"
    "set xs = {e. tx_index_mem it dit tx cid iid (ie_value e) (ie_document_id e) \<and>
       tx_view it tx cid (ie_document_id e) = Some (ie_document_value e) \<and>
       accepts_start (index_position_of e) start dir}"
proof -
  let ?opt = "index_options tx cid iid start dir"
  obtain overlay touched where ov:
    "overlay_index_entries H (tx_writes tx) (documents (tx_dbs tx)) (tx_ts tx) cid iid start dir =
       Inr (overlay, touched)"
    "in_order index_position_of dir overlay"
    "\<forall>e. e \<in> set overlay \<longleftrightarrow> ws_index (tx_writes tx) cid iid (index_position_of e) = Some Index_put \<and>
       accepts_start (index_position_of e) start dir \<and>
       tx_view it tx cid (ie_document_id e) = Some (ie_document_value e)"
    "\<forall>p. p \<in> touched \<longleftrightarrow> ws_index (tx_writes tx) cid iid p \<noteq> None"
    by (rule overlay_index_spec[OF H docs ws, of cid iid start dir])
  obtain stack cs where c: "index_cursor_new H ?opt = Inr stack" "yields (next_candidate H ?opt) stack cs"
    "positions_in_order dir cs"
    "set cs = {x. trie_mem (map_of (it (index_edges (tx_dbs tx)))) (set (dit (index_leaves (tx_dbs tx)))) iid
       (ic_value x) (ic_document_id x) \<and> accepts_start (candidate_position x) start dir}"
    by (rule index_cursor_candidates[OF H, of ?opt]) (use ok in \<open>simp_all add: index_options_def\<close>)
  define g where "g = (\<lambda>x. if candidate_position x \<in> touched then None
      else map_option (entry_at (candidate_position x)) (tx_view it tx cid (ic_document_id x)))"
  have base: "yields (index_next_base H ?opt (tx_writes tx) touched) stack (List.map_filter g cs)"
    unfolding index_next_base_def
    by (rule yields_seek[OF c(2)]) (simp add: g_def index_options_def visible_document_tx_view[OF H docs])
  have base_order: "in_order index_position_of dir (List.map_filter g cs)"
    by (rule in_order_map_filter_key[OF c(3)]) (auto simp: g_def split: if_splits)
  let ?bs = "List.map_filter g cs"
  have base_set: "e \<in> set ?bs \<longleftrightarrow> index_position_of e \<notin> touched \<and>
      trie_mem (map_of (it (index_edges (tx_dbs tx)))) (set (dit (index_leaves (tx_dbs tx)))) iid
        (ie_value e) (ie_document_id e) \<and>
      tx_view it tx cid (ie_document_id e) = Some (ie_document_value e) \<and>
      accepts_start (index_position_of e) start dir" for e
  proof -
    have "g x = Some e \<longleftrightarrow> index_position_of e \<notin> touched \<and> x = \<lparr>ic_value = ie_value e, ic_document_id = ie_document_id e\<rparr> \<and>
        tx_view it tx cid (ie_document_id e) = Some (ie_document_value e)" for x
      by (cases x; cases e) (auto simp: g_def entry_at_def index_position_of_def candidate_position_def)
    then show ?thesis unfolding in_set_map_filter c(4)
      by (auto simp: candidate_position_def index_position_of_def)
  qed
  let ?xs = "merge_by index_position_of dir ?bs overlay"
  have m: "set ?xs = {x \<in> set ?bs. index_position_of x \<notin> index_position_of ` set overlay} \<union> set overlay"
    "in_order index_position_of dir ?xs"
    using set_merge_by[OF base_order ov(2)] by blast+
  have "e \<in> set ?xs \<longleftrightarrow> tx_index_mem it dit tx cid iid (ie_value e) (ie_document_id e) \<and>
      tx_view it tx cid (ie_document_id e) = Some (ie_document_value e) \<and>
      accepts_start (index_position_of e) start dir" for e
  proof -
    have "index_position_of e \<notin> index_position_of ` set overlay" if "index_position_of e \<notin> touched"
      using that ov(3,4) by (auto simp: image_iff)
    moreover have "index_position_of e = Position (ie_value e) (ie_document_id e)"
      by (simp add: index_position_of_def)
    ultimately show ?thesis unfolding m(1) Un_iff mem_Collect_eq base_set ov(3)[rule_format] ov(4)[rule_format] tx_index_mem_def
      by (auto split: option.splits)
  qed
  moreover have "yields (merged_index_next H ?opt (tx_writes tx) touched) (merged_new stack overlay) ?xs"
    unfolding merged_index_next_def using yields_merged[OF base] by (simp add: index_options_def)
  moreover have "get_index_cursor H tx cid iid start dir = Inr (touched, merged_new stack overlay)"
    by (simp add: get_index_cursor_def ov(1) c(1))
  ultimately show thesis using that m(2) by blast
qed

end
