(* ===== verification/Engine_Properties.thy ===== *)
theory Engine_Properties
  imports Sample_Runs Transaction_Index
begin

text \<open>
  The properties of the storage engine and of the transactions that read it, with their witnesses
  on the runs of the sample store.
\<close>

section \<open>Reading\<close>

text \<open>C28. Reading a stored document at a timestamp returns its newest version not above the
  timestamp: nothing if there is none or if it is a tombstone.\<close>

theorem read_newest_version:
  assumes "heed_laws H it dit" "docs_ok (it d)"
  shows "stored_document H d ts c i =
    Inr (case newest (doc_history (it d) c i) ts of None \<Rightarrow> None | Some w \<Rightarrow> w)"
  using stored_document_visible[OF assms, of ts c i] by (simp add: doc_visible_def)

lemma docs_ok_sample: "docs_ok (log_items (documents (e_dbs sample_engine)))"
  using engine_ok_sample by (simp add: engine_ok_def documents_of_def)

lemma doc_history_sample: "doc_history (log_items (documents (e_dbs sample_engine))) (I64 1) 9 = [5 \<mapsto> Some [42]]"
  by (auto simp: fun_eq_iff doc_history_def sample_engine_def row_value_def
      encode_document_value_def DOCUMENT_VALUE_PREFIX_def DOCUMENT_TOMBSTONE_def)

lemma doc_visible_sample: "doc_visible (log_items (documents (e_dbs sample_engine))) 6 (I64 1) 9 = Some [42]"
proof -
  have "newest [5 \<mapsto> Some [42 :: byte]] (6 :: TS) = Some (Some [42])" by (rule newest_upd_now) simp_all
  then show ?thesis by (simp add: doc_visible_def doc_history_sample)
qed

theorem read_newest_version_witness:
  "stored_document log_heed (documents (e_dbs sample_engine)) 6 (I64 1) 9 = Inr (Some [42]) \<and>
   stored_document log_heed (documents (e_dbs sample_engine)) 4 (I64 1) 9 = Inr None"
proof -
  have "newest [5 \<mapsto> Some [42 :: byte]] (6 :: TS) = Some (Some [42])" by (rule newest_upd_now) simp_all
  moreover have "newest [5 \<mapsto> Some [42 :: byte]] (4 :: TS) = None" by (simp add: newest_None)
  ultimately show ?thesis
    using read_newest_version[OF log_heed_laws docs_ok_sample, of 6 "I64 1" 9]
      read_newest_version[OF log_heed_laws docs_ok_sample, of 4 "I64 1" 9] by (simp add: doc_history_sample)
qed

text \<open>C29. A transaction reads its own pending writes: after a put the value written, after a
  delete nothing; every other document reads as before.\<close>

theorem read_your_writes:
  "tx_get H (tx_put cid key v tx) cid' key' =
     (if cid' = cid \<and> key' = key then Inr (Some v) else tx_get H tx cid' key') \<and>
   tx_get H (tx_delete cid key tx) cid' key' =
     (if cid' = cid \<and> key' = key then Inr None else tx_get H tx cid' key')"
proof -
  have get: "tx_get H tx cid key = (case ws_document (tx_writes tx) cid key of
      Some (Document_put v) \<Rightarrow> Inr (Some v) | Some Document_deleted \<Rightarrow> Inr None
      | None \<Rightarrow> stored_document H (documents (tx_dbs tx)) (tx_ts tx) cid key)" for tx cid key
    by (simp add: tx_get_def visible_document_def ws_document_def split: option.splits document_write.splits)
  have w: "ws_document (collection_mut cid (cw_write_document key x) w) cid' key' =
      (if cid' = cid \<and> key' = key then Some x else ws_document w cid' key')" for x w
    by (simp add: ws_document_collection_mut cw_write_document_def ws_document_default)
  show ?thesis by (simp add: get tx_put_def tx_delete_def tx_write_def ws_put_def ws_delete_def w
      cong: option.case_cong)
qed

text \<open>C4. A scan of a collection in a transaction visits exactly the documents that \<open>get\<close> returns
  and the start accepts, each once, in the order of the direction, pending writes included, and
  ends.\<close>

theorem scan_agrees_with_get:
  fixes H :: "('d, 'l, 'e) heed"
  assumes "heed_laws H it dit" "docs_ok (it (documents (tx_dbs tx)))" "ws_ok (tx_writes tx)"
  shows "\<exists>touched m xs. get_cursor H tx cid start dir = Inr (touched, m) \<and>
    yields (merged_document_next touched dir) m xs \<and> in_order de_id dir xs \<and>
    (\<forall>e. e \<in> set xs \<longleftrightarrow>
       tx_get H tx cid (de_id e) = Inr (Some (de_value e)) \<and> accepts_start (de_id e) start dir)"
proof -
  obtain touched m xs where "get_cursor H tx cid start dir = Inr (touched, m)"
    "yields (merged_document_next touched dir) m xs" "in_order de_id dir xs"
    "set xs = {e. tx_view it tx cid (de_id e) = Some (de_value e) \<and> accepts_start (de_id e) start dir}"
    by (rule get_cursor_scan[OF assms])
  then show ?thesis by (auto simp: tx_get_view[OF assms(1,2)])
qed

theorem scan_agrees_with_get_witness:
  "\<exists>touched m xs. get_cursor log_heed (tx_put (I64 1) 3 [7] (transaction_new (e_dbs sample_engine) 6))
      (I64 1) Unbounded Forward = Inr (touched, m) \<and>
    yields (merged_document_next touched Forward) m xs \<and>
    \<lparr>de_id = 3, de_value = [7]\<rparr> \<in> set xs"
proof -
  let ?tx = "tx_put (I64 1) 3 [7] (transaction_new (e_dbs sample_engine) 6)"
  have 1: "docs_ok (log_items (documents (tx_dbs ?tx)))"
    using docs_ok_sample by (simp add: tx_put_def tx_write_def transaction_new_def)
  have 2: "ws_ok (tx_writes ?tx)" by (simp add: tx_put_def tx_write_def transaction_new_def)
  have "accepts_start (3 :: document_id) Unbounded Forward" by simp
  moreover have "tx_get log_heed ?tx (I64 1) 3 = Inr (Some [7])"
    by (simp add: tx_get_def visible_document_def tx_put_def tx_write_def transaction_new_def write_set_defs)
  ultimately show ?thesis
    using scan_agrees_with_get[OF log_heed_laws 1 2, of "I64 1" Unbounded Forward] by fastforce
qed

text \<open>C5. A scan of an index in a transaction visits exactly the positions the index has for the
  transaction (the stored ones, without the pending deletes and with the pending puts) whose
  document \<open>get\<close> returns and which the start accepts, each once, in the order of the direction, with
  that document, and ends.\<close>

theorem index_scan_agrees_with_get:
  fixes H :: "('d, 'l, 'e) heed" and tx :: "('d, 'l) transaction"
  assumes "heed_laws H it dit" "engine_ok it dit e" "tx_dbs tx = e_dbs e" "ws_ok (tx_writes tx)"
  shows "\<exists>touched m xs. get_index_cursor H tx cid iid start dir = Inr (touched, m) \<and>
    yields (merged_index_next H (index_options tx cid iid start dir) (tx_writes tx) touched) m xs \<and>
    in_order index_position_of dir xs \<and>
    (\<forall>x. x \<in> set xs \<longleftrightarrow>
       (case ws_index (tx_writes tx) cid iid (index_position_of x) of
          Some w \<Rightarrow> w = Index_put | None \<Rightarrow> index_mem it dit e iid (ie_value x) (ie_document_id x)) \<and>
       tx_get H tx cid (ie_document_id x) = Inr (Some (ie_document_value x)) \<and>
       accepts_start (index_position_of x) start dir)"
proof -
  have docs: "docs_ok (it (documents (tx_dbs tx)))"
    using assms(2,3) by (simp add: engine_ok_def documents_of_def)
  have ok: "trie_ok (map_of (it (index_edges (tx_dbs tx)))) (set (dit (index_leaves (tx_dbs tx))))
      (index_chain_id_counter e)"
    using assms(2,3) by (simp add: engine_ok_def index_ok_def edges_of_def leaves_of_def)
  obtain touched m xs where "get_index_cursor H tx cid iid start dir = Inr (touched, m)"
    "yields (merged_index_next H (index_options tx cid iid start dir) (tx_writes tx) touched) m xs"
    "in_order index_position_of dir xs"
    "set xs = {e. tx_index_mem it dit tx cid iid (ie_value e) (ie_document_id e) \<and>
       tx_view it tx cid (ie_document_id e) = Some (ie_document_value e) \<and>
       accepts_start (index_position_of e) start dir}"
    by (rule get_index_cursor_scan[OF assms(1) docs ok assms(4)])
  moreover have "tx_index_mem it dit tx cid iid (ie_value x) (ie_document_id x) =
      (case ws_index (tx_writes tx) cid iid (index_position_of x) of
         Some w \<Rightarrow> w = Index_put | None \<Rightarrow> index_mem it dit e iid (ie_value x) (ie_document_id x))" for x
    using assms(3) by (simp add: tx_index_mem_def index_mem_def edges_of_def leaves_of_def
        index_position_of_def cong: option.case_cong)
  ultimately show ?thesis by (intro exI conjI) (auto simp: tx_get_view[OF assms(1) docs])
qed

theorem index_scan_agrees_with_get_witness:
  "\<exists>touched m xs. get_index_cursor log_heed (tx_put_index_entry (I64 1) (I64 3) [5] 9
        (transaction_new (e_dbs sample_engine) 6)) (I64 1) (I64 3) Unbounded Reverse = Inr (touched, m) \<and>
    yields (merged_index_next log_heed (index_options (tx_put_index_entry (I64 1) (I64 3) [5] 9
        (transaction_new (e_dbs sample_engine) 6)) (I64 1) (I64 3) Unbounded Reverse)
      (tx_writes (tx_put_index_entry (I64 1) (I64 3) [5] 9 (transaction_new (e_dbs sample_engine) 6))) touched) m xs \<and>
    \<lparr>ie_value = [5], ie_document_id = 9, ie_document_value = [42]\<rparr> \<in> set xs"
proof -
  let ?tx = "tx_put_index_entry (I64 1) (I64 3) [5] 9 (transaction_new (e_dbs sample_engine) 6)"
  let ?x = "\<lparr>ie_value = [5], ie_document_id = 9, ie_document_value = [42]\<rparr>"
  have 1: "tx_dbs ?tx = e_dbs sample_engine" and 2: "ws_ok (tx_writes ?tx)"
    by (simp_all add: tx_put_index_entry_def tx_write_def transaction_new_def)
  have "tx_get log_heed ?tx (I64 1) 9 = stored_document log_heed (documents (e_dbs sample_engine)) 6 (I64 1) 9"
    by (simp add: tx_get_def visible_document_def tx_put_index_entry_def tx_write_def transaction_new_def write_set_defs)
  also have "\<dots> = Inr (Some [42])"
    by (simp add: stored_document_visible[OF log_heed_laws docs_ok_sample] doc_visible_sample)
  finally have get: "tx_get log_heed ?tx (I64 1) 9 = Inr (Some [42])" .
  have idx: "ws_index (tx_writes ?tx) (I64 1) (I64 3) (index_position_of ?x) = Some Index_put"
    by (simp add: ws_index_def tx_put_index_entry_def tx_write_def transaction_new_def write_set_defs
        index_position_of_def)
  have start: "accepts_start (index_position_of ?x) Unbounded Reverse" by simp
  obtain touched m xs where scan: "get_index_cursor log_heed ?tx (I64 1) (I64 3) Unbounded Reverse = Inr (touched, m)"
    "yields (merged_index_next log_heed (index_options ?tx (I64 1) (I64 3) Unbounded Reverse) (tx_writes ?tx) touched) m xs"
    and mem: "\<forall>x. x \<in> set xs \<longleftrightarrow>
       (case ws_index (tx_writes ?tx) (I64 1) (I64 3) (index_position_of x) of
          Some w \<Rightarrow> w = Index_put
        | None \<Rightarrow> index_mem log_items log_dup_items sample_engine (I64 3) (ie_value x) (ie_document_id x)) \<and>
       tx_get log_heed ?tx (I64 1) (ie_document_id x) = Inr (Some (ie_document_value x)) \<and>
       accepts_start (index_position_of x) Unbounded Reverse"
    using index_scan_agrees_with_get[OF log_heed_laws engine_ok_sample 1 2, of "I64 1" "I64 3" Unbounded Reverse]
    by (elim exE conjE)
  have "?x \<in> set xs" using mem idx get start by simp
  with scan show ?thesis by blast
qed

section \<open>Applying a batch\<close>

text \<open>C1. A batch that commits is a new snapshot at its timestamp: readers at an earlier timestamp
  see exactly what they saw before; later readers see its last write to a document and, for every
  document it does not name, what they saw before. Its temporary collection ids stand for the
  stored ids of their names.\<close>

theorem put_is_a_snapshot:
  assumes H: "heed_laws H it dit" and run: "engine_put H w e = (Inr (), e')"
    and ok: "engine_inv it dit e" "batch_ok w" "batch_room e w"
  shows "\<exists>nc. (\<forall>tmp n. map_of (ws_new_collections w) tmp = Some n \<longrightarrow>
        (\<exists>c. nc tmp = Some c \<and> names_of it e' n = Some (i64_to_be c))) \<and>
    (\<forall>ts c i. doc_visible (documents_of it e') ts c i =
       (if ts < ws_ts w then doc_visible (documents_of it e) ts c i
        else read_after (batch_write nc (ws_collections w) c i) (doc_visible (documents_of it e) ts c i)))"
  by (rule put_visible[OF assms]) blast

theorem put_is_a_snapshot_witness:
  "doc_visible (documents_of log_items sample_engine) 4 (I64 1) 9 =
     doc_visible (documents_of log_items empty_engine) 4 (I64 1) 9"
  using put_is_a_snapshot[OF log_heed_laws sample_run engine_inv_empty sample_batch_ok]
  by (auto simp: sample_batch_def write_set_defs)

text \<open>After a batch, a document of a stored collection that the batch writes reads as written,
  at the timestamp of the batch and at every later one.\<close>

theorem put_then_read:
  assumes H: "heed_laws H it dit" and run: "engine_put H w e = (Inr (), e')"
    and ok: "engine_inv it dit e" "batch_ok w" "batch_room e w"
    and x: "ws_document w c i = Some x" "0 \<le> i64_val c" "ws_ts w \<le> ts"
  shows "stored_document H (documents (e_dbs e')) ts c i = Inr (written x)"
proof -
  obtain nc where d: "docs_ok (documents_of it e')" and v: "\<And>ts c i. doc_visible (documents_of it e') ts c i =
       (if ts < ws_ts w then doc_visible (documents_of it e) ts c i
        else read_after (batch_write nc (ws_collections w) c i) (doc_visible (documents_of it e) ts c i))"
    by (rule put_visible[OF H run ok]) blast
  have "batch_write nc (ws_collections w) c i = Some x"
    by (rule batch_write_stored[OF _ x(2,1)]) (use ok(2) in \<open>simp add: batch_ok_def\<close>)
  then have "doc_visible (documents_of it e') ts c i = written x"
    using v[of ts c i] leD[OF x(3)] by (simp add: read_after_def)
  then show ?thesis
    using stored_document_visible[OF H, of "documents (e_dbs e')" ts c i] d
    by (simp add: documents_of_def)
qed

theorem put_then_read_witness:
  "stored_document log_heed (documents (e_dbs sample_engine)) 5 (I64 1) 9 = Inr (Some [42])"
proof -
  have x: "ws_document sample_batch (I64 1) 9 = Some (Document_put [42])"
    by (simp add: ws_document_def sample_batch_def write_set_defs)
  have t: "ws_ts sample_batch \<le> 5" by (simp add: sample_batch_def write_set_defs)
  have c: "0 \<le> i64_val (I64 1)" by (simp add: i64_val_def)
  show ?thesis
    using put_then_read[OF log_heed_laws sample_run engine_inv_empty sample_batch_ok x c t]
    by (simp add: written_def)
qed

text \<open>C7. The invariant of the store is kept by every batch that commits: the document rows decode,
  no version is above the engine's timestamp, the index trie is well-formed and the two collection
  catalogs agree.\<close>

theorem put_keeps_invariant:
  assumes "heed_laws H it dit" "engine_put H w e = (Inr (), e')"
    and "engine_inv it dit e" "batch_ok w" "batch_room e w"
  shows "engine_inv it dit e'"
  by (rule put_inv[OF assms])

theorem put_keeps_invariant_witness: "engine_inv log_items log_dup_items sample_engine"
  by (rule put_keeps_invariant[OF log_heed_laws sample_run engine_inv_empty sample_batch_ok])

text \<open>C12. A batch older than the engine is rejected, and no failure of \<open>put\<close>, whatever its cause,
  changes the databases.\<close>

theorem failed_put_changes_nothing:
  "(ws_ts w < e_ts e \<longrightarrow> (\<exists>x. fst (engine_put H w e) = Inl x)) \<and>
   (\<forall>x. fst (engine_put H w e) = Inl x \<longrightarrow> e_dbs (snd (engine_put H w e)) = e_dbs e)"
proof -
  obtain r e' where run: "engine_put H w e = (r, e')" by force
  have "\<exists>x. r = Inl x" if "ws_ts w < e_ts e"
    using engine_put_ts[OF run] that by (cases r) auto
  then show ?thesis using run write_txn_Inl[of H "put_body H w" e] by (auto simp: engine_put_def)
qed

theorem failed_put_changes_nothing_witness:
  "\<exists>x. fst (engine_put log_heed (second_batch\<lparr>ws_ts := 4\<rparr>) sample_engine) = Inl x"
  using failed_put_changes_nothing[of "second_batch\<lparr>ws_ts := 4\<rparr>" sample_engine log_heed]
  by (simp add: sample_engine_def)

text \<open>C13. The engine's timestamp never goes back, in any outcome of a batch: it is the old one or
  the batch's, and the batch's when the batch commits. \<open>put\<close> leaves the visible timestamp alone.\<close>

theorem timestamp_never_goes_back:
  "e_ts e \<le> e_ts (snd (engine_put H w e)) \<and>
   e_ts (snd (engine_put H w e)) \<in> {e_ts e, ws_ts w} \<and>
   (fst (engine_put H w e) = Inr () \<longrightarrow> e_ts (snd (engine_put H w e)) = ws_ts w) \<and>
   e_visible_ts (snd (engine_put H w e)) = e_visible_ts e"
proof -
  obtain r e' where run: "engine_put H w e = (r, e')" by force
  show ?thesis using engine_put_ts[OF run] run by (cases "e_ts e' = e_ts e") auto
qed

theorem timestamp_never_goes_back_witness:
  "e_ts (snd (engine_put log_heed second_batch sample_engine)) = 8"
proof -
  have "fst (engine_put log_heed second_batch sample_engine) = Inr ()" using second_run by auto
  then show ?thesis
    using timestamp_never_goes_back[of sample_engine log_heed second_batch]
    by (simp add: second_batch_def write_set_defs)
qed

section \<open>Indexes and catalogs\<close>

text \<open>C6. Putting an index entry adds exactly one (index, key, document) to the abstract content of
  the segmented trie and deleting one removes exactly that one, whatever the length of the key;
  both keep the trie well-formed.\<close>

theorem index_entry_refines_set:
  assumes H: "heed_laws H it dit" and ok: "index_ok it dit e"
  shows "(\<forall>e'. put_index_entry H iid key did e = (Inr (), e') \<and> chain_room e (length (split_index_key key)) \<longrightarrow>
      index_ok it dit e' \<and>
      {(i, k, d). index_mem it dit e' i k d} = insert (iid, key, did) {(i, k, d). index_mem it dit e i k d}) \<and>
    (\<forall>e'. delete_index_entry H iid key did e = (Inr (), e') \<longrightarrow> index_ok it dit e' \<and>
      {(i, k, d). index_mem it dit e' i k d} = {(i, k, d). index_mem it dit e i k d} - {(iid, key, did)})"
proof -
  have "index_ok it dit e' \<and>
      {(i, k, d). index_mem it dit e' i k d} = insert (iid, key, did) {(i, k, d). index_mem it dit e i k d}"
    if "put_index_entry H iid key did e = (Inr (), e')" "chain_room e (length (split_index_key key))" for e'
    using put_index_entry_spec[OF H that(1) ok, of 0] that(2) by auto
  moreover have "index_ok it dit e' \<and>
      {(i, k, d). index_mem it dit e' i k d} = {(i, k, d). index_mem it dit e i k d} - {(iid, key, did)}"
    if "delete_index_entry H iid key did e = (Inr (), e')" for e'
    using delete_index_entry_spec[OF H that ok] by auto
  ultimately show ?thesis by blast
qed

lemma sample_index_ok: "index_ok log_items log_dup_items sample_engine"
  using engine_ok_sample by (simp add: engine_ok_def)

theorem index_entry_refines_set_witness:
  "\<exists>e'. put_index_entry log_heed (I64 3) [8] 2 sample_engine = (Inr (), e') \<and>
     index_mem log_items log_dup_items e' (I64 3) [8] 2"
proof -
  obtain e' where e': "put_index_entry log_heed (I64 3) [8] 2 sample_engine = (Inr (), e')"
    by (simp add: run_simps sample_engine_def)
  have "chain_room sample_engine (length (split_index_key [8]))"
    by (simp add: chain_room_def sample_engine_def split_index_key_short)
  then have "{(i, k, d). index_mem log_items log_dup_items e' i k d} =
      insert (I64 3, [8], 2) {(i, k, d). index_mem log_items log_dup_items sample_engine i k d}"
    using index_entry_refines_set[OF log_heed_laws sample_index_ok, of "I64 3" "[8]" 2] e' by blast
  then show ?thesis using e' by blast
qed

text \<open>C22. Creating a collection whose name exists returns its id and changes nothing; otherwise it
  gives the name an id no other name has. Either way the name then stands for the returned id and
  the catalogs still agree.\<close>

theorem create_collection_by_name:
  assumes "heed_laws H it dit" "create_collection H n None ts e = (Inr c, e')"
    and "catalog_ok it e" "name_ok n" "collection_room e 1"
  shows "catalog_ok it e' \<and> names_of it e' n = Some (i64_to_be c) \<and>
    (case names_of it e n of
       Some v \<Rightarrow> e' = e
     | None \<Rightarrow> names_of it e' = (names_of it e)(n \<mapsto> i64_to_be c) \<and>
         (\<forall>n'. names_of it e n' \<noteq> Some (i64_to_be c)))"
  using create_collection_spec[OF assms(1-4), of 0] assms(5) by (auto split: option.splits)

theorem create_collection_by_name_witness:
  "create_collection log_heed [97] None 6 sample_engine = (Inr (I64 1), sample_engine)"
proof -
  obtain c e' where r: "create_collection log_heed [97] None 6 sample_engine = (Inr c, e')"
    by (simp add: run_simps sample_engine_def decode_i64_def fixed_def i64_to_be_def i64_from_be_def)
  have cat: "catalog_ok log_items sample_engine" using engine_ok_sample by (simp add: engine_ok_def)
  have n: "name_ok [97]" by (simp add: name_ok_def)
  have room: "collection_room sample_engine 1" by (simp add: collection_room_def sample_engine_def)
  have v: "names_of log_items sample_engine [97] = Some (i64_to_be (I64 1))"
    by (simp add: names_of_def sample_engine_def)
  show ?thesis using create_collection_by_name[OF log_heed_laws r cat n room] r v by auto
qed

section \<open>Durability\<close>

text \<open>C27. A commit that fails after \<open>set_ts\<close> leaves the raised timestamp in memory only. Putting the
  same batch again then commits without storing the timestamp, and opening the store again gives
  the timestamp of before the batch although its rows are there.\<close>

theorem retry_loses_timestamp:
  assumes H: "heed_laws H it dit" and H': "heed_laws H' it dit" and p: "persisted it e"
    and fail: "engine_put H w e = (Inl x, e1)" "e_ts e1 = ws_ts w"
    and retry: "engine_put H' w e1 = (Inr (), e2)" and reopen: "engine_new H' (e_dbs e2) = Inr e3"
    and live: "h_write_txn H' (e_dbs e2) = Inr ()" "h_commit H' (e_dbs e2) = Inr ()"
    and meta: "metadata_ok it (e_dbs e2)"
  shows "e_ts e2 = ws_ts w \<and> e_ts e3 = e_ts e"
proof -
  have s: "e_dbs e1 = e_dbs e" using fail(1) write_txn_Inl by (simp add: engine_put_def)
  have "stored_u64 it (e_dbs e2) METADATA_TS_KEY = e_ts e"
    using put_same_ts_stored[OF H' retry fail(2)] p by (simp add: s persisted_def)
  moreover have "e3 = reopened it (e_dbs e2)" using engine_new_eq[OF H' meta live] reopen by simp
  ultimately show ?thesis using engine_put_ts[OF retry] by (simp add: reopened_def)
qed

text \<open>A store whose commits fail (a full disk), and one second later do not.\<close>

definition full_heed :: "(log_db, log_dup_db, log_error) heed" where
  "full_heed = log_heed\<lparr>h_commit := (\<lambda>_. Inl Bad_val_size)\<rparr>"

lemma full_heed_laws: "heed_laws full_heed log_items log_dup_items"
  using log_heed_laws by (simp add: heed_laws_def full_heed_def)

lemma full_ops [simp]:
  "h_put full_heed = h_put log_heed" "h_get full_heed = h_get log_heed"
  "h_get_le full_heed = h_get_le log_heed" "h_write_txn full_heed = h_write_txn log_heed"
  "h_commit full_heed s = Inl Bad_val_size"
  by (simp_all add: full_heed_def)

theorem retry_loses_timestamp_witness:
  "\<exists>x e1 e2 e3. engine_put full_heed second_batch sample_engine = (Inl x, e1) \<and>
     engine_put log_heed second_batch e1 = (Inr (), e2) \<and> e_ts e2 = 8 \<and>
     engine_new log_heed (e_dbs e2) = Inr e3 \<and> e_ts e3 = 5"
proof -
  obtain x e1 where 1: "engine_put full_heed second_batch sample_engine = (Inl x, e1)" "e_ts e1 = 8"
    "e1 = sample_engine\<lparr>e_ts := 8\<rparr>"
    by (simp add: run_simps second_batch_def sample_engine_def)
  obtain e2 where 2: "engine_put log_heed second_batch e1 = (Inr (), e2)"
    and m: "metadata_db (e_dbs e2) = metadata_db (e_dbs sample_engine)"
    unfolding 1(3) by (simp add: run_simps second_batch_def sample_engine_def)
  have meta: "metadata_ok log_items (e_dbs e2)"
    using persisted_sample m by (simp add: persisted_def metadata_ok_def)
  obtain e3 where 3: "engine_new log_heed (e_dbs e2) = Inr e3"
    using engine_new_eq[OF log_heed_laws meta] by simp
  have ts: "e_ts e1 = ws_ts second_batch" using 1(2) by (simp add: second_batch_def write_set_defs)
  have "e_ts e2 = ws_ts second_batch \<and> e_ts e3 = e_ts sample_engine"
    by (rule retry_loses_timestamp[OF full_heed_laws log_heed_laws persisted_sample 1(1) ts 2 3 _ _ meta])
       simp_all
  then have "e_ts e2 = 8 \<and> e_ts e3 = 5" by (simp add: second_batch_def write_set_defs sample_engine_def)
  then show ?thesis using 1(1) 2 3 by blast
qed

end
