(* ===== verification/Engine_Index_Catalog.thy ===== *)
theory Engine_Index_Catalog
  imports Engine_Batch
begin

text \<open>
  The catalog of the indexes (\<open>indexes_catalog\<close> of \<open>implementations/heed/datastore.rs\<close>): one row per
  collection and index name, with the id of the index and its metadata. \<open>create_index\<close> is shown to
  return the id of an existing index and to allocate a fresh one otherwise, and a batch to resolve
  every temporary index id to the index of the last collection that declares it.
\<close>

section \<open>Invariant\<close>

definition index_rows :: "('d \<Rightarrow> (bytes \<times> bytes) list) \<Rightarrow> ('d, 'l) engine \<Rightarrow> bytes \<Rightarrow> bytes option" where
  "index_rows it e = map_of (it (indexes_catalog (e_dbs e)))"

definition index_rows_ok :: "(bytes \<Rightarrow> bytes option) \<Rightarrow> u64 \<Rightarrow> bool" where
  "index_rows_ok rows counter \<longleftrightarrow>
     (\<forall>k b. rows k = Some b \<longrightarrow> (\<exists>c n i m. k = encode_index_catalog_key c n \<and>
        b = encode_index_catalog_value i m \<and> 0 \<le> i64_val c \<and> utf8_valid n \<and> stored_id counter i)) \<and>
     (\<forall>k k' i m m'. rows k = Some (encode_index_catalog_value i m) \<longrightarrow>
        rows k' = Some (encode_index_catalog_value i m') \<longrightarrow> k = k')"

definition index_catalog_ok :: "('d \<Rightarrow> (bytes \<times> bytes) list) \<Rightarrow> ('d, 'l) engine \<Rightarrow> bool" where
  "index_catalog_ok it e \<longleftrightarrow> index_rows_ok (index_rows it e) (index_id_counter e)"

definition index_id_room :: "('d, 'l) engine \<Rightarrow> nat \<Rightarrow> bool" where
  "index_id_room e n \<longleftrightarrow> unat (index_id_counter e) + n < 2 ^ 63"

text \<open>The id under which the catalog has an index.\<close>

definition has_index :: "(bytes \<Rightarrow> bytes option) \<Rightarrow> collection_id \<Rightarrow> rstring \<Rightarrow> index_id \<Rightarrow> bool" where
  "has_index rows c n i \<longleftrightarrow> (\<exists>m. rows (encode_index_catalog_key c n) = Some (encode_index_catalog_value i m))"

lemma index_value_inject [simp]:
  "encode_index_catalog_value i m = encode_index_catalog_value i' m' \<longleftrightarrow> i = i' \<and> m = m'"
  by (simp add: encode_index_catalog_value_def)

lemma index_row:
  assumes "index_rows_ok rows counter" "rows k = Some b"
  obtains c n i m where "k = encode_index_catalog_key c n" "b = encode_index_catalog_value i m"
    "0 \<le> i64_val c" "utf8_valid n" "stored_id counter i"
  using assms unfolding index_rows_ok_def by blast

lemma has_index_unique:
  "has_index rows c n i \<Longrightarrow> has_index rows c n i' \<Longrightarrow> i = i'"
  by (auto simp: has_index_def)

lemma has_index_injective:
  assumes "index_rows_ok rows counter" "has_index rows c n i" "has_index rows c' n' i"
  shows "c = c' \<and> n = n'"
proof -
  obtain m m' where "rows (encode_index_catalog_key c n) = Some (encode_index_catalog_value i m)"
    "rows (encode_index_catalog_key c' n') = Some (encode_index_catalog_value i m')"
    using assms(2,3) by (auto simp: has_index_def)
  then have "encode_index_catalog_key c n = encode_index_catalog_key c' n'"
    using assms(1) unfolding index_rows_ok_def by blast
  then show ?thesis by simp
qed

lemma index_rows_new:
  assumes ok: "index_rows_ok rows counter" and k: "0 \<le> i64_val c" "utf8_valid n"
    and i: "stored_id counter' i" "unat counter \<le> unat counter'" "\<not> stored_id counter i"
    and none: "rows (encode_index_catalog_key c n) = None"
  shows "index_rows_ok (rows(encode_index_catalog_key c n \<mapsto> encode_index_catalog_value i m)) counter'"
proof -
  let ?k = "encode_index_catalog_key c n"
  let ?rows = "rows(?k \<mapsto> encode_index_catalog_value i m)"
  have fresh: "rows k' \<noteq> Some (encode_index_catalog_value i m')" for k' m'
  proof
    assume "rows k' = Some (encode_index_catalog_value i m')"
    then obtain i' m'' where "encode_index_catalog_value i m' = encode_index_catalog_value i' m''"
      "stored_id counter i'" by (rule index_row[OF ok]) blast
    then show False using i(3) by simp
  qed
  have row: "\<exists>c n i m. k' = encode_index_catalog_key c n \<and> b = encode_index_catalog_value i m \<and>
      0 \<le> i64_val c \<and> utf8_valid n \<and> stored_id counter' i" if "?rows k' = Some b" for k' b
  proof (cases "k' = ?k")
    case True
    then have "b = encode_index_catalog_value i m" using that by simp
    then show ?thesis using True k i(1) by blast
  next
    case False
    then have "rows k' = Some b" using that by simp
    then obtain c' n' i' m' where "k' = encode_index_catalog_key c' n'" "b = encode_index_catalog_value i' m'"
      "0 \<le> i64_val c'" "utf8_valid n'" "stored_id counter i'" by (rule index_row[OF ok])
    then show ?thesis using stored_id_mono[OF _ i(2)] by blast
  qed
  have unique: "k1 = k2" if "?rows k1 = Some (encode_index_catalog_value j m1)"
    "?rows k2 = Some (encode_index_catalog_value j m2)" for k1 k2 j m1 m2
  proof (cases "k1 = ?k \<or> k2 = ?k")
    case True
    then have "j = i" using that by auto
    then show ?thesis using that fresh by (auto split: if_splits)
  next
    case False
    then have "rows k1 = Some (encode_index_catalog_value j m1)" "rows k2 = Some (encode_index_catalog_value j m2)"
      using that by auto
    then show ?thesis using ok unfolding index_rows_ok_def by blast
  qed
  show ?thesis unfolding index_rows_ok_def using row unique by blast
qed

section \<open>Creating an index\<close>

lemma create_index_spec:
  assumes H: "heed_laws H it dit" and run: "create_index H c n x e = (Inr i, e')"
    and ok: "index_catalog_ok it e" "0 \<le> i64_val c" "utf8_valid n" and room: "index_id_room e (Suc k)"
  shows "index_catalog_ok it e' \<and> index_id_room e' k \<and> has_index (index_rows it e') c n i \<and>
    index_rows it e \<subseteq>\<^sub>m index_rows it e' \<and>
    (case index_rows it e (encode_index_catalog_key c n) of
       Some _ \<Rightarrow> e' = e
     | None \<Rightarrow> index_rows it e' =
         (index_rows it e)(encode_index_catalog_key c n \<mapsto> encode_index_catalog_value i x))"
proof -
  let ?k = "encode_index_catalog_key c n"
  note get = heed_get[OF H, of ?k "indexes_catalog (e_dbs e)"]
  show ?thesis
  proof (cases "index_rows it e ?k")
    case (Some b)
    then obtain c' n' i' m where row: "?k = encode_index_catalog_key c' n'" "b = encode_index_catalog_value i' m"
      by (rule index_row[OF ok(1)[unfolded index_catalog_ok_def]]) blast
    have "(decode_index_catalog_value b :: 'c storage_error + index_id \<times> bytes) = Inr (i', m)"
      using index_catalog_value.decode_iff[of b "(i', m)"] row(2) by simp
    then have "e' = e" "i = i'"
      using run get Some by (auto simp: create_index_def act_Inr Let_def index_rows_def)
    then show ?thesis using Some row ok(1) room by (auto simp: has_index_def index_id_room_def)
  next
    case None
    let ?id = "index_id_counter e + 1"
    obtain d where i: "i = I64 ?id"
      and d: "h_put H (indexes_catalog (e_dbs e)) ?k (encode_index_catalog_value i x) = Inr d"
      and e': "e' = e\<lparr>index_id_counter := ?id, index_id_counter_changed := True,
        e_dbs := (e_dbs e)\<lparr>indexes_catalog := d\<rparr>\<rparr>"
      using run get None
      by (auto simp: create_index_def act_Inr Let_def index_rows_def allocate_index_id_def)
    have id: "unat ?id = unat (index_id_counter e) + 1" "unat ?id + k < 2 ^ 63"
      using room by (simp_all add: index_id_room_def unat_word_ariths)
    have val: "i64_val i = int (unat ?id)" using id i64_val_small[of ?id] by (simp only: i)
    have rows: "index_rows it e' = (index_rows it e)(?k \<mapsto> encode_index_catalog_value i x)"
      using heed_put[OF H d] by (simp add: e' index_rows_def)
    have new: "stored_id ?id i" using val id(1) by (simp add: stored_id_def i del: of_nat_unat)
    have fresh: "\<not> stored_id (index_id_counter e) i" using id(1) by (simp add: stored_id_def i)
    have "index_rows_ok (index_rows it e') ?id" unfolding rows
      using index_rows_new[OF ok(1)[unfolded index_catalog_ok_def] ok(2,3) new _ fresh None] id(1) by simp
    then have "index_catalog_ok it e'" by (simp add: index_catalog_ok_def) (simp add: e')
    moreover have "index_rows it e \<subseteq>\<^sub>m index_rows it e'" using None by (auto simp: rows map_le_def)
    moreover have "index_id_room e' k" using id(2) by (simp add: e' index_id_room_def)
    ultimately show ?thesis using None by (simp add: rows has_index_def)
  qed
qed

lemma has_index_mono: "rows \<subseteq>\<^sub>m rows' \<Longrightarrow> has_index rows c n i \<Longrightarrow> has_index rows' c n i"
  unfolding has_index_def by (elim exE) (rule exI, rule map_le_Some)

text \<open>The loop over the new indexes of one collection.\<close>

lemma create_indexes_of_spec:
  assumes H: "heed_laws H it dit" and c: "0 \<le> i64_val c"
  shows "create_indexes_of H c xs m e = (Inr m', e') \<Longrightarrow> index_catalog_ok it e \<Longrightarrow>
    \<forall>(tmp, x) \<in> set xs. utf8_valid (icw_name x) \<Longrightarrow> index_id_room e (length xs + k) \<Longrightarrow> bt_ok xs \<Longrightarrow>
    index_catalog_ok it e' \<and> index_id_room e' k \<and> index_rows it e \<subseteq>\<^sub>m index_rows it e' \<and>
    (\<forall>tmp. case map_of xs tmp of
       None \<Rightarrow> m' tmp = m tmp
     | Some x \<Rightarrow> \<exists>i. m' tmp = Some i \<and> has_index (index_rows it e') c (icw_name x) i)"
proof (induction xs arbitrary: m e)
  case Nil
  then show ?case by (simp add: act_Inr)
next
  case (Cons p xs)
  obtain tmp x where p: "p = (tmp, x)" by (cases p)
  obtain i e1 where 1: "create_index H c (icw_name x) (icw_metadata x) e = (Inr i, e1)"
    and 2: "create_indexes_of H c xs (m(tmp \<mapsto> i)) e1 = (Inr m', e')"
    using Cons.prems(1) p by (auto simp: act_Inr)
  have "utf8_valid (icw_name x)" "index_id_room e (Suc (length xs + k))" using Cons.prems p by auto
  note s = create_index_spec[OF H 1 Cons.prems(2) c this]
  have bt: "bt_ok xs" "map_of xs tmp = None"
    using Cons.prems(5) bt_ok_notin[of tmp x xs] p by (auto simp: bt_ok_Cons)
  have IH: "index_catalog_ok it e'" "index_id_room e' k" "index_rows it e1 \<subseteq>\<^sub>m index_rows it e'"
    "\<forall>tmp'. case map_of xs tmp' of None \<Rightarrow> m' tmp' = (m(tmp \<mapsto> i)) tmp'
       | Some x \<Rightarrow> \<exists>i. m' tmp' = Some i \<and> has_index (index_rows it e') c (icw_name x) i"
    using Cons.IH[OF 2] s Cons.prems(3) bt(1) by auto
  have new: "m' tmp = Some i" using IH(4)[rule_format, of tmp] bt(2) by simp
  have "has_index (index_rows it e') c (icw_name x) i" using has_index_mono[OF IH(3)] s by blast
  then have "case map_of (p # xs) tmp' of None \<Rightarrow> m' tmp' = m tmp'
      | Some x \<Rightarrow> \<exists>i. m' tmp' = Some i \<and> has_index (index_rows it e') c (icw_name x) i" for tmp'
    using IH(4)[rule_format, of tmp'] new p by (cases "tmp' = tmp") (simp_all split: option.splits)
  moreover have "index_rows it e \<subseteq>\<^sub>m index_rows it e1" using s by blast
  ultimately show ?case using IH(1,2) map_le_trans[OF _ IH(3)] by simp
qed

text \<open>The declaration a temporary index id stands for: the last one, over all collections.\<close>

fun last_declaration ::
  "(collection_id \<times> (index_id, index_catalog_write) btree) list \<Rightarrow> index_id \<Rightarrow>
   (collection_id \<times> index_catalog_write) option" where
  "last_declaration [] tmp = None"
| "last_declaration ((cid, t) # nis) tmp =
     (case last_declaration nis tmp of Some y \<Rightarrow> Some y | None \<Rightarrow> map_option (Pair cid) (map_of t tmp))"

definition index_names_ok :: "(collection_id \<times> (index_id, index_catalog_write) btree) list \<Rightarrow> bool" where
  "index_names_ok nis \<longleftrightarrow> (\<forall>(cid, t) \<in> set nis. bt_ok t \<and> (\<forall>(tmp, x) \<in> set t. utf8_valid (icw_name x)))"

definition new_index_count :: "(collection_id \<times> (index_id, index_catalog_write) btree) list \<Rightarrow> nat" where
  "new_index_count nis = sum_list (map (\<lambda>(_, t). length t) nis)"

lemma create_indexes_spec:
  assumes H: "heed_laws H it dit" and nc: "\<forall>tmp c. nc tmp = Some c \<longrightarrow> 0 < i64_val c"
  shows "create_indexes H nc nis m e = (Inr ni, e') \<Longrightarrow> index_catalog_ok it e \<Longrightarrow>
    index_names_ok nis \<Longrightarrow> index_id_room e (new_index_count nis + k) \<Longrightarrow>
    index_catalog_ok it e' \<and> index_id_room e' k \<and> index_rows it e \<subseteq>\<^sub>m index_rows it e' \<and>
    (\<forall>tmp. case last_declaration nis tmp of
       None \<Rightarrow> ni tmp = m tmp
     | Some (cid, x) \<Rightarrow> \<exists>i. ni tmp = Some i \<and> has_index (index_rows it e') (resolved nc cid) (icw_name x) i)"
proof (induction nis arbitrary: m e)
  case Nil
  then show ?case by (simp add: act_Inr new_index_count_def)
next
  case (Cons p nis)
  obtain cid t where p: "p = (cid, t)" by (cases p)
  obtain c m1 e1 where r: "(resolve_collection_id cid nc :: 'c storage_error + collection_id) = Inr c"
    and 1: "create_indexes_of H c t m e = (Inr m1, e1)"
    and 2: "create_indexes H nc nis m1 e1 = (Inr ni, e')"
    using Cons.prems(1) p by (auto simp: act_Inr)
  note c = resolve_collection_resolved[OF r nc]
  have t: "\<forall>(tmp, x) \<in> set t. utf8_valid (icw_name x)" "bt_ok t" "index_names_ok nis"
    "index_id_room e (length t + (new_index_count nis + k))"
    using Cons.prems p by (simp_all add: index_names_ok_def new_index_count_def add.assoc)
  have s: "index_catalog_ok it e1" "index_id_room e1 (new_index_count nis + k)"
    "index_rows it e \<subseteq>\<^sub>m index_rows it e1"
    "\<forall>tmp. case map_of t tmp of None \<Rightarrow> m1 tmp = m tmp
       | Some x \<Rightarrow> \<exists>i. m1 tmp = Some i \<and> has_index (index_rows it e1) c (icw_name x) i"
    using create_indexes_of_spec[OF H conjunct2[OF c] 1 Cons.prems(2) t(1,4,2)] by blast+
  have IH: "index_catalog_ok it e'" "index_id_room e' k" "index_rows it e1 \<subseteq>\<^sub>m index_rows it e'"
    "\<forall>tmp. case last_declaration nis tmp of None \<Rightarrow> ni tmp = m1 tmp
       | Some (cid, x) \<Rightarrow> \<exists>i. ni tmp = Some i \<and> has_index (index_rows it e') (resolved nc cid) (icw_name x) i"
    using Cons.IH[OF 2 s(1) t(3) s(2)] by blast+
  have "case last_declaration (p # nis) tmp of None \<Rightarrow> ni tmp = m tmp
      | Some (cid, x) \<Rightarrow> \<exists>i. ni tmp = Some i \<and> has_index (index_rows it e') (resolved nc cid) (icw_name x) i" for tmp
  proof (cases "last_declaration nis tmp")
    case (Some y)
    then show ?thesis using IH(4)[rule_format, of tmp] by (simp add: p)
  next
    case None
    then have ni: "ni tmp = m1 tmp" using IH(4)[rule_format, of tmp] by simp
    show ?thesis
    proof (cases "map_of t tmp")
      case none: None
      then show ?thesis using None ni s(4)[rule_format, of tmp] by (simp add: p)
    next
      case some: (Some x)
      then obtain i where "m1 tmp = Some i" "has_index (index_rows it e1) c (icw_name x) i"
        using s(4)[rule_format, of tmp] by auto
      then show ?thesis using None some ni has_index_mono[OF IH(3)] conjunct1[OF c]
        by (simp add: p)
    qed
  qed
  then show ?case using IH(1,2) map_le_trans[OF s(3) IH(3)] by simp
qed

section \<open>A batch\<close>

text \<open>Nothing else in a batch changes the catalog of the indexes.\<close>

definition index_catalog_part :: "('d, 'l) engine \<Rightarrow> 'd \<times> u64" where
  "index_catalog_part e = (indexes_catalog (e_dbs e), index_id_counter e)"

lemma index_catalog_part_writes [frame]:
  "preserves index_catalog_part allocate_collection_id" "preserves index_catalog_part allocate_chain_id"
  "preserves index_catalog_part (leaves_write g)"
  "preserves index_catalog_part (db_write index_edges index_edges_update f)"
  "preserves index_catalog_part (db_write documents documents_update f)"
  "preserves index_catalog_part (db_write collections_catalog collections_catalog_update f)"
  "preserves index_catalog_part (db_write collection_ids_by_name collection_ids_by_name_update f)"
  "preserves index_catalog_part (db_write vacuum_targets vacuum_targets_update f)"
  "preserves index_catalog_part (db_write metadata_db metadata_db_update f)"
  by (rule preserves_db_write preserves_leaves_write | simp add: preserves_def index_catalog_part_def
      allocate_collection_id_def allocate_chain_id_def Let_def)+

lemma index_catalog_part_trie [frame]:
  "preserves index_catalog_part (make_path H iid p ss)" "preserves index_catalog_part (prune_path H iid path)"
proof -
  show "preserves index_catalog_part (make_path H iid p ss)"
    by (induction ss arbitrary: p) (auto simp: find_or_create_index_edge_def Let_def intro!: frame)
  show "preserves index_catalog_part (prune_path H iid path)" by (induction path) (auto intro!: frame)
qed

lemma index_catalog_part_collections [frame]:
  "preserves index_catalog_part (create_collection H n m v)"
  "preserves index_catalog_part (create_collections H ts ncs nc)"
proof -
  show 1: "preserves index_catalog_part (create_collection H n m v)" for n m v
    by (auto simp: create_collection_def collection_id_by_name_def put_collection_catalog_entry_def
        put_collection_id_by_name_def intro!: frame)
  show "preserves index_catalog_part (create_collections H ts ncs nc)"
    by (induction ncs arbitrary: nc) (auto intro!: preserves_return preserves_bind 1)
qed

lemma index_catalog_part_put [frame]: "preserves index_catalog_part (put_collection H nc ni ts x)"
proof -
  have 1: "preserves index_catalog_part (put_index_write H iid y)" for iid y
    by (auto simp: put_index_write_def put_index_entry_def delete_index_entry_def Let_def
        intro!: frame split: prod.splits index_write.splits)
  show ?thesis
    by (auto simp: put_collection_def put_document_write_def put_index_writes_def
        update_collection_metadata_def collection_by_id_def put_collection_catalog_entry_def intro!: frame 1)
qed

lemma index_catalog_part_counters [frame]:
  "preserves index_catalog_part (save_counters H)" "preserves index_catalog_part (set_ts_in H ts)"
proof -
  show "preserves index_catalog_part (save_counters H)"
    unfolding save_counters_def
    by (intro frame; auto simp: preserves_def save_collection_counter_def save_index_counter_def
      save_chain_counter_def db_write_def act_update_def index_catalog_part_def split: sum.splits)+
  show "preserves index_catalog_part (set_ts_in H ts)"
    by (auto simp: preserves_def set_ts_in_def db_write_def act_update_def index_catalog_part_def
        split: sum.splits)
qed

lemma after_others:
  "create_collections H ts ncs m e = (r, e') \<Longrightarrow> index_catalog_part e' = index_catalog_part e"
  "act_for cs (put_collection H nc ni ts) e = (r', e') \<Longrightarrow> index_catalog_part e' = index_catalog_part e"
  "set_ts_in H ts e = (r', e') \<Longrightarrow> index_catalog_part e' = index_catalog_part e"
  "save_counters H e = (r', e') \<Longrightarrow> index_catalog_part e' = index_catalog_part e"
  by (rule preserves_eq[OF index_catalog_part_collections(2)], assumption)
     (rule preserves_eq[OF preserves_for[OF index_catalog_part_put]], assumption,
      rule preserves_eq[OF index_catalog_part_counters(2)], assumption,
      rule preserves_eq[OF index_catalog_part_counters(1)], assumption)

lemma index_catalog_part_cong:
  assumes "index_catalog_part e' = index_catalog_part e"
  shows "index_catalog_ok it e' = index_catalog_ok it e" "index_rows it e' = index_rows it e"
    "index_id_room e' k = index_id_room e k"
  using assms by (simp_all add: index_catalog_part_def index_catalog_ok_def index_rows_def index_id_room_def)

text \<open>What the index ids in a batch stand for: a stored id for itself, a temporary id for the
  index of its last declaration.\<close>

definition stands_for ::
  "('d \<Rightarrow> (bytes \<times> bytes) list) \<Rightarrow> ('d, 'l) engine \<Rightarrow> (collection_id \<Rightarrow> collection_id option) \<Rightarrow>
   write_set \<Rightarrow> (index_id \<Rightarrow> index_id option) \<Rightarrow> bool" where
  "stands_for it e' nc w ni \<longleftrightarrow> (\<forall>tmp. case last_declaration (ws_new_indexes w) tmp of
     None \<Rightarrow> ni tmp = None
   | Some (cid, x) \<Rightarrow> \<exists>i. ni tmp = Some i \<and> has_index (index_rows it e') (resolved nc cid) (icw_name x) i)"

lemma put_indexes:
  assumes H: "heed_laws H it dit" and run: "engine_put H w e = (Inr (), e')"
    and ok: "engine_ok it dit e" "batch_ok w" "batch_room e w" "index_catalog_ok it e"
      "index_names_ok (ws_new_indexes w)" "index_id_room e (new_index_count (ws_new_indexes w))"
  obtains nc ni where "index_catalog_ok it e'" "index_rows it e \<subseteq>\<^sub>m index_rows it e'"
    "index_mem it dit e' = batch_positions ni (ws_collections w) (index_mem it dit e)"
    "stands_for it e' nc w ni"
    "\<forall>tmp n. map_of (ws_new_collections w) tmp = Some n \<longrightarrow>
       (\<exists>c. nc tmp = Some c \<and> names_of it e' n = Some (i64_to_be c))"
proof (rule put_steps[OF run])
  fix nc e1 ni e2 e3 e4
  assume steps: "put_steps H w e nc e1 ni e2 e3 e4 e'"
  note s = put_steps_collections[OF H steps ok(1-3)] and p = put_steps_spec[OF H steps ok(1-3)]
  have 1: "create_collections H (ws_ts w) (ws_new_collections w) (\<lambda>_. None) e = (Inr nc, e1)" and
    2: "create_indexes H nc (ws_new_indexes w) (\<lambda>_. None) e1 = (Inr ni, e2)" and
    3: "act_for (ws_collections w) (put_collection H nc ni (ws_ts w)) e2 = (Inr (), e3)" and
    4: "set_ts_in H (ws_ts w) e3 = (Inr (), e4)" and 5: "save_counters H e4 = (Inr (), e')"
    using steps by (simp_all add: put_steps_def)
  note same = index_catalog_part_cong[OF after_others(1)[OF 1]]
  have "index_catalog_part e' = index_catalog_part e2"
    using after_others(2)[OF 3] after_others(3)[OF 4] after_others(4)[OF 5] by simp
  note last = index_catalog_part_cong[OF this]
  have "index_catalog_ok it e1" "index_id_room e1 (new_index_count (ws_new_indexes w) + 0)"
    using ok(4,6) same by simp_all
  from create_indexes_spec[OF H s(3) 2 this(1) ok(5) this(2)]
  have b: "index_catalog_ok it e2" "index_rows it e1 \<subseteq>\<^sub>m index_rows it e2"
    "\<forall>tmp. case last_declaration (ws_new_indexes w) tmp of None \<Rightarrow> ni tmp = None
     | Some (cid, x) \<Rightarrow> \<exists>i. ni tmp = Some i \<and> has_index (index_rows it e2) (resolved nc cid) (icw_name x) i"
    by blast+
  have "stands_for it e' nc w ni" unfolding stands_for_def last(2) by (rule b(3))
  then show thesis
    by (intro that[of ni nc]) (use b(1,2) s(4) p(3,4) same last in simp_all)
qed

end
