(* ===== verification/Transaction_Catalog.thy ===== *)
theory Transaction_Catalog
  imports Transaction Engine_Index_Catalog
begin

text \<open>
  The catalogs as a transaction reads them (\<open>implementations/heed/transaction.rs\<close>, with
  \<open>HeedCollectionCatalogCursor\<close> and \<open>HeedIndexCatalogCursor\<close> of \<open>cursors.rs\<close>): the lookup of a
  collection by name and the scans of the two catalogs, with the pending collections, metadata and
  indexes overlaid. The scan of the collections is shown to agree with the lookup.
\<close>

section \<open>Collections\<close>

definition collection_entry :: "collection_id \<Rightarrow> rstring \<times> bytes \<Rightarrow> collection_catalog_entry" where
  "collection_entry cid = (\<lambda>(name, metadata).
     \<lparr>cce_id = cid, cce_name = name, cce_metadata = metadata\<rparr>)"

definition stored_collection_entry ::
  "('d, 'l, 'e) heed \<Rightarrow> 'd \<Rightarrow> TS \<Rightarrow> collection_id \<Rightarrow> 'e storage_error + collection_catalog_entry option" where
  "stored_collection_entry H d ts cid =
     and_then (catalog_row H d cid ts) (\<lambda>r. Inr (map_option (collection_entry cid) r))"

definition tx_collection ::
  "('d, 'l, 'e) heed \<Rightarrow> ('d, 'l) transaction \<Rightarrow> rstring \<Rightarrow> 'e storage_error + collection_id option" where
  "tx_collection H tx name =
     (case find (\<lambda>(_, collection_name). collection_name = name) (ws_new_collections (tx_writes tx)) of
        Some (cid, _) \<Rightarrow> Inr (Some cid)
      | None \<Rightarrow>
          and_then (heed_call (h_get H (collection_ids_by_name (tx_dbs tx)) name)) (\<lambda>r.
            case r of
              None \<Rightarrow> Inr None
            | Some v \<Rightarrow>
                and_then (decode_i64 v) (\<lambda>cid.
                and_then (catalog_row H (collections_catalog (tx_dbs tx)) cid (tx_ts tx)) (\<lambda>r.
                Inr (map_option (\<lambda>_. cid) r)))))"

text \<open>The pending metadata of a collection.\<close>

definition pending_metadata :: "write_set \<Rightarrow> collection_id \<Rightarrow> bytes option" where
  "pending_metadata w cid = Option.bind (map_of (ws_collections w) cid) cw_metadata"

definition new_collection_entries :: "write_set \<Rightarrow> collection_catalog_entry list" where
  "new_collection_entries w = map (\<lambda>(cid, name).
     collection_entry cid (name, case pending_metadata w cid of Some m \<Rightarrow> m | None \<Rightarrow> []))
     (ws_new_collections w)"

definition updated_collection_entry ::
  "('d, 'l, 'e) heed \<Rightarrow> ('d, 'l) transaction \<Rightarrow> collection_id \<times> collection_write_set \<Rightarrow>
   'e storage_error + collection_catalog_entry option" where
  "updated_collection_entry H tx = (\<lambda>(cid, collection_writes).
     case cw_metadata collection_writes of
       None \<Rightarrow> Inr None
     | Some metadata \<Rightarrow>
         if map_of (ws_new_collections (tx_writes tx)) cid \<noteq> None then Inr None
         else and_then (stored_collection_entry H (collections_catalog (tx_dbs tx)) (tx_ts tx) cid) (\<lambda>r.
                Inr (map_option (\<lambda>entry. entry\<lparr>cce_metadata := metadata\<rparr>) r)))"

text \<open>\<open>sort_by\<close> is stable, and so is \<open>sort_key\<close>.\<close>

definition overlay_collection_entries ::
  "('d, 'l, 'e) heed \<Rightarrow> ('d, 'l) transaction \<Rightarrow> rstring cursor_start \<Rightarrow> direction \<Rightarrow>
   'e storage_error + collection_catalog_entry list \<times> collection_id set \<times> rstring set" where
  "overlay_collection_entries H tx start dir =
     and_then (collect_results (updated_collection_entry H tx) (ws_collections (tx_writes tx))) (\<lambda>updated.
       let entries = new_collection_entries (tx_writes tx) @ List.map_filter id updated;
           retained = sort_key cce_name (filter (\<lambda>entry. accepts_start (cce_name entry) start dir) entries)
       in Inr (if dir = Reverse then rev retained else retained,
               set (map cce_id entries), set (map cce_name entries)))"

fun string_start_bound :: "rstring cursor_start \<Rightarrow> bytes bound" where
  "string_start_bound Unbounded = Bound_unbounded"
| "string_start_bound (Included name) = Bound_included name"
| "string_start_bound (Excluded name) = Bound_excluded name"

definition collection_catalog_cursor_bounds ::
  "rstring cursor_start \<Rightarrow> direction \<Rightarrow> bytes bound \<times> bytes bound" where
  "collection_catalog_cursor_bounds start dir =
     (case dir of
        Forward \<Rightarrow> (string_start_bound start, Bound_unbounded)
      | Reverse \<Rightarrow> (Bound_unbounded, string_start_bound start))"

text \<open>\<open>HeedCollectionCatalogCursor::next\<close>, on the items left in the LMDB iterator.\<close>

definition collection_row_entry ::
  "('d, 'l, 'e) heed \<Rightarrow> 'd \<Rightarrow> TS \<Rightarrow> bytes \<times> bytes \<Rightarrow> 'e storage_error + collection_catalog_entry option" where
  "collection_row_entry H d ts = (\<lambda>(key, v).
     and_then (decode_utf8 key) (\<lambda>index_name.
     and_then (decode_i64 v) (\<lambda>cid.
     and_then (catalog_row H d cid ts) (\<lambda>r.
     case r of
       None \<Rightarrow> Inr None
     | Some (catalog_name, metadata) \<Rightarrow>
         if catalog_name \<noteq> index_name then Inl (Implementation (Name_index_mismatch cid catalog_name))
         else Inr (Some (collection_entry cid (catalog_name, metadata)))))))"

definition collection_catalog_next ::
  "('d, 'l, 'e) heed \<Rightarrow> 'd \<Rightarrow> TS \<Rightarrow> ('e raw, 'e, collection_catalog_entry) cursor" where
  "collection_catalog_next H d ts = seek (total next_raw) (collection_row_entry H d ts)"

definition collection_next_base ::
  "('d, 'l, 'e) heed \<Rightarrow> 'd \<Rightarrow> TS \<Rightarrow> collection_id set \<Rightarrow> rstring set \<Rightarrow>
   ('e raw, 'e, collection_catalog_entry) cursor" where
  "collection_next_base H d ts touched_ids touched_names =
     seek (collection_catalog_next H d ts) (\<lambda>entry.
       Inr (if cce_id entry \<notin> touched_ids \<and> cce_name entry \<notin> touched_names then Some entry else None))"

definition merged_collection_next ::
  "('d, 'l, 'e) heed \<Rightarrow> ('d, 'l) transaction \<Rightarrow> collection_id set \<Rightarrow> rstring set \<Rightarrow> direction \<Rightarrow>
   (('e raw, collection_catalog_entry) merged, 'e, collection_catalog_entry) cursor" where
  "merged_collection_next H tx touched_ids touched_names dir =
     merged_next cce_name dir
       (collection_next_base H (collections_catalog (tx_dbs tx)) (tx_ts tx) touched_ids touched_names)"

definition get_collections_catalog_cursor ::
  "('d, 'l, 'e) heed \<Rightarrow> ('d, 'l) transaction \<Rightarrow> rstring cursor_start \<Rightarrow> direction \<Rightarrow>
   'e storage_error + collection_id set \<times> rstring set \<times> ('e raw, collection_catalog_entry) merged" where
  "get_collections_catalog_cursor H tx start dir =
     and_then (overlay_collection_entries H tx start dir) (\<lambda>(overlay, touched_ids, touched_names).
     and_then (raw_cursor H (collection_ids_by_name (tx_dbs tx))
       (collection_catalog_cursor_bounds start dir) dir) (\<lambda>raw.
     Inr (touched_ids, touched_names, merged_new raw overlay)))"

section \<open>Indexes of a collection\<close>

definition overlay_index_catalog_entries ::
  "write_set \<Rightarrow> collection_id \<Rightarrow> rstring cursor_start \<Rightarrow> direction \<Rightarrow>
   index_catalog_entry list \<times> rstring set" where
  "overlay_index_catalog_entries writes cid start dir =
     (case map_of (ws_new_indexes writes) cid of
        None \<Rightarrow> ([], {})
      | Some indexes \<Rightarrow>
          (let entries = map (\<lambda>(iid, index). \<lparr>ice_collection_id = cid, ice_id = iid,
                 ice_name = icw_name index, ice_metadata = icw_metadata index\<rparr>) indexes;
               retained = sort_key ice_name (filter (\<lambda>entry. accepts_start (ice_name entry) start dir) entries)
           in (if dir = Reverse then rev retained else retained, set (map ice_name entries))))"

definition index_catalog_cursor_bounds ::
  "collection_id \<Rightarrow> rstring cursor_start \<Rightarrow> direction \<Rightarrow> bytes bound \<times> bytes bound" where
  "index_catalog_cursor_bounds cid start dir =
     (let collection_start = Bound_included (encode_collection_prefix cid);
          collection_end = collection_end_bound cid
      in case dir of
           Forward \<Rightarrow>
             (case start of
                Unbounded \<Rightarrow> collection_start
              | Included name \<Rightarrow> Bound_included (encode_index_catalog_key cid name)
              | Excluded name \<Rightarrow> Bound_excluded (encode_index_catalog_key cid name), collection_end)
         | Reverse \<Rightarrow>
             (collection_start,
              case start of
                Unbounded \<Rightarrow> collection_end
              | Included name \<Rightarrow> Bound_included (encode_index_catalog_key cid name)
              | Excluded name \<Rightarrow> Bound_excluded (encode_index_catalog_key cid name)))"

text \<open>\<open>HeedIndexCatalogCursor::next\<close>.\<close>

definition index_catalog_next ::
  "collection_id \<Rightarrow> ('e raw, 'e storage_error, index_catalog_entry option) act" where
  "index_catalog_next cid raw =
     (case next_raw raw of
        (Inl e, raw') \<Rightarrow> (Inl e, raw')
      | (Inr None, raw') \<Rightarrow> (Inr None, raw')
      | (Inr (Some (key, v)), raw') \<Rightarrow>
          (and_then (decode_index_catalog_key key) (\<lambda>(c, name).
             if c \<noteq> cid then Inr None
             else and_then (decode_index_catalog_value v) (\<lambda>(iid, metadata).
                    Inr (Some \<lparr>ice_collection_id = c, ice_id = iid, ice_name = name,
                      ice_metadata = metadata\<rparr>))), raw'))"

definition index_catalog_next_base ::
  "collection_id \<Rightarrow> rstring set \<Rightarrow> ('e raw, 'e, index_catalog_entry) cursor" where
  "index_catalog_next_base cid touched_names =
     seek (total (index_catalog_next cid)) (\<lambda>entry.
       Inr (if ice_name entry \<notin> touched_names then Some entry else None))"

definition merged_index_catalog_next ::
  "collection_id \<Rightarrow> rstring set \<Rightarrow> direction \<Rightarrow>
   (('e raw, index_catalog_entry) merged, 'e, index_catalog_entry) cursor" where
  "merged_index_catalog_next cid touched_names dir =
     merged_next ice_name dir (index_catalog_next_base cid touched_names)"

definition get_indexes_catalog_cursor ::
  "('d, 'l, 'e) heed \<Rightarrow> ('d, 'l) transaction \<Rightarrow> collection_id \<Rightarrow> rstring cursor_start \<Rightarrow> direction \<Rightarrow>
   'e storage_error + rstring set \<times> ('e raw, index_catalog_entry) merged" where
  "get_indexes_catalog_cursor H tx cid start dir =
     (case overlay_index_catalog_entries (tx_writes tx) cid start dir of
        (overlay, touched_names) \<Rightarrow>
          and_then (raw_cursor H (indexes_catalog (tx_dbs tx))
            (index_catalog_cursor_bounds cid start dir) dir) (\<lambda>raw.
          Inr (touched_names, merged_new raw overlay)))"

section \<open>Opening a transaction\<close>

text \<open>\<open>Datastore::transaction\<close>: an LMDB read transaction is a snapshot of the databases.\<close>

definition engine_transaction ::
  "('d, 'l, 'e) heed \<Rightarrow> TS \<Rightarrow> ('d, 'l, 'e, ('d, 'l) transaction) engine_act" where
  "engine_transaction H ts =
     act_read (\<lambda>e. and_then (heed_call (h_read_txn H (e_dbs e))) (\<lambda>_.
       Inr (transaction_new (e_dbs e) ts)))"

section \<open>Sorted overlays\<close>

lemma in_order_sort_key:
  assumes "distinct (map key xs)"
  shows "in_order key dir (if dir = Reverse then rev (sort_key key xs) else sort_key key xs)"
proof -
  have "sorted (map key (sort_key key xs))" by simp
  moreover have "distinct (map key (sort_key key xs))"
    using assms by (simp add: distinct_map)
  ultimately have "sorted_wrt (<) (map key (sort_key key xs))" by (simp add: strict_sorted_iff)
  then have "in_order key Forward (sort_key key xs)" by (simp add: in_order_def sorted_wrt_map)
  then show ?thesis by (cases dir) (simp_all add: in_order_rev)
qed

lemma rev_map_filter: "List.map_filter f (rev xs) = rev (List.map_filter f xs)"
  by (simp add: map_filter_def rev_map flip: rev_filter)

text \<open>A scan of a database between two bounds, whose rows turn into entries under their keys.\<close>

lemma raw_cursor_range:
  assumes H: "heed_laws H it dit" and b: "legal_bound (fst b)" "legal_bound (snd b)"
  shows "raw_cursor H d b dir = Inr (map Inr ((if dir = Reverse then rev else id)
    (filter (\<lambda>(k, _). in_range (fst b) (snd b) k) (it d))))"
  using heed_range[OF H b, of d] heed_rev_range[OF H b, of d]
  by (cases dir) (simp_all add: raw_cursor_def rev_map)

lemma in_order_rows:
  assumes "bt_ok t" "\<And>p y. p \<in> set t \<Longrightarrow> f p = Some y \<Longrightarrow> key y = fst p"
  shows "in_order key dir (List.map_filter f ((if dir = Reverse then rev else id) t))"
  using in_order_map_filter[OF assms] by (cases dir) (simp_all add: rev_map_filter in_order_rev)

section \<open>The collections a transaction sees\<close>

definition tx_catalog ::
  "('d \<Rightarrow> (bytes \<times> bytes) list) \<Rightarrow> ('d, 'l) transaction \<Rightarrow> collection_id \<Rightarrow> (rstring \<times> bytes) option" where
  "tx_catalog it tx c =
     (let pending = pending_metadata (tx_writes tx) c
      in case map_of (ws_new_collections (tx_writes tx)) c of
           Some n \<Rightarrow> Some (n, case pending of Some m \<Rightarrow> m | None \<Rightarrow> [])
         | None \<Rightarrow> map_option (\<lambda>(n, m). (n, case pending of Some m' \<Rightarrow> m' | None \<Rightarrow> m))
             (catalog_visible (it (collections_catalog (tx_dbs tx))) (tx_ts tx) c))"

text \<open>
  New collections have temporary (negative) ids and names of their own: no two share a name, and
  none has that of a stored collection whose metadata the transaction changes.
\<close>

definition new_names_ok ::
  "('d \<Rightarrow> (bytes \<times> bytes) list) \<Rightarrow> ('d, 'l) transaction \<Rightarrow> bool" where
  "new_names_ok it tx \<longleftrightarrow>
     distinct (map snd (ws_new_collections (tx_writes tx))) \<and>
     (\<forall>(c, n) \<in> set (ws_new_collections (tx_writes tx)). i64_val c < 0) \<and>
     (\<forall>c n m. catalog_visible (it (collections_catalog (tx_dbs tx))) (tx_ts tx) c = Some (n, m) \<longrightarrow>
        n \<in> snd ` set (ws_new_collections (tx_writes tx)) \<longrightarrow> pending_metadata (tx_writes tx) c = None)"

lemma new_names_unchanged:
  assumes "new_names_ok it tx"
    "catalog_visible (it (collections_catalog (tx_dbs tx))) (tx_ts tx) c = Some (n, m)"
    "n \<in> snd ` set (ws_new_collections (tx_writes tx))"
  shows "pending_metadata (tx_writes tx) c = None"
  using conjunct2[OF conjunct2[OF assms(1)[unfolded new_names_ok_def]]] assms(2,3) by (elim allE impE)

definition tx_catalog_ok ::
  "('d \<Rightarrow> (bytes \<times> bytes) list) \<Rightarrow> ('d, 'l) transaction \<Rightarrow> u64 \<Rightarrow> bool" where
  "tx_catalog_ok it tx counter \<longleftrightarrow>
     catalog_rows_ok (map_of (it (collection_ids_by_name (tx_dbs tx))))
       (map_of (it (collections_catalog (tx_dbs tx)))) counter"

lemma visible_collection_name:
  assumes "tx_catalog_ok it tx counter"
    "catalog_visible (it (collections_catalog (tx_dbs tx))) ts c = Some (n, m)"
  shows "map_of (it (collection_ids_by_name (tx_dbs tx))) n = Some (i64_to_be c)" "name_ok n" "0 < i64_val c"
proof -
  note ok = assms(1)[unfolded tx_catalog_ok_def]
  show n: "map_of (it (collection_ids_by_name (tx_dbs tx))) n = Some (i64_to_be c)" and "name_ok n"
    using catalog_visible_name[OF ok assms(2)] by blast+
  obtain c' where "i64_to_be c = i64_to_be c'" "stored_id counter c'"
    using ok n unfolding catalog_rows_ok_def by blast
  then show "0 < i64_val c" by (simp add: stored_id_def)
qed

lemma collection_name_unique:
  assumes "tx_catalog_ok it tx counter"
    "map_of (it (collection_ids_by_name (tx_dbs tx))) n = Some v"
    "map_of (it (collection_ids_by_name (tx_dbs tx))) n' = Some v"
  shows "n = n'"
  using assms unfolding tx_catalog_ok_def catalog_rows_ok_def by blast

text \<open>The lookup by name.\<close>

lemma find_new_collection:
  assumes "distinct (map snd xs)"
  shows "find (\<lambda>(_, x). x = n) xs = Some (c, n') \<longleftrightarrow> n' = n \<and> (c, n) \<in> set xs"
  using assms
proof (induction xs)
  case (Cons p xs)
  then show ?case by (cases p) force
qed simp

lemma tx_collection_eq:
  fixes H :: "('d, 'l, 'e) heed" and tx :: "('d, 'l) transaction"
  assumes H: "heed_laws H it dit" and ok: "tx_catalog_ok it tx counter" and new: "new_names_ok it tx"
    and n: "n \<noteq> []"
  shows "tx_collection H tx n = Inr (Some c) \<longleftrightarrow>
    (c, n) \<in> set (ws_new_collections (tx_writes tx)) \<or>
    n \<notin> snd ` set (ws_new_collections (tx_writes tx)) \<and>
      (\<exists>m. catalog_visible (it (collections_catalog (tx_dbs tx))) (tx_ts tx) c = Some (n, m))"
proof (cases "find (\<lambda>(_, x). x = n) (ws_new_collections (tx_writes tx))")
  case (Some p)
  obtain c' n' where p: "p = (c', n')" by (cases p)
  have d: "distinct (map snd (ws_new_collections (tx_writes tx)))" using new by (simp add: new_names_ok_def)
  have f: "find (\<lambda>(_, x). x = n) (ws_new_collections (tx_writes tx)) = Some (c', n')" using Some p by simp
  then have *: "n' = n" "(c', n) \<in> set (ws_new_collections (tx_writes tx))"
    unfolding find_new_collection[OF d] by simp_all
  have "c = c'" if "(c, n) \<in> set (ws_new_collections (tx_writes tx))"
  proof -
    have "find (\<lambda>(_, x). x = n) (ws_new_collections (tx_writes tx)) = Some (c, n)"
      unfolding find_new_collection[OF d] using that by simp
    then show ?thesis using f by simp
  qed
  moreover have "n \<in> snd ` set (ws_new_collections (tx_writes tx))" using *(2) by force
  ultimately show ?thesis using Some p * by (auto simp: tx_collection_def)
next
  case None
  then have no: "n \<notin> snd ` set (ws_new_collections (tx_writes tx))" by (auto simp: find_None_iff)
  then have no': "(c, n) \<notin> set (ws_new_collections (tx_writes tx))" by force
  let ?names = "map_of (it (collection_ids_by_name (tx_dbs tx)))"
  let ?vis = "catalog_visible (it (collections_catalog (tx_dbs tx))) (tx_ts tx)"
  note get = heed_get[OF H n, of "collection_ids_by_name (tx_dbs tx)"]
  note row = catalog_row_visible[OF H, of ?names "collections_catalog (tx_dbs tx)" counter,
      OF ok[unfolded tx_catalog_ok_def]]
  show ?thesis
  proof (cases "?names n")
    case none: None
    have "?vis c \<noteq> Some (n, m)" for m
      using visible_collection_name(1)[OF ok, of "tx_ts tx" c n m] none by auto
    then show ?thesis using None get none no' by (simp add: tx_collection_def)
  next
    case some: (Some v)
    then obtain c' where c': "v = i64_to_be c'"
      using ok unfolding tx_catalog_ok_def catalog_rows_ok_def by blast
    have "tx_collection H tx n = Inr (map_option (\<lambda>_. c') (?vis c'))"
      using None get some row[of c'] by (simp add: tx_collection_def c')
    moreover have "?vis c = Some (n, m) \<Longrightarrow> c = c'" for m
      using visible_collection_name(1)[OF ok, of "tx_ts tx" c n m] some c' by simp
    moreover have "fst x = n" if "?vis c' = Some x" for x
    proof -
      have "?names (fst x) = Some (i64_to_be c')"
        using visible_collection_name(1)[OF ok, of "tx_ts tx" c' "fst x" "snd x"] that by simp
      then show ?thesis using collection_name_unique[OF ok] some c' by metis
    qed
    ultimately show ?thesis using no no' by (cases "?vis c'") auto
  qed
qed

section \<open>The scan of the collections\<close>

lemma collection_bounds:
  "in_range (fst (collection_catalog_cursor_bounds start dir)) (snd (collection_catalog_cursor_bounds start dir)) k
     \<longleftrightarrow> accepts_start k start dir"
  by (cases dir; cases start) (simp_all add: collection_catalog_cursor_bounds_def in_range_def)

lemma stored_collections_scan:
  fixes H :: "('d, 'l, 'e) heed" and tx :: "('d, 'l) transaction"
  assumes H: "heed_laws H it dit" and ok: "tx_catalog_ok it tx counter"
    and start: "legal_bound (string_start_bound start)"
  obtains raw xs where
    "raw_cursor H (collection_ids_by_name (tx_dbs tx)) (collection_catalog_cursor_bounds start dir) dir = Inr raw"
    "yields (collection_catalog_next H (collections_catalog (tx_dbs tx)) (tx_ts tx)) raw xs"
    "in_order cce_name dir xs"
    "set xs = {e. catalog_visible (it (collections_catalog (tx_dbs tx))) (tx_ts tx) (cce_id e) =
         Some (cce_name e, cce_metadata e) \<and> accepts_start (cce_name e) start dir}"
proof -
  let ?b = "collection_catalog_cursor_bounds start dir" and ?names = "it (collection_ids_by_name (tx_dbs tx))"
  let ?vis = "catalog_visible (it (collections_catalog (tx_dbs tx))) (tx_ts tx)"
  let ?t = "filter (\<lambda>(k, _). in_range (fst ?b) (snd ?b) k) ?names"
  define g where "g = (\<lambda>(k :: bytes, v). map_option (collection_entry (i64_from_be v)) (?vis (i64_from_be v)))"
  note bt = heed_it_ok[OF H, of "collection_ids_by_name (tx_dbs tx)"]
  have row: "\<exists>c. v = i64_to_be c \<and> utf8_valid k \<and> (\<forall>n m. ?vis c = Some (n, m) \<longrightarrow> n = k)"
    if "(k, v) \<in> set ?names" for k v
  proof -
    have kv: "map_of ?names k = Some v" using bt_ok_map_of[OF bt] that by simp
    then obtain c where c: "v = i64_to_be c" and "name_ok k"
      using ok unfolding tx_catalog_ok_def catalog_rows_ok_def by blast
    then have u: "utf8_valid k" by (simp add: name_ok_def)
    have "n = k" if "?vis c = Some (n, m)" for n m
      using collection_name_unique[OF ok visible_collection_name(1)[OF ok that]] kv c by simp
    then show ?thesis using c u by blast
  qed
  have key: "cce_name y = fst p" if "p \<in> set ?t" "g p = Some y" for p y
  proof -
    obtain k v where p: "p = (k, v)" by (cases p)
    with that(1) row[of k v] obtain c where "v = i64_to_be c" "\<forall>n m. ?vis c = Some (n, m) \<longrightarrow> n = k" by auto
    then show ?thesis using that(2) p by (auto simp: g_def collection_entry_def)
  qed
  let ?raw = "map Inr ((if dir = Reverse then rev else id) ?t)"
  let ?xs = "List.map_filter g ((if dir = Reverse then rev else id) ?t)"
  have "legal_bound (fst ?b)" "legal_bound (snd ?b)"
    using start by (cases dir; simp add: collection_catalog_cursor_bounds_def)+
  then have 1: "raw_cursor H (collection_ids_by_name (tx_dbs tx)) ?b dir = Inr ?raw"
    by (rule raw_cursor_range[OF H])
  have step: "collection_row_entry H (collections_catalog (tx_dbs tx)) (tx_ts tx) p = Inr (g p)"
    if "p \<in> set ((if dir = Reverse then rev else id) ?t)" for p
  proof -
    obtain k v where p: "p = (k, v)" by (cases p)
    have "(k, v) \<in> set ?names" using that p by (auto split: if_splits)
    from row[OF this] obtain c where c: "v = i64_to_be c" "utf8_valid k" "\<forall>n m. ?vis c = Some (n, m) \<longrightarrow> n = k"
      by blast
    have dk: "(decode_utf8 k :: 'e storage_error + rstring) = Inr k" using c(2) by (simp add: decode_utf8_iff)
    have dv: "(decode_i64 v :: 'e storage_error + i64) = Inr c" using c(1) by simp
    show ?thesis
      using c catalog_row_visible[OF H ok[unfolded tx_catalog_ok_def], of c "tx_ts tx"]
      by (cases "?vis c") (auto simp: collection_row_entry_def p dk dv g_def)
  qed
  have 2: "yields (collection_catalog_next H (collections_catalog (tx_dbs tx)) (tx_ts tx)) ?raw ?xs"
    unfolding collection_catalog_next_def by (rule yields_seek[OF yields_raw step])
  have 3: "in_order cce_name dir ?xs" by (rule in_order_rows[OF bt_ok_filter[OF bt] key])
  have "e \<in> set ?xs \<longleftrightarrow> ?vis (cce_id e) = Some (cce_name e, cce_metadata e) \<and> accepts_start (cce_name e) start dir"
    for e
  proof
    assume "e \<in> set ?xs"
    then obtain k v where kv: "(k, v) \<in> set ?t" "g (k, v) = Some e" by (auto simp: in_set_map_filter split: if_splits)
    then have "accepts_start k start dir" by (simp add: collection_bounds)
    then show "?vis (cce_id e) = Some (cce_name e, cce_metadata e) \<and> accepts_start (cce_name e) start dir"
      using kv key[OF kv] by (auto simp: g_def collection_entry_def)
  next
    assume *: "?vis (cce_id e) = Some (cce_name e, cce_metadata e) \<and> accepts_start (cce_name e) start dir"
    then have "map_of ?names (cce_name e) = Some (i64_to_be (cce_id e))"
      using visible_collection_name(1)[OF ok] by blast
    then have "(cce_name e, i64_to_be (cce_id e)) \<in> set ?t"
      using * by (simp add: collection_bounds bt_ok_map_of[OF bt])
    moreover have "g (cce_name e, i64_to_be (cce_id e)) = Some e"
      using * by (cases e) (simp add: g_def collection_entry_def)
    ultimately show "e \<in> set ?xs" by (auto simp: in_set_map_filter)
  qed
  with 1 2 3 show thesis using that by blast
qed

text \<open>The overlay: the new collections and the stored ones with pending metadata.\<close>

lemma updated_entries:
  fixes H :: "('d, 'l, 'e) heed" and tx :: "('d, 'l) transaction"
  assumes H: "heed_laws H it dit" and ok: "tx_catalog_ok it tx counter" and ws: "ws_ok (tx_writes tx)"
  obtains updated where
    "collect_results (updated_collection_entry H tx) (ws_collections (tx_writes tx)) = Inr updated"
    "distinct (map cce_id (List.map_filter id updated))"
    "\<forall>e. e \<in> set (List.map_filter id updated) \<longleftrightarrow> pending_metadata (tx_writes tx) (cce_id e) \<noteq> None \<and>
       map_of (ws_new_collections (tx_writes tx)) (cce_id e) = None \<and>
       tx_catalog it tx (cce_id e) = Some (cce_name e, cce_metadata e)"
proof -
  let ?vis = "catalog_visible (it (collections_catalog (tx_dbs tx))) (tx_ts tx)"
  let ?cs = "ws_collections (tx_writes tx)" and ?new = "map_of (ws_new_collections (tx_writes tx))"
  define g :: "collection_id \<times> collection_write_set \<Rightarrow> collection_catalog_entry option" where
    "g = (\<lambda>(c, data). case cw_metadata data of None \<Rightarrow> None
      | Some metadata \<Rightarrow> if ?new c \<noteq> None then None
          else map_option (\<lambda>(n, m). collection_entry c (n, metadata)) (?vis c))"
  have bt: "bt_ok ?cs" using ws by (simp add: ws_ok_def)
  have step: "updated_collection_entry H tx p = Inr (g p)" for p
    using catalog_row_visible[OF H ok[unfolded tx_catalog_ok_def], of "fst p" "tx_ts tx"]
    by (cases p; cases "?vis (fst p)")
       (auto simp: updated_collection_entry_def stored_collection_entry_def collection_entry_def g_def
         split: option.splits)
  have 1: "collect_results (updated_collection_entry H tx) ?cs = Inr (map g ?cs)"
    by (rule collect_results_map) (rule step)
  have gk: "cce_id y = fst p" if "g p = Some y" for p y
    using that by (cases p) (auto simp: g_def collection_entry_def split: option.splits if_splits)
  have "in_order cce_id Forward (List.map_filter g ?cs)" by (rule in_order_map_filter[OF bt]) (rule gk)
  then have 2: "distinct (map cce_id (List.map_filter g ?cs))"
    by (simp add: in_order_def strict_sorted_iff flip: sorted_wrt_map)
  have 3: "e \<in> set (List.map_filter g ?cs) \<longleftrightarrow> pending_metadata (tx_writes tx) (cce_id e) \<noteq> None \<and>
       ?new (cce_id e) = None \<and> tx_catalog it tx (cce_id e) = Some (cce_name e, cce_metadata e)" for e
  proof -
    have "e \<in> set (List.map_filter g ?cs) \<longleftrightarrow> (\<exists>data. map_of ?cs (cce_id e) = Some data \<and> g (cce_id e, data) = Some e)"
      using gk bt_ok_map_of[OF bt] by (auto simp: in_set_map_filter)
    also have "\<dots> \<longleftrightarrow> pending_metadata (tx_writes tx) (cce_id e) \<noteq> None \<and>
       ?new (cce_id e) = None \<and> tx_catalog it tx (cce_id e) = Some (cce_name e, cce_metadata e)"
      by (cases "map_of ?cs (cce_id e)"; cases e)
         (auto simp: g_def pending_metadata_def tx_catalog_def collection_entry_def split: option.splits)
    finally show ?thesis .
  qed
  show thesis by (rule that[OF 1]) (use 2 3 in \<open>simp_all add: map_filter_id_map\<close>)
qed

lemma new_entries:
  assumes "bt_ok (ws_new_collections (tx_writes tx))"
  shows "e \<in> set (new_collection_entries (tx_writes tx)) \<longleftrightarrow>
    map_of (ws_new_collections (tx_writes tx)) (cce_id e) \<noteq> None \<and>
    tx_catalog it tx (cce_id e) = Some (cce_name e, cce_metadata e)"
proof -
  let ?new = "ws_new_collections (tx_writes tx)"
  have "e \<in> set (new_collection_entries (tx_writes tx)) \<longleftrightarrow> (cce_id e, cce_name e) \<in> set ?new \<and>
      cce_metadata e = (case pending_metadata (tx_writes tx) (cce_id e) of Some m \<Rightarrow> m | None \<Rightarrow> [])"
    by (cases e) (force simp: new_collection_entries_def collection_entry_def image_iff)
  also have "(cce_id e, cce_name e) \<in> set ?new \<longleftrightarrow> map_of ?new (cce_id e) = Some (cce_name e)"
    by (simp add: bt_ok_map_of[OF assms])
  finally show ?thesis
    by (auto simp: tx_catalog_def Let_def split: option.splits)
qed

lemma new_name_in: "map_of xs c = Some n \<Longrightarrow> n \<in> snd ` set xs"
  by (force dest: map_of_SomeD)

lemma new_entry_names: "map cce_name (new_collection_entries w) = map snd (ws_new_collections w)"
  by (simp add: new_collection_entries_def collection_entry_def split_beta)

lemma ex_collection_entry: "(\<exists>e. P e) \<longleftrightarrow> (\<exists>c n m. P \<lparr>cce_id = c, cce_name = n, cce_metadata = m\<rparr>)"
  by (metis collection_catalog_entry.cases)

lemma in_entry_fields:
  "c \<in> set (map cce_id es) \<longleftrightarrow> (\<exists>n m. \<lparr>cce_id = c, cce_name = n, cce_metadata = m\<rparr> \<in> set es)"
  "n \<in> set (map cce_name es) \<longleftrightarrow> (\<exists>c m. \<lparr>cce_id = c, cce_name = n, cce_metadata = m\<rparr> \<in> set es)"
proof -
  have "c \<in> set (map cce_id es) \<longleftrightarrow> (\<exists>e. e \<in> set es \<and> cce_id e = c)" by auto
  then show "c \<in> set (map cce_id es) \<longleftrightarrow> (\<exists>n m. \<lparr>cce_id = c, cce_name = n, cce_metadata = m\<rparr> \<in> set es)"
    unfolding ex_collection_entry by simp
  have "n \<in> set (map cce_name es) \<longleftrightarrow> (\<exists>e. e \<in> set es \<and> cce_name e = n)" by auto
  then show "n \<in> set (map cce_name es) \<longleftrightarrow> (\<exists>c m. \<lparr>cce_id = c, cce_name = n, cce_metadata = m\<rparr> \<in> set es)"
    unfolding ex_collection_entry by simp
qed

lemma overlay_collections:
  fixes H :: "('d, 'l, 'e) heed" and tx :: "('d, 'l) transaction"
  assumes H: "heed_laws H it dit" and ok: "tx_catalog_ok it tx counter" and ws: "ws_ok (tx_writes tx)"
    and new: "new_names_ok it tx"
  obtains overlay ids names where "overlay_collection_entries H tx start dir = Inr (overlay, ids, names)"
    "in_order cce_name dir overlay"
    "\<forall>e. e \<in> set overlay \<longleftrightarrow> tx_catalog it tx (cce_id e) = Some (cce_name e, cce_metadata e) \<and>
       (map_of (ws_new_collections (tx_writes tx)) (cce_id e) \<noteq> None \<or>
        pending_metadata (tx_writes tx) (cce_id e) \<noteq> None) \<and> accepts_start (cce_name e) start dir"
    "\<forall>c. c \<in> ids \<longleftrightarrow> tx_catalog it tx c \<noteq> None \<and>
       (map_of (ws_new_collections (tx_writes tx)) c \<noteq> None \<or> pending_metadata (tx_writes tx) c \<noteq> None)"
    "\<forall>n. n \<in> names \<longleftrightarrow> n \<in> snd ` set (ws_new_collections (tx_writes tx)) \<or>
       (\<exists>c m. tx_catalog it tx c = Some (n, m) \<and> map_of (ws_new_collections (tx_writes tx)) c = None \<and>
          pending_metadata (tx_writes tx) c \<noteq> None)"
proof -
  let ?new = "ws_new_collections (tx_writes tx)" and ?pend = "pending_metadata (tx_writes tx)"
  obtain updated where u: "collect_results (updated_collection_entry H tx) (ws_collections (tx_writes tx)) = Inr updated"
    "distinct (map cce_id (List.map_filter id updated))"
    "\<forall>e. e \<in> set (List.map_filter id updated) \<longleftrightarrow> ?pend (cce_id e) \<noteq> None \<and> map_of ?new (cce_id e) = None \<and>
       tx_catalog it tx (cce_id e) = Some (cce_name e, cce_metadata e)"
    by (rule updated_entries[OF H ok ws])
  define es where "es = new_collection_entries (tx_writes tx) @ List.map_filter id updated"
  have bt: "bt_ok ?new" using ws by (simp add: ws_ok_def)
  note old = u(3)[rule_format]
  have es: "e \<in> set es \<longleftrightarrow> tx_catalog it tx (cce_id e) = Some (cce_name e, cce_metadata e) \<and>
       (map_of ?new (cce_id e) \<noteq> None \<or> ?pend (cce_id e) \<noteq> None)" for e
    unfolding es_def set_append Un_iff new_entries[OF bt, of e it] old by auto
  have visible: "\<exists>m. catalog_visible (it (collections_catalog (tx_dbs tx))) (tx_ts tx) (cce_id e) = Some (cce_name e, m)"
    if "e \<in> set (List.map_filter id updated)" for e
    using that unfolding old by (auto simp: tx_catalog_def Let_def)
  have inj: "cce_id e = cce_id e'" if "e \<in> set (List.map_filter id updated)" "e' \<in> set (List.map_filter id updated)"
    "cce_name e = cce_name e'" for e e'
    using visible[OF that(1)] visible[OF that(2)] visible_collection_name(1)[OF ok] that(3)
    by (metis i64_to_be_inject option.inject)
  have "inj_on cce_name (set (List.map_filter id updated))"
  proof (rule inj_onI)
    fix e e'
    assume *: "e \<in> set (List.map_filter id updated)" "e' \<in> set (List.map_filter id updated)" "cce_name e = cce_name e'"
    show "e = e'" by (rule inj_onD[OF conjunct2[OF u(2)[unfolded distinct_map]] inj[OF *] *(1,2)])
  qed
  then have "distinct (map cce_name (List.map_filter id updated))"
    using u(2) by (simp add: distinct_map)
  moreover from visible have "cce_name e \<notin> snd ` set ?new" if "e \<in> set (List.map_filter id updated)" for e
    using visible[OF that] that[unfolded old] by (elim exE conjE) (auto dest: new_names_unchanged[OF new])
  then have "set (map snd ?new) \<inter> set (map cce_name (List.map_filter id updated)) = {}" by force
  ultimately have d: "distinct (map cce_name es)"
    using new unfolding es_def map_append new_entry_names new_names_ok_def distinct_append by blast
  define retained where "retained = filter (\<lambda>e. accepts_start (cce_name e) start dir) es"
  define overlay where "overlay = (if dir = Reverse then rev (sort_key cce_name retained) else sort_key cce_name retained)"
  have run: "overlay_collection_entries H tx start dir = Inr (overlay, set (map cce_id es), set (map cce_name es))"
    by (simp add: overlay_collection_entries_def u(1) es_def retained_def overlay_def Let_def image_Un)
  have "distinct (map cce_name retained)" using d by (simp add: retained_def distinct_map_filter)
  then have order: "in_order cce_name dir overlay" unfolding overlay_def by (rule in_order_sort_key)
  have "set overlay = set retained" by (simp add: overlay_def)
  then have mem: "e \<in> set overlay \<longleftrightarrow> e \<in> set es \<and> accepts_start (cce_name e) start dir" for e
    by (simp add: retained_def)
  have ids: "c \<in> set (map cce_id es) \<longleftrightarrow> tx_catalog it tx c \<noteq> None \<and> (map_of ?new c \<noteq> None \<or> ?pend c \<noteq> None)" for c
    unfolding in_entry_fields es by auto
  have "set (map cce_name (new_collection_entries (tx_writes tx))) = snd ` set ?new"
    unfolding new_entry_names by simp
  then have names: "n \<in> set (map cce_name es) \<longleftrightarrow> n \<in> snd ` set ?new \<or>
      (\<exists>c m. tx_catalog it tx c = Some (n, m) \<and> map_of ?new c = None \<and> ?pend c \<noteq> None)" for n
    unfolding es_def map_append set_append Un_iff in_entry_fields(2)[of n "List.map_filter id updated"] old
    by auto
  show thesis by (rule that[OF run order]) (use mem es ids names in auto)
qed

lemma get_collections_scan:
  fixes H :: "('d, 'l, 'e) heed" and tx :: "('d, 'l) transaction"
  assumes H: "heed_laws H it dit" and ok: "tx_catalog_ok it tx counter" and ws: "ws_ok (tx_writes tx)"
    and new: "new_names_ok it tx" and start: "legal_bound (string_start_bound start)"
  obtains ids names m xs where "get_collections_catalog_cursor H tx start dir = Inr (ids, names, m)"
    "yields (merged_collection_next H tx ids names dir) m xs" "in_order cce_name dir xs"
    "\<forall>e. e \<in> set xs \<longleftrightarrow> tx_catalog it tx (cce_id e) = Some (cce_name e, cce_metadata e) \<and>
       (map_of (ws_new_collections (tx_writes tx)) (cce_id e) \<noteq> None \<or>
        cce_name e \<notin> snd ` set (ws_new_collections (tx_writes tx))) \<and> accepts_start (cce_name e) start dir"
proof -
  let ?new = "ws_new_collections (tx_writes tx)" and ?pend = "pending_metadata (tx_writes tx)"
  obtain overlay ids names where ov: "overlay_collection_entries H tx start dir = Inr (overlay, ids, names)"
    and order: "in_order cce_name dir overlay"
    and mem: "\<forall>e. e \<in> set overlay \<longleftrightarrow> tx_catalog it tx (cce_id e) = Some (cce_name e, cce_metadata e) \<and>
       (map_of ?new (cce_id e) \<noteq> None \<or> ?pend (cce_id e) \<noteq> None) \<and> accepts_start (cce_name e) start dir"
    and ids: "\<forall>c. c \<in> ids \<longleftrightarrow> tx_catalog it tx c \<noteq> None \<and> (map_of ?new c \<noteq> None \<or> ?pend c \<noteq> None)"
    and names: "\<forall>n. n \<in> names \<longleftrightarrow> n \<in> snd ` set ?new \<or>
       (\<exists>c m. tx_catalog it tx c = Some (n, m) \<and> map_of ?new c = None \<and> ?pend c \<noteq> None)"
    by (rule overlay_collections[OF H ok ws new, of start dir])
  obtain raw bs where raw:
    "raw_cursor H (collection_ids_by_name (tx_dbs tx)) (collection_catalog_cursor_bounds start dir) dir = Inr raw"
    and base: "yields (collection_catalog_next H (collections_catalog (tx_dbs tx)) (tx_ts tx)) raw bs"
    "in_order cce_name dir bs"
    and bs: "set bs = {e. catalog_visible (it (collections_catalog (tx_dbs tx))) (tx_ts tx) (cce_id e) =
         Some (cce_name e, cce_metadata e) \<and> accepts_start (cce_name e) start dir}"
    by (rule stored_collections_scan[OF H ok start])
  let ?P = "\<lambda>e. cce_id e \<notin> ids \<and> cce_name e \<notin> names"
  have "yields (collection_next_base H (collections_catalog (tx_dbs tx)) (tx_ts tx) ids names) raw (filter ?P bs)"
    using yields_seek[OF base(1), where f = "\<lambda>e. Inr (if ?P e then Some e else None)"
        and g = "\<lambda>e. if \<not> ?P e then None else Some e"]
    by (simp add: collection_next_base_def map_filter_eq_filter)
  from yields_merged[OF this, of cce_name dir overlay]
  have y: "yields (merged_collection_next H tx ids names dir) (merged_new raw overlay)
      (merge_by cce_name dir (filter ?P bs) overlay)" by (simp add: merged_collection_next_def)
  have run: "get_collections_catalog_cursor H tx start dir = Inr (ids, names, merged_new raw overlay)"
    by (simp add: get_collections_catalog_cursor_def ov raw)
  have m: "set (merge_by cce_name dir (filter ?P bs) overlay) =
      {x \<in> set (filter ?P bs). cce_name x \<notin> cce_name ` set overlay} \<union> set overlay"
    "in_order cce_name dir (merge_by cce_name dir (filter ?P bs) overlay)"
    using set_merge_by[OF in_order_filter[OF base(2)] order] by blast+
  have "e \<in> set (merge_by cce_name dir (filter ?P bs) overlay) \<longleftrightarrow>
      tx_catalog it tx (cce_id e) = Some (cce_name e, cce_metadata e) \<and>
      (map_of ?new (cce_id e) \<noteq> None \<or> cce_name e \<notin> snd ` set ?new) \<and> accepts_start (cce_name e) start dir" for e
  proof (cases "map_of ?new (cce_id e) = None \<and> ?pend (cce_id e) = None")
    case True
    have cat: "tx_catalog it tx (cce_id e) =
        catalog_visible (it (collections_catalog (tx_dbs tx))) (tx_ts tx) (cce_id e)"
      using True by (simp add: tx_catalog_def option.map_ident split_def)
    have other: False if same: "tx_catalog it tx (cce_id e) = Some (n, m)" "tx_catalog it tx c = Some (n, m')"
      and old: "map_of ?new c = None" "?pend c \<noteq> None" for n m c m'
    proof -
      obtain m'' where c: "catalog_visible (it (collections_catalog (tx_dbs tx))) (tx_ts tx) c = Some (n, m'')"
        using same(2) old(1) by (auto simp: tx_catalog_def Let_def)
      have "i64_to_be c = i64_to_be (cce_id e)"
        using visible_collection_name(1)[OF ok c] visible_collection_name(1)[OF ok same(1)[unfolded cat]] by simp
      then show False using old(2) True by simp
    qed
    have "e \<notin> set overlay" "cce_id e \<notin> ids" using mem ids True by simp_all
    moreover have "cce_name y \<in> names" if "y \<in> set overlay" for y
    proof (cases "map_of ?new (cce_id y)")
      case None
      then show ?thesis using that unfolding mem[rule_format] names[rule_format] by blast
    next
      case (Some n)
      then have "cce_name y = n" using that unfolding mem[rule_format] by (simp add: tx_catalog_def)
      then show ?thesis using new_name_in[OF Some] names by simp
    qed
    ultimately have "e \<in> set (merge_by cce_name dir (filter ?P bs) overlay) \<longleftrightarrow> e \<in> set bs \<and> cce_name e \<notin> names"
      unfolding m(1) by auto
    also have "\<dots> \<longleftrightarrow> e \<in> set bs \<and> cce_name e \<notin> snd ` set ?new"
    proof (cases "e \<in> set bs")
      case e: True
      then have "tx_catalog it tx (cce_id e) = Some (cce_name e, cce_metadata e)" using bs cat by simp
      from other[OF this] have "\<not> (\<exists>c m. tx_catalog it tx c = Some (cce_name e, m) \<and> map_of ?new c = None \<and> ?pend c \<noteq> None)"
        by metis
      then show ?thesis unfolding names[rule_format] by simp
    qed simp
    finally show ?thesis using True by (simp add: bs cat conj_ac)
  next
    case False
    have hit: "tx_catalog it tx c \<noteq> None"
      if "catalog_visible (it (collections_catalog (tx_dbs tx))) (tx_ts tx) c \<noteq> None" for c
      using that by (auto simp: tx_catalog_def Let_def split: option.splits)
    then have "e \<notin> set (filter ?P bs)" using False ids bs by auto
    moreover have "cce_name e \<notin> snd ` set ?new" if "tx_catalog it tx (cce_id e) = Some (cce_name e, cce_metadata e)"
      "map_of ?new (cce_id e) = None"
      using that False by (auto simp: tx_catalog_def Let_def dest: new_names_unchanged[OF new])
    ultimately show ?thesis unfolding m(1) using mem False by blast
  qed
  with run y m(2) show thesis using that by blast
qed

section \<open>The scan of the indexes\<close>

lemma index_bounds_stored:
  assumes "0 \<le> i64_val c" "0 \<le> i64_val c'"
  shows "in_range (fst (index_catalog_cursor_bounds c start dir)) (snd (index_catalog_cursor_bounds c start dir))
      (encode_index_catalog_key c' n) \<longleftrightarrow> c' = c \<and> accepts_start n start dir"
proof -
  have less: "i64_to_be a @ x < i64_to_be b @ y \<longleftrightarrow> a < b \<or> a = b \<and> x < y"
    and le: "i64_to_be a @ x \<le> i64_to_be b @ y \<longleftrightarrow> a < b \<or> a = b \<and> x \<le> y"
    if "0 \<le> i64_val a" "0 \<le> i64_val b" for a b x y
    using lex_append_block[of "i64_to_be a" "i64_to_be b" x y]
      lex_append_block_le[of "i64_to_be a" "i64_to_be b" x y] i64_to_be_less_nonneg[OF that] by simp_all
  show ?thesis
    by (cases dir; cases start)
      (auto simp: index_catalog_cursor_bounds_def in_range_def encode_index_catalog_key_def
        less[OF assms] less[OF assms(2,1)] le[OF assms] le[OF assms(2,1)]
        collection_prefix_row[OF assms] collection_end_row[OF assms])
qed

lemma index_bounds_temporary:
  assumes "i64_val c < 0" "0 \<le> i64_val c'"
  shows "\<not> in_range (fst (index_catalog_cursor_bounds c start dir))
     (snd (index_catalog_cursor_bounds c start dir)) (encode_index_catalog_key c' n)"
proof -
  have above: "i64_to_be c' @ n < i64_to_be c @ x" for x by (rule temporary_above[OF assms])
  have 1: "\<not> encode_collection_prefix c \<le> i64_to_be c' @ n"
    using above[of "[]"] by (simp add: encode_collection_prefix_def not_le)
  have 3: "\<not> i64_to_be c @ x \<le> i64_to_be c' @ n" "\<not> i64_to_be c @ x < i64_to_be c' @ n" for x
    using above[of x] by (simp_all add: not_le less_not_sym)
  show ?thesis
    by (cases dir; cases start)
       (simp_all add: index_catalog_cursor_bounds_def in_range_def encode_index_catalog_key_def 1 3)
qed

lemma index_bounds:
  assumes "0 \<le> i64_val c'"
  shows "in_range (fst (index_catalog_cursor_bounds c start dir)) (snd (index_catalog_cursor_bounds c start dir))
      (encode_index_catalog_key c' n) \<longleftrightarrow> c' = c \<and> accepts_start n start dir"
  using index_bounds_stored[OF _ assms] index_bounds_temporary[OF _ assms] assms
  by (cases "0 \<le> i64_val c") (auto simp: not_le)

lemma legal_index_bounds:
  "legal_bound (fst (index_catalog_cursor_bounds c start dir))"
  "legal_bound (snd (index_catalog_cursor_bounds c start dir))"
  by (cases dir; cases start;
      simp add: index_catalog_cursor_bounds_def collection_end_bound_def encode_collection_prefix_def
        encode_index_catalog_key_def split: option.splits)+

text \<open>The rows of one collection.\<close>

definition index_row_entry :: "collection_id \<Rightarrow> bytes \<times> bytes \<Rightarrow> index_catalog_entry" where
  "index_row_entry cid = (\<lambda>(k, b). \<lparr>ice_collection_id = cid, ice_id = i64_from_be (take 8 b),
     ice_name = drop 8 k, ice_metadata = drop 8 b\<rparr>)"

lemma index_row_entry_encode [simp]:
  "index_row_entry cid (encode_index_catalog_key cid n, encode_index_catalog_value i m) =
     \<lparr>ice_collection_id = cid, ice_id = i, ice_name = n, ice_metadata = m\<rparr>"
  by (simp add: index_row_entry_def encode_index_catalog_key_def encode_index_catalog_value_def)

lemma decode_index_row:
  "utf8_valid n \<Longrightarrow> decode_index_catalog_key (encode_index_catalog_key c n) = Inr (c, n)"
  "decode_index_catalog_value (encode_index_catalog_value i m) = Inr (i, m)"
  by (simp_all add: decode_index_catalog_key_def encode_index_catalog_key_def decode_index_catalog_value_def
      encode_index_catalog_value_def len_defs codec_simps)

lemma yields_index_rows:
  assumes "\<forall>p \<in> set ps. \<exists>n i m. p = (encode_index_catalog_key cid n, encode_index_catalog_value i m) \<and> utf8_valid n"
  shows "yields (total (index_catalog_next cid)) (map Inr ps) (map (index_row_entry cid) ps)"
  using assms
proof (induction ps)
  case Nil
  have "yields (total (index_catalog_next cid)) [] []"
    by (rule yields_end[where c' = "[]"]) (simp_all add: total_def index_catalog_next_def)
  then show ?case by simp
next
  case (Cons p ps)
  then obtain n i m where p: "p = (encode_index_catalog_key cid n, encode_index_catalog_value i m)" "utf8_valid n"
    by auto
  have "total (index_catalog_next cid) (map Inr (p # ps)) = Some (Inr (Some (index_row_entry cid p)), map Inr ps)"
    using p by (simp add: total_def index_catalog_next_def decode_index_row)
  then show ?case using Cons by (auto intro: yields_item)
qed

lemma stored_indexes_scan:
  fixes H :: "('d, 'l, 'e) heed"
  assumes H: "heed_laws H it dit" and ok: "index_rows_ok (map_of (it d)) counter"
  obtains raw xs where "raw_cursor H d (index_catalog_cursor_bounds cid start dir) dir = Inr raw"
    "yields (total (index_catalog_next cid)) raw xs" "in_order ice_name dir xs"
    "\<forall>e. e \<in> set xs \<longleftrightarrow> ice_collection_id e = cid \<and>
       map_of (it d) (encode_index_catalog_key cid (ice_name e)) =
         Some (encode_index_catalog_value (ice_id e) (ice_metadata e)) \<and> accepts_start (ice_name e) start dir"
proof -
  let ?b = "index_catalog_cursor_bounds cid start dir"
  let ?t = "filter (\<lambda>(k, _). in_range (fst ?b) (snd ?b) k) (it d)"
  note bt = heed_it_ok[OF H, of d]
  have row: "\<exists>n i m. p = (encode_index_catalog_key cid n, encode_index_catalog_value i m) \<and> utf8_valid n \<and>
      accepts_start n start dir" if "p \<in> set ?t" for p
  proof -
    obtain k b where p: "p = (k, b)" by (cases p)
    then have "map_of (it d) k = Some b" using that bt_ok_map_of[OF bt] by simp
    then obtain c n i m where "k = encode_index_catalog_key c n" "b = encode_index_catalog_value i m"
      "0 \<le> i64_val c" "utf8_valid n" by (rule index_row[OF ok])
    then show ?thesis using that p by (auto simp: index_bounds)
  qed
  let ?ps = "(if dir = Reverse then rev else id) ?t"
  have 1: "raw_cursor H d ?b dir = Inr (map Inr ?ps)"
    by (rule raw_cursor_range[OF H legal_index_bounds])
  have 2: "yields (total (index_catalog_next cid)) (map Inr ?ps) (map (index_row_entry cid) ?ps)"
  proof (rule yields_index_rows, rule ballI)
    fix p assume "p \<in> set ?ps"
    then have "p \<in> set ?t" by (simp split: if_splits)
    from row[OF this] show "\<exists>n i m. p = (encode_index_catalog_key cid n, encode_index_catalog_value i m) \<and> utf8_valid n"
      by blast
  qed
  have order: "in_order ice_name Forward (map (index_row_entry cid) ?t)"
  proof -
    have "sorted_wrt (\<lambda>p q. fst p < fst q) ?t" using bt_ok_filter[OF bt] by (simp add: bt_ok_def sorted_wrt_map)
    then have "sorted_wrt (\<lambda>p q. ice_name (index_row_entry cid p) < ice_name (index_row_entry cid q)) ?t"
    proof (rule sorted_wrt_mono_rel[rotated])
      fix p q
      assume pq: "p \<in> set ?t" "q \<in> set ?t" "fst p < fst q"
      show "ice_name (index_row_entry cid p) < ice_name (index_row_entry cid q)"
        using row[OF pq(1)] row[OF pq(2)] pq(3)
        by (elim exE conjE) (simp add: encode_index_catalog_key_def lex_append_block index_row_entry_def)
    qed
    then show ?thesis by (simp add: in_order_def sorted_wrt_map)
  qed
  have 3: "in_order ice_name dir (map (index_row_entry cid) ?ps)"
    using order by (cases dir) (simp_all add: in_order_rev flip: rev_map)
  have "e \<in> set (map (index_row_entry cid) ?ps) \<longleftrightarrow> ice_collection_id e = cid \<and>
       map_of (it d) (encode_index_catalog_key cid (ice_name e)) =
         Some (encode_index_catalog_value (ice_id e) (ice_metadata e)) \<and> accepts_start (ice_name e) start dir" for e
  proof
    assume "e \<in> set (map (index_row_entry cid) ?ps)"
    then obtain p where p: "p \<in> set ?t" "e = index_row_entry cid p" by (auto split: if_splits)
    then obtain n i m where "p = (encode_index_catalog_key cid n, encode_index_catalog_value i m)"
      "accepts_start n start dir" using row by blast
    then show "ice_collection_id e = cid \<and>
       map_of (it d) (encode_index_catalog_key cid (ice_name e)) =
         Some (encode_index_catalog_value (ice_id e) (ice_metadata e)) \<and> accepts_start (ice_name e) start dir"
      using p by (simp add: bt_ok_map_of[OF bt])
  next
    let ?p = "(encode_index_catalog_key cid (ice_name e), encode_index_catalog_value (ice_id e) (ice_metadata e))"
    assume *: "ice_collection_id e = cid \<and>
       map_of (it d) (encode_index_catalog_key cid (ice_name e)) =
         Some (encode_index_catalog_value (ice_id e) (ice_metadata e)) \<and> accepts_start (ice_name e) start dir"
    then obtain c n i m where "encode_index_catalog_key cid (ice_name e) = encode_index_catalog_key c n"
      "0 \<le> i64_val c" by (metis index_row[OF ok])
    then have "?p \<in> set ?t" using * by (simp add: bt_ok_map_of[OF bt] index_bounds)
    moreover have "e = index_row_entry cid ?p" using * by (cases e) simp
    ultimately have "e \<in> index_row_entry cid ` set ?t" by (rule rev_image_eqI)
    then show "e \<in> set (map (index_row_entry cid) ?ps)" by (cases "dir = Reverse") simp_all
  qed
  with 1 2 3 show thesis using that by blast
qed

text \<open>The indexes of a collection as a transaction sees them: the pending ones, and the stored
  ones whose name no pending index has.\<close>

definition pending_indexes :: "write_set \<Rightarrow> collection_id \<Rightarrow> (index_id, index_catalog_write) btree" where
  "pending_indexes w cid = (case map_of (ws_new_indexes w) cid of None \<Rightarrow> [] | Some t \<Rightarrow> t)"

definition tx_index ::
  "('d \<Rightarrow> (bytes \<times> bytes) list) \<Rightarrow> ('d, 'l) transaction \<Rightarrow> collection_id \<Rightarrow> index_catalog_entry \<Rightarrow> bool" where
  "tx_index it tx cid e \<longleftrightarrow> ice_collection_id e = cid \<and>
     (map_of (pending_indexes (tx_writes tx) cid) (ice_id e) =
        Some \<lparr>icw_name = ice_name e, icw_metadata = ice_metadata e\<rparr> \<or>
      ice_name e \<notin> (\<lambda>(_, x). icw_name x) ` set (pending_indexes (tx_writes tx) cid) \<and>
      map_of (it (indexes_catalog (tx_dbs tx))) (encode_index_catalog_key cid (ice_name e)) =
        Some (encode_index_catalog_value (ice_id e) (ice_metadata e)))"

definition pending_entry :: "collection_id \<Rightarrow> index_id \<times> index_catalog_write \<Rightarrow> index_catalog_entry" where
  "pending_entry cid = (\<lambda>(iid, index). \<lparr>ice_collection_id = cid, ice_id = iid,
     ice_name = icw_name index, ice_metadata = icw_metadata index\<rparr>)"

lemma overlay_index_catalog_eq:
  "overlay_index_catalog_entries w cid start dir =
     (let entries = map (pending_entry cid) (pending_indexes w cid);
          retained = sort_key ice_name (filter (\<lambda>entry. accepts_start (ice_name entry) start dir) entries)
      in (if dir = Reverse then rev retained else retained, set (map ice_name entries)))"
  by (auto simp: overlay_index_catalog_entries_def pending_indexes_def pending_entry_def Let_def
      split: option.splits)

lemma get_indexes_scan:
  fixes H :: "('d, 'l, 'e) heed" and tx :: "('d, 'l) transaction"
  assumes H: "heed_laws H it dit" and ok: "index_rows_ok (map_of (it (indexes_catalog (tx_dbs tx)))) counter"
    and ws: "ws_ok (tx_writes tx)"
    and names: "distinct (map (\<lambda>(_, x). icw_name x) (pending_indexes (tx_writes tx) cid))"
  obtains touched m xs where "get_indexes_catalog_cursor H tx cid start dir = Inr (touched, m)"
    "yields (merged_index_catalog_next cid touched dir) m xs" "in_order ice_name dir xs"
    "\<forall>e. e \<in> set xs \<longleftrightarrow> tx_index it tx cid e \<and> accepts_start (ice_name e) start dir"
proof -
  let ?t = "pending_indexes (tx_writes tx) cid"
  define entries where "entries = map (pending_entry cid) ?t"
  define retained where "retained = filter (\<lambda>e. accepts_start (ice_name e) start dir) entries"
  define overlay where "overlay = (if dir = Reverse then rev (sort_key ice_name retained) else sort_key ice_name retained)"
  define touched where "touched = set (map ice_name entries)"
  have ov: "overlay_index_catalog_entries (tx_writes tx) cid start dir = (overlay, touched)"
    by (simp add: overlay_index_catalog_eq entries_def retained_def overlay_def touched_def Let_def image_image)
  have names_eq: "map ice_name entries = map (\<lambda>(_, x). icw_name x) ?t"
    by (simp add: entries_def pending_entry_def split_beta)
  have "distinct (map ice_name retained)"
    using names unfolding names_eq[symmetric] retained_def by (rule distinct_map_filter)
  then have order: "in_order ice_name dir overlay" unfolding overlay_def by (rule in_order_sort_key)
  have bt: "bt_ok ?t" using ws
    by (auto simp: pending_indexes_def ws_ok_def split: option.splits dest: map_of_SomeD)
  have mem: "e \<in> set overlay \<longleftrightarrow> ice_collection_id e = cid \<and>
      map_of ?t (ice_id e) = Some \<lparr>icw_name = ice_name e, icw_metadata = ice_metadata e\<rparr> \<and>
      accepts_start (ice_name e) start dir" for e
  proof -
    have "e \<in> set overlay \<longleftrightarrow> e \<in> set entries \<and> accepts_start (ice_name e) start dir"
      by (simp add: overlay_def retained_def)
    also have "e \<in> set entries \<longleftrightarrow> ice_collection_id e = cid \<and>
        (ice_id e, \<lparr>icw_name = ice_name e, icw_metadata = ice_metadata e\<rparr>) \<in> set ?t"
    proof -
      have eq: "e = pending_entry cid p \<longleftrightarrow> ice_collection_id e = cid \<and>
          p = (ice_id e, \<lparr>icw_name = ice_name e, icw_metadata = ice_metadata e\<rparr>)" for p
        by (cases e; cases p) (auto simp: pending_entry_def)
      show ?thesis unfolding entries_def set_map image_iff eq by (simp add: conj_commute)
    qed
    finally show ?thesis by (simp add: bt_ok_map_of[OF bt])
  qed
  obtain raw bs where base: "raw_cursor H (indexes_catalog (tx_dbs tx)) (index_catalog_cursor_bounds cid start dir) dir = Inr raw"
    "yields (total (index_catalog_next cid)) raw bs" "in_order ice_name dir bs"
    and bs: "\<forall>e. e \<in> set bs \<longleftrightarrow> ice_collection_id e = cid \<and>
       map_of (it (indexes_catalog (tx_dbs tx))) (encode_index_catalog_key cid (ice_name e)) =
         Some (encode_index_catalog_value (ice_id e) (ice_metadata e)) \<and> accepts_start (ice_name e) start dir"
    by (rule stored_indexes_scan[OF H ok])
  let ?bs = "filter (\<lambda>e. ice_name e \<notin> touched) bs"
  have "yields (index_catalog_next_base cid touched) raw ?bs"
    using yields_seek[OF base(2), where f = "\<lambda>e. Inr (if ice_name e \<notin> touched then Some e else None)"
        and g = "\<lambda>e. if \<not> ice_name e \<notin> touched then None else Some e"]
      map_filter_eq_filter[of "\<lambda>e. \<not> ice_name e \<notin> touched" bs]
    by (simp add: index_catalog_next_base_def)
  from yields_merged[OF this, of ice_name dir overlay]
  have y: "yields (merged_index_catalog_next cid touched dir) (merged_new raw overlay)
      (merge_by ice_name dir ?bs overlay)" by (simp add: merged_index_catalog_next_def)
  have run: "get_indexes_catalog_cursor H tx cid start dir = Inr (touched, merged_new raw overlay)"
    by (simp add: get_indexes_catalog_cursor_def ov base(1))
  have m: "set (merge_by ice_name dir ?bs overlay) =
      {x \<in> set ?bs. ice_name x \<notin> ice_name ` set overlay} \<union> set overlay"
    "in_order ice_name dir (merge_by ice_name dir ?bs overlay)"
    using set_merge_by[OF in_order_filter[OF base(3)] order] by blast+
  have sub: "ice_name ` set overlay \<subseteq> touched" by (auto simp: overlay_def retained_def touched_def)
  have t: "touched = (\<lambda>(_, x). icw_name x) ` set ?t" unfolding touched_def names_eq by simp
  have "e \<in> set (merge_by ice_name dir ?bs overlay) \<longleftrightarrow> tx_index it tx cid e \<and> accepts_start (ice_name e) start dir" for e
  proof -
    have "e \<in> set (merge_by ice_name dir ?bs overlay) \<longleftrightarrow> e \<in> set bs \<and> ice_name e \<notin> touched \<or> e \<in> set overlay"
      unfolding m(1) using sub by auto
    then show ?thesis unfolding bs[rule_format] mem tx_index_def t by blast
  qed
  with run y m(2) show thesis using that by blast
qed

end
