(* ===== verification/Engine_Liveness.thy ===== *)
theory Engine_Liveness
  imports Engine_Index_Catalog
begin

text \<open>
  When the operations of \<open>implementations/heed/datastore.rs\<close> succeed. On a store whose calls with
  legal keys succeed (\<open>heed_live\<close>), every operation on a state that satisfies the invariants
  returns; a batch fails only for a reason that \<open>batch_legal\<close> names. \<open>returns m s\<close> says that an
  action returns; the specifications of the operations say what state the next one starts in.
\<close>

section \<open>Actions that return\<close>

definition returns :: "('s, 'e, 'a) act \<Rightarrow> 's \<Rightarrow> bool" where
  "returns m s \<longleftrightarrow> (\<exists>x s'. m s = (Inr x, s'))"

named_theorems live "actions that return"

lemma returnsE: "returns m s \<Longrightarrow> (\<And>x s'. m s = (Inr x, s') \<Longrightarrow> P) \<Longrightarrow> P"
  by (auto simp: returns_def)

lemma returns_return [live]: "returns (act_return x) s"
  by (simp add: returns_def act_return_def)

lemma returns_read: "f s = Inr x \<Longrightarrow> returns (act_read f) s"
  by (simp add: returns_def act_read_def)

lemma returns_bind [live]:
  "returns m s \<Longrightarrow> (\<And>x s'. m s = (Inr x, s') \<Longrightarrow> returns (f x) s') \<Longrightarrow> returns (act_bind m f) s"
  by (auto simp: returns_def act_bind_def)

lemma returns_then [live]:
  "returns m s \<Longrightarrow> (\<And>x s'. m s = (Inr x, s') \<Longrightarrow> returns k s') \<Longrightarrow> returns (act_then m k) s"
  by (auto simp: act_then_def intro: live)

text \<open>A loop returns when its invariant, on what is left of the list, makes every round return.\<close>

lemma returns_for:
  assumes "\<And>x ys s. I (x # ys) s \<Longrightarrow> returns (f x) s"
    and "\<And>x ys s s'. I (x # ys) s \<Longrightarrow> f x s = (Inr (), s') \<Longrightarrow> I ys s'"
  shows "I xs s \<Longrightarrow> returns (act_for xs f) s"
proof (induction xs arbitrary: s)
  case (Cons x xs)
  show ?case using assms(1)[OF Cons.prems] Cons.IH[OF assms(2)[OF Cons.prems]]
    by (auto intro: returns_then)
qed (simp add: returns_return)

section \<open>Calls on the store\<close>

lemma legal_keys [simp]:
  "legal_key (encode_document_key c d t)" "legal_key (encode_collection_catalog_key c t)"
  "legal_key (encode_vacuum_target_key c d)"
  "legal_key (encode_index_node_key i ch s) \<longleftrightarrow> length s \<le> 495"
  "legal_key (encode_index_catalog_key c n) \<longleftrightarrow> length n \<le> 503"
  by (auto simp: legal_key_def)

lemma legal_metadata_keys [simp]:
  "legal_key METADATA_TS_KEY" "legal_key METADATA_INDEX_CHAIN_ID_KEY"
  "legal_key METADATA_COLLECTION_ID_KEY" "legal_key METADATA_INDEX_ID_KEY"
  "legal_key METADATA_VISIBLE_TS_KEY"
  by (simp_all add: legal_key_def metadata_keys)

lemma returns_get: "heed_laws H it dit \<Longrightarrow> k \<noteq> [] \<Longrightarrow> returns (db_get H sel k) e"
  by (simp add: returns_def db_get_Inr heed_get)

lemma returns_put: "heed_live H \<Longrightarrow> legal_key k \<Longrightarrow> returns (db_write sel upd (\<lambda>d. h_put H d k v)) e"
  by (auto simp: returns_def db_write_Inr heed_live_def)

lemma returns_delete: "heed_live H \<Longrightarrow> legal_key k \<Longrightarrow> returns (db_write sel upd (\<lambda>d. h_delete H d k)) e"
  by (auto simp: returns_def db_write_Inr heed_live_def)

lemma returns_dup:
  assumes "heed_live H" "legal_key k"
  shows "length v \<le> 511 \<Longrightarrow> returns (leaves_write (\<lambda>l. h_dup_put H l k v)) e"
    "returns (leaves_write (\<lambda>l. h_dup_delete H l k v)) e"
  using assms by (auto simp: returns_def leaves_write_Inr heed_live_def)

lemma allocate_returns [live]:
  "returns allocate_collection_id e" "returns allocate_index_id e" "returns allocate_chain_id e"
  by (simp_all add: returns_def allocate_collection_id_def allocate_index_id_def
      allocate_chain_id_def Let_def)

section \<open>The index trie\<close>

lemma find_or_create_returns:
  assumes H: "heed_laws H it dit" "heed_live H" and ok: "index_ok it dit e" "length s = 495"
  shows "returns (find_or_create_index_edge H iid p s) e"
proof -
  let ?k = "encode_index_node_key iid p s"
  have get: "db_get H index_edges ?k e = (Inr (edges_of it e ?k), e)"
    using heed_get[OF H(1), of ?k] by (simp add: db_get_Inr edges_of_def)
  show ?thesis
  proof (cases "edges_of it e ?k")
    case None
    then have "returns (act_bind allocate_chain_id (\<lambda>child.
        act_then (db_write index_edges index_edges_update (\<lambda>d. h_put H d ?k (u64_to_be child)))
        (act_return child))) e"
      using ok(2) by (intro live returns_put H) simp_all
    then show ?thesis using get None
      by (simp add: find_or_create_index_edge_def returns_def act_bind_def Let_def)
  next
    case (Some v)
    obtain c where "v = u64_to_be c" by (rule trie_edge[OF ok(1)[unfolded index_ok_def] Some])
    then show ?thesis using get Some
      by (simp add: find_or_create_index_edge_def returns_def act_bind_def act_read_def Let_def)
  qed
qed

lemma make_path_returns:
  assumes H: "heed_laws H it dit" "heed_live H"
  shows "index_ok it dit e \<Longrightarrow> p \<le> index_chain_id_counter e \<Longrightarrow> \<forall>s \<in> set ss. length s = 495 \<Longrightarrow>
    chain_room e (length ss + n) \<Longrightarrow> returns (make_path H iid p ss) e"
proof (induction ss arbitrary: p e)
  case (Cons s ss)
  have room: "chain_room e (Suc (length ss + n))" and s: "length s = 495" using Cons.prems by simp_all
  show ?case unfolding make_path.simps
  proof (rule returns_bind)
    show "returns (find_or_create_index_edge H iid p s) e"
      by (rule find_or_create_returns[OF H Cons.prems(1) s])
    fix c e1 assume 1: "find_or_create_index_edge H iid p s e = (Inr c, e1)"
    from find_or_create_spec[OF H(1) 1 Cons.prems(1,2) s room]
    show "returns (make_path H iid c ss) e1" using Cons.IH[of e1 c] Cons.prems(3) by simp
  qed
qed (simp add: returns_return)

lemma put_index_entry_returns:
  assumes H: "heed_laws H it dit" "heed_live H" and ok: "index_ok it dit e"
    and room: "chain_room e (length (split_index_key key) + n)"
  shows "returns (put_index_entry H iid key did) e"
proof -
  let ?segs = "split_index_key key"
  have "chain_room e (length (butlast ?segs) + n)" using room by (auto simp: chain_room_def)
  then have "returns (make_path H iid ROOT_INDEX_CHAIN_ID (butlast ?segs)) e"
    using split_segments(1) by (intro make_path_returns[OF H ok]) (auto simp: ROOT_INDEX_CHAIN_ID_def)
  then show ?thesis
    unfolding put_index_entry_def Let_def using split_segments(2)[of key]
    by (intro live returns_dup[OF H(2)]) simp_all
qed

lemma has_entries_returns:
  assumes H: "heed_laws H it dit"
  shows "returns (index_node_has_entries H iid c) e"
  using heed_dup_prefix[OF H] heed_prefix[OF H]
  by (auto simp: index_node_has_entries_def Let_def index_node_prefix_def intro!: live returns_read)

lemma prune_path_returns:
  assumes H: "heed_laws H it dit" "heed_live H"
  shows "\<forall>edge \<in> set path. length (ipe_segment edge) \<le> 495 \<Longrightarrow> returns (prune_path H iid path) e"
  by (induction path arbitrary: e)
    (auto intro!: live has_entries_returns[OF H(1)] returns_delete[OF H(2)])

lemma find_path_returns:
  assumes H: "heed_laws H it dit" and ok: "index_ok it dit e"
  shows "returns (find_path H iid p ss) e"
proof (induction ss arbitrary: p)
  case (Cons s ss)
  let ?k = "encode_index_node_key iid p s"
  have get: "db_get H index_edges ?k e = (Inr (edges_of it e ?k), e)"
    using heed_get[OF H(1), of ?k] by (simp add: db_get_Inr edges_of_def)
  show ?case
  proof (cases "edges_of it e ?k")
    case None
    then show ?thesis using get by (simp add: returns_def act_bind_def act_return_def)
  next
    case (Some v)
    obtain c where v: "v = u64_to_be c" by (rule trie_edge[OF ok[unfolded index_ok_def] Some])
    have "returns (act_bind (find_path H iid c ss) (\<lambda>q. act_return (case q of None \<Rightarrow> None
      | Some (c', path) \<Rightarrow> Some (c', \<lparr>ipe_parent_chain_id = p, ipe_segment = s, ipe_child_chain_id = c\<rparr> # path)))) e"
      by (intro live Cons.IH)
    then show ?thesis using get Some v by (simp add: returns_def act_bind_def act_read_def)
  qed
qed (simp add: returns_return)

lemma find_path_segments:
  "find_path H iid p ss e = (Inr (Some (c, path)), e') \<Longrightarrow> map ipe_segment path = ss"
proof (induction ss arbitrary: p c path e e')
  case (Cons s ss)
  then show ?case by (fastforce simp: act_Inr split: option.splits)
qed (simp add: act_Inr)

lemma delete_index_entry_returns:
  assumes H: "heed_laws H it dit" "heed_live H" and ok: "index_ok it dit e"
  shows "returns (delete_index_entry H iid key did) e"
  unfolding delete_index_entry_def Let_def
proof (rule returns_bind)
  let ?segs = "split_index_key key"
  show "returns (find_path H iid ROOT_INDEX_CHAIN_ID (butlast ?segs)) e"
    by (rule find_path_returns[OF H(1) ok])
  fix r e1 assume r: "find_path H iid ROOT_INDEX_CHAIN_ID (butlast ?segs) e = (Inr r, e1)"
  show "returns (case r of None \<Rightarrow> act_return () | Some (chain, path) \<Rightarrow>
      act_then (leaves_write (\<lambda>l. h_dup_delete H l (encode_index_node_key iid chain (last ?segs))
        (encode_index_document_id did))) (prune_path H iid (rev path))) e1"
  proof (cases r)
    case (Some cp)
    obtain c path where cp: "cp = (c, path)" by (cases cp)
    have "map ipe_segment path = butlast ?segs" using find_path_segments r Some cp by fast
    then have "ipe_segment edge \<in> set (butlast ?segs)" if "edge \<in> set path" for edge
      using that by (metis image_eqI list.set_map)
    then have seg: "\<forall>edge \<in> set (rev path). length (ipe_segment edge) \<le> 495"
      using split_segments(1) by fastforce
    show ?thesis unfolding Some cp option.case prod.case using split_segments(2)[of key]
      by (intro live returns_dup[OF H(2)] prune_path_returns[OF H seg]) simp_all
  qed (simp add: returns_return)
qed

section \<open>The catalogs\<close>

lemma create_collection_returns:
  assumes H: "heed_laws H it dit" "heed_live H" and ok: "catalog_ok it e" and n: "legal_key n"
  shows "returns (create_collection H n None ts) e"
  unfolding create_collection_def
proof (rule returns_bind)
  have ne: "n \<noteq> []" using n by (simp add: legal_key_def)
  have get: "db_get H collection_ids_by_name n e = (Inr (names_of it e n), e)"
    using heed_get[OF H(1) ne] by (simp add: db_get_Inr names_of_def)
  show "returns (collection_id_by_name H n) e"
  proof (cases "names_of it e n")
    case None
    then show ?thesis using get
      by (simp add: collection_id_by_name_def returns_def act_bind_def act_return_def)
  next
    case (Some v)
    obtain c where "v = i64_to_be c" by (rule catalog_name[OF ok Some])
    then show ?thesis using get Some
      by (simp add: collection_id_by_name_def returns_def act_bind_def act_read_def)
  qed
  show "returns (case r of Some cid \<Rightarrow> act_then (case None of Some m \<Rightarrow>
        put_collection_catalog_entry H cid n m ts | None \<Rightarrow> act_return ()) (act_return cid)
    | None \<Rightarrow> act_bind allocate_collection_id (\<lambda>cid. act_then (put_collection_catalog_entry H cid n
        (case None of Some m \<Rightarrow> m | None \<Rightarrow> []) ts)
        (act_then (put_collection_id_by_name H n cid) (act_return cid)))) e'" for r e'
    using n by (cases r)
      (auto simp: put_collection_catalog_entry_def put_collection_id_by_name_def intro!: live returns_put[OF H(2)])
qed

lemma create_collections_returns:
  assumes H: "heed_laws H it dit" "heed_live H"
  shows "catalog_ok it e \<Longrightarrow> \<forall>(tmp, n) \<in> set ncs. name_ok n \<and> legal_key n \<Longrightarrow>
    collection_room e (length ncs + k) \<Longrightarrow> returns (create_collections H ts ncs m) e"
proof (induction ncs arbitrary: m e)
  case (Cons x ncs)
  obtain tmp n where x: "x = (tmp, n)" by (cases x)
  have n: "name_ok n" "legal_key n" "collection_room e (Suc (length ncs + k))"
    using Cons.prems x by auto
  show ?case unfolding x create_collections.simps
  proof (rule returns_bind)
    show "returns (create_collection H n None ts) e"
      by (rule create_collection_returns[OF H Cons.prems(1) n(2)])
    fix c e1 assume 1: "create_collection H n None ts e = (Inr c, e1)"
    from create_collection_spec[OF H(1) 1 Cons.prems(1) n(1,3)]
    show "returns (create_collections H ts ncs (m(tmp \<mapsto> c))) e1"
      using Cons.IH[of e1] Cons.prems(2) by simp
  qed
qed (simp add: returns_return)

lemma create_index_returns:
  assumes H: "heed_laws H it dit" "heed_live H" and ok: "index_catalog_ok it e" and n: "length n \<le> 503"
  shows "returns (create_index H c n x) e"
proof -
  let ?k = "encode_index_catalog_key c n"
  have get: "db_get H indexes_catalog ?k e = (Inr (index_rows it e ?k), e)"
    using heed_get[OF H(1), of ?k] by (simp add: db_get_Inr index_rows_def)
  show ?thesis
  proof (cases "index_rows it e ?k")
    case None
    have "returns (act_bind allocate_index_id (\<lambda>iid. act_then (db_write indexes_catalog indexes_catalog_update
        (\<lambda>d. h_put H d ?k (encode_index_catalog_value iid x))) (act_return iid))) e"
      using n by (intro live returns_put[OF H(2)]) simp_all
    then show ?thesis using get None by (simp add: create_index_def returns_def act_bind_def Let_def)
  next
    case (Some b)
    then obtain c' n' i m where row: "?k = encode_index_catalog_key c' n'" "b = encode_index_catalog_value i m"
      by (rule index_row[OF ok(1)[unfolded index_catalog_ok_def]]) blast
    have "(decode_index_catalog_value b :: 'c storage_error + index_id \<times> bytes) = Inr (i, m)"
      using index_catalog_value.decode_iff[of b "(i, m)"] row(2) by simp
    then show ?thesis using get Some by (simp add: create_index_def returns_def act_bind_def act_read_def Let_def)
  qed
qed

lemma create_indexes_of_returns:
  assumes H: "heed_laws H it dit" "heed_live H" and c: "0 \<le> i64_val c"
  shows "index_catalog_ok it e \<Longrightarrow>
    \<forall>(tmp, x) \<in> set xs. utf8_valid (icw_name x) \<and> length (icw_name x) \<le> 503 \<Longrightarrow>
    index_id_room e (length xs + k) \<Longrightarrow> returns (create_indexes_of H c xs m) e"
proof (induction xs arbitrary: m e)
  case (Cons p xs)
  obtain tmp x where p: "p = (tmp, x)" by (cases p)
  have x: "utf8_valid (icw_name x)" "length (icw_name x) \<le> 503" "index_id_room e (Suc (length xs + k))"
    using Cons.prems p by auto
  show ?case unfolding p create_indexes_of.simps
  proof (rule returns_bind)
    show "returns (create_index H c (icw_name x) (icw_metadata x)) e"
      by (rule create_index_returns[OF H Cons.prems(1) x(2)])
    fix i e1 assume 1: "create_index H c (icw_name x) (icw_metadata x) e = (Inr i, e1)"
    from create_index_spec[OF H(1) 1 Cons.prems(1) c x(1,3)]
    show "returns (create_indexes_of H c xs (m(tmp \<mapsto> i))) e1" using Cons.IH[of e1] Cons.prems(2) by simp
  qed
qed (simp add: returns_return)

lemma resolve_returns:
  "0 \<le> i64_val cid \<or> nc cid \<noteq> None \<Longrightarrow> returns (act_read (\<lambda>_. resolve_collection_id cid nc)) e"
  "0 \<le> i64_val iid \<or> ni iid \<noteq> None \<Longrightarrow> returns (act_read (\<lambda>_. resolve_index_id iid ni)) e"
  by (auto simp: returns_def act_read_def resolve_collection_id_def resolve_index_id_def)

definition index_declarations_ok ::
  "(collection_id \<Rightarrow> bool) \<Rightarrow> (collection_id \<times> (index_id, index_catalog_write) btree) list \<Rightarrow> bool" where
  "index_declarations_ok known nis \<longleftrightarrow>
     (\<forall>(cid, t) \<in> set nis. known cid \<and> (\<forall>(tmp, x) \<in> set t. length (icw_name x) \<le> 503))"

lemma create_indexes_returns:
  assumes H: "heed_laws H it dit" "heed_live H" and nc: "\<forall>tmp c. nc tmp = Some c \<longrightarrow> 0 < i64_val c"
  shows "index_catalog_ok it e \<Longrightarrow> index_names_ok nis \<Longrightarrow>
    index_declarations_ok (\<lambda>cid. 0 \<le> i64_val cid \<or> nc cid \<noteq> None) nis \<Longrightarrow>
    index_id_room e (new_index_count nis + k) \<Longrightarrow> returns (create_indexes H nc nis m) e"
proof (induction nis arbitrary: m e)
  case (Cons p nis)
  obtain cid t where p: "p = (cid, t)" by (cases p)
  have t: "\<forall>(tmp, x) \<in> set t. utf8_valid (icw_name x) \<and> length (icw_name x) \<le> 503" "bt_ok t"
    "0 \<le> i64_val cid \<or> nc cid \<noteq> None"
    "index_id_room e (length t + (new_index_count nis + k))"
    using Cons.prems p
    by (auto simp: index_names_ok_def index_declarations_ok_def new_index_count_def add.assoc)
  have rest: "index_names_ok nis" "index_declarations_ok (\<lambda>cid. 0 \<le> i64_val cid \<or> nc cid \<noteq> None) nis"
    using Cons.prems p by (simp_all add: index_names_ok_def index_declarations_ok_def)
  show ?case unfolding p create_indexes.simps
  proof (rule returns_bind, rule resolve_returns(1), rule t(3), rule returns_bind)
    fix c e0 assume r: "act_read (\<lambda>_. resolve_collection_id cid nc) e = (Inr c, e0)"
    then have e0: "e0 = e" and c: "0 \<le> i64_val c"
      using resolve_collection_resolved[OF _ nc] by (auto simp: act_Inr)
    show "returns (create_indexes_of H c t m) e0"
      unfolding e0 by (rule create_indexes_of_returns[OF H c Cons.prems(1) t(1,4)])
    fix m1 e1 assume 1: "create_indexes_of H c t m e0 = (Inr m1, e1)"
    have "\<forall>(tmp, x) \<in> set t. utf8_valid (icw_name x)" using t(1) by auto
    from create_indexes_of_spec[OF H(1) c 1[unfolded e0] Cons.prems(1) this t(4,2)]
    show "returns (create_indexes H nc nis m1) e1" using Cons.IH[of e1 m1] rest by blast
  qed
qed (simp add: returns_return)

lemma update_metadata_returns:
  assumes H: "heed_laws H it dit" "heed_live H" and ok: "catalog_ok it e"
    and c: "names_of it e n = Some (i64_to_be c)"
  shows "returns (update_collection_metadata H c m ts) e"
proof -
  let ?d = "it (collections_catalog (e_dbs e))"
  obtain t where "catalog_of it e (encode_collection_catalog_key c t) \<noteq> None"
    using ok c unfolding catalog_ok_def catalog_rows_ok_def by blast
  then have "newest (collection_rows.history ?d c) (- 1) \<noteq> None"
    by (auto simp: newest_None collection_rows.history_def catalog_of_def)
  then have "catalog_visible ?d (- 1) c \<noteq> None" by (simp add: catalog_visible_def)
  then obtain x where "catalog_visible ?d (- 1) c = Some x" by blast
  then show ?thesis
    using collection_by_id_eq[OF H(1) ok, of c "- 1"] returns_put[OF H(2) legal_keys(2)]
    by (cases x) (simp add: update_collection_metadata_def returns_def act_bind_def
        put_collection_catalog_entry_def)
qed

section \<open>The writes of a batch\<close>

lemma put_document_write_returns:
  assumes "heed_live H"
  shows "returns (put_document_write H c ts x) e"
  unfolding put_document_write_def
  by (auto intro!: live returns_put[OF assms] split: prod.splits)

lemma put_documents_returns: "heed_live H \<Longrightarrow> returns (act_for xs (put_document_write H c ts)) e"
  by (rule returns_for[where I = "\<lambda>_ _. True"]) (simp_all add: put_document_write_returns)

lemma put_index_write_returns:
  assumes H: "heed_laws H it dit" "heed_live H" and ok: "index_ok it dit e"
    and room: "chain_room e (length (split_index_key (pos_value pos)) + n)"
  shows "returns (put_index_write H iid (pos, w)) e"
  using put_index_entry_returns[OF H ok room] delete_index_entry_returns[OF H ok]
  by (cases w) (simp_all add: put_index_write_def)

lemma put_entries_returns:
  assumes H: "heed_laws H it dit" "heed_live H"
    and ok: "index_ok it dit e" "chain_room e (entries_segments es + n)"
  shows "returns (act_for es (put_index_write H iid)) e"
proof (rule returns_for[where I = "\<lambda>es e. index_ok it dit e \<and> chain_room e (entries_segments es + n)"])
  fix x es e e1
  assume I: "index_ok it dit e \<and> chain_room e (entries_segments (x # es) + n)"
  obtain pos w where x: "x = (pos, w)" by (cases x)
  have room: "chain_room e (length (split_index_key (pos_value pos)) + (entries_segments es + n))"
    using I by (simp add: x entries_segments_def add.assoc)
  show "returns (put_index_write H iid x) e"
    unfolding x by (rule put_index_write_returns[OF H _ room]) (use I in simp)
  assume "put_index_write H iid x e = (Inr (), e1)"
  from put_index_write_spec[OF H(1) this[unfolded x] _ room] I
  show "index_ok it dit e1 \<and> chain_room e1 (entries_segments es + n)" by blast
qed (use ok in simp)

abbreviation index_known :: "(index_id \<Rightarrow> index_id option) \<Rightarrow> index_id \<Rightarrow> bool" where
  "index_known ni iid \<equiv> 0 \<le> i64_val iid \<or> ni iid \<noteq> None"

lemma put_index_writes_returns:
  assumes H: "heed_laws H it dit" "heed_live H"
    and ok: "index_ok it dit e" "chain_room e (sum_list (map (\<lambda>(_, es). entries_segments es) ies) + n)"
      "\<forall>(iid, es) \<in> set ies. index_known ni iid"
  shows "returns (act_for ies (put_index_writes H ni)) e"
proof (rule returns_for[where I = "\<lambda>ies e. index_ok it dit e \<and>
    chain_room e (sum_list (map (\<lambda>(_, es). entries_segments es) ies) + n) \<and>
    (\<forall>(iid, es) \<in> set ies. index_known ni iid)"])
  fix x ies e e1
  assume I: "index_ok it dit e \<and>
    chain_room e (sum_list (map (\<lambda>(_, es). entries_segments es) (x # ies)) + n) \<and>
    (\<forall>(iid, es) \<in> set (x # ies). index_known ni iid)"
  obtain index es where x: "x = (index, es)" by (cases x)
  have room: "chain_room e (entries_segments es + (sum_list (map (\<lambda>(_, es). entries_segments es) ies) + n))"
    using I by (simp add: x add.assoc)
  have known: "index_known ni index" using I x by simp
  show "returns (put_index_writes H ni x) e"
    unfolding x put_index_writes_def prod.case
  proof (rule returns_bind, rule resolve_returns(2), rule known)
    fix iid e0 assume "act_read (\<lambda>_. resolve_index_id index ni) e = (Inr iid, e0)"
    then have "e0 = e" by (simp add: act_Inr)
    then show "returns (act_for es (put_index_write H iid)) e0"
      using put_entries_returns[OF H _ room] I by simp
  qed
  assume "put_index_writes H ni x e = (Inr (), e1)"
  then have "act_for [x] (put_index_writes H ni) e = (Inr (), e1)" by (simp add: act_Inr)
  moreover have "chain_room e (sum_list (map (\<lambda>(_, es). entries_segments es) [x]) +
      (sum_list (map (\<lambda>(_, es). entries_segments es) ies) + n))" using room x by simp
  ultimately show "index_ok it dit e1 \<and>
      chain_room e1 (sum_list (map (\<lambda>(_, es). entries_segments es) ies) + n) \<and>
      (\<forall>(iid, es) \<in> set ies. index_known ni iid)"
    using put_index_writes_spec[OF H(1)] I by fastforce
qed (use ok in simp)

text \<open>A collection of a batch: its id resolves, its index ids too, and when it sets metadata the
  catalog has the collection.\<close>

definition collection_legal ::
  "(bytes \<Rightarrow> bytes option) \<Rightarrow> (collection_id \<Rightarrow> collection_id option) \<Rightarrow>
   (index_id \<Rightarrow> index_id option) \<Rightarrow> collection_id \<times> collection_write_set \<Rightarrow> bool" where
  "collection_legal names nc ni = (\<lambda>(cid, data).
     (0 \<le> i64_val cid \<or> nc cid \<noteq> None) \<and>
     (\<forall>(iid, es) \<in> set (cw_index_entries data). index_known ni iid) \<and>
     (cw_metadata data \<noteq> None \<longrightarrow> (\<exists>n. names n = Some (i64_to_be (resolved nc cid)))))"

lemma put_collection_returns:
  assumes H: "heed_laws H it dit" "heed_live H" and ok: "engine_ok it dit e"
    and nc: "\<forall>tmp c. nc tmp = Some c \<longrightarrow> 0 < i64_val c"
    and legal: "collection_legal (names_of it e) nc ni (cid, data)"
    and room: "chain_room e (collection_segments data + n)"
  shows "returns (put_collection H nc ni ts (cid, data)) e"
  unfolding put_collection_def prod.case
proof (rule returns_bind, rule resolve_returns(1))
  show "0 \<le> i64_val cid \<or> nc cid \<noteq> None" using legal by (simp add: collection_legal_def)
  fix c e0 assume "act_read (\<lambda>_. resolve_collection_id cid nc) e = (Inr c, e0)"
  then have e0: "e0 = e" and c: "c = resolved nc cid" "0 \<le> i64_val c"
    using resolve_collection_resolved[OF _ nc] by (auto simp: act_Inr)
  show "returns (act_then (act_for (cw_documents data) (put_document_write H c ts))
      (act_then (act_for (cw_index_entries data) (put_index_writes H ni))
      (case cw_metadata data of Some m \<Rightarrow> update_collection_metadata H c m ts
        | None \<Rightarrow> act_return ()))) e0"
  proof (rule returns_then, rule put_documents_returns[OF H(2)], rule returns_then)
    fix u e1 assume 1: "act_for (cw_documents data) (put_document_write H c ts) e0 = (Inr u, e1)"
    have same: "index_part e1 = index_part e" "catalog_part e1 = catalog_part e"
      using after_documents[OF 1] e0 by simp_all
    have i1: "index_ok it dit e1" "chain_room e1 (collection_segments data + n)"
      using ok room index_part_cong[OF same(1)] by (simp_all add: engine_ok_def)
    show "returns (act_for (cw_index_entries data) (put_index_writes H ni)) e1"
      by (rule put_index_writes_returns[OF H i1(1) i1(2)[unfolded collection_segments_def]])
        (use legal in \<open>auto simp: collection_legal_def\<close>)
    fix u' e2 assume 2: "act_for (cw_index_entries data) (put_index_writes H ni) e1 = (Inr u', e2)"
    have "catalog_part e2 = catalog_part e" using after_indexes[OF 2] same(2) by simp
    note cat = catalog_part_cong(1,2)[OF this]
    show "returns (case cw_metadata data of Some m \<Rightarrow> update_collection_metadata H c m ts
        | None \<Rightarrow> act_return ()) e2"
    proof (cases "cw_metadata data")
      case (Some m)
      then obtain n where "names_of it e2 n = Some (i64_to_be c)"
        using legal cat by (auto simp: collection_legal_def c)
      moreover have "catalog_ok it e2" using ok cat by (simp add: engine_ok_def)
      ultimately show ?thesis using update_metadata_returns[OF H] Some by simp
    qed (simp add: returns_return)
  qed
qed

lemma put_collections_returns:
  assumes H: "heed_laws H it dit" "heed_live H" and ok: "engine_ok it dit e"
    and nc: "\<forall>tmp c. nc tmp = Some c \<longrightarrow> 0 < i64_val c"
    and legal: "\<forall>x \<in> set cs. collection_legal (names_of it e) nc ni x"
    and room: "chain_room e (batch_segments cs + n)"
  shows "returns (act_for cs (put_collection H nc ni ts)) e"
proof (rule returns_for[where I = "\<lambda>cs e. engine_ok it dit e \<and>
    chain_room e (batch_segments cs + n) \<and> (\<forall>x \<in> set cs. collection_legal (names_of it e) nc ni x)"])
  fix x cs e e1
  assume I: "engine_ok it dit e \<and> chain_room e (batch_segments (x # cs) + n) \<and>
    (\<forall>x \<in> set (x # cs). collection_legal (names_of it e) nc ni x)"
  obtain cid data where x: "x = (cid, data)" by (cases x)
  have room: "chain_room e (collection_segments data + (batch_segments cs + n))"
    using I by (simp add: x batch_segments_def add.assoc)
  have e: "engine_ok it dit e" "collection_legal (names_of it e) nc ni (cid, data)" using I x by simp_all
  show "returns (put_collection H nc ni ts x) e"
    unfolding x by (rule put_collection_returns[OF H e(1) nc e(2) room])
  assume "put_collection H nc ni ts x e = (Inr (), e1)"
  from put_collection_spec[OF H(1) this[unfolded x] e(1) nc room] I
  show "engine_ok it dit e1 \<and> chain_room e1 (batch_segments cs + n) \<and>
      (\<forall>x \<in> set cs. collection_legal (names_of it e1) nc ni x)" by simp
qed (use ok legal room in simp)

lemma returns_metadata: "heed_live H \<Longrightarrow> legal_key k \<Longrightarrow> returns (metadata_put H k v) e"
  by (rule returns_put)

lemma set_ts_in_returns:
  assumes "heed_live H" "e_ts e \<le> ts"
  shows "returns (set_ts_in H ts) e"
  using returns_metadata[OF assms(1) legal_metadata_keys(1), of ts "e\<lparr>e_ts := ts\<rparr>"] assms(2)
  by (auto simp: set_ts_in_def returns_def)

lemma save_counter_returns:
  assumes "heed_live H"
  shows "returns (save_collection_counter H) e" "returns (save_index_counter H) e"
    "returns (save_chain_counter H) e"
  using returns_metadata[OF assms legal_metadata_keys(3), of _ "e\<lparr>collection_id_counter_changed := False\<rparr>"]
    returns_metadata[OF assms legal_metadata_keys(4), of _ "e\<lparr>index_id_counter_changed := False\<rparr>"]
    returns_metadata[OF assms legal_metadata_keys(2), of _ "e\<lparr>index_chain_id_counter_changed := False\<rparr>"]
  by (auto simp: save_collection_counter_def save_index_counter_def save_chain_counter_def returns_def)

lemma save_counters_returns: "heed_live H \<Longrightarrow> returns (save_counters H) e"
  unfolding save_counters_def by (intro returns_then save_counter_returns)

section \<open>Legal batches\<close>

text \<open>
  Everything \<open>put\<close> can object to: a batch older than the engine, names that LMDB does not take as
  keys, ids that nothing declares, metadata for a collection that is not in the catalog.
\<close>

definition batch_legal ::
  "('d \<Rightarrow> (bytes \<times> bytes) list) \<Rightarrow> ('d, 'l) engine \<Rightarrow> write_set \<Rightarrow> bool" where
  "batch_legal it e w \<longleftrightarrow>
     e_ts e \<le> ws_ts w \<and>
     (\<forall>(tmp, n) \<in> set (ws_new_collections w). legal_key n) \<and>
     index_declarations_ok (\<lambda>cid. 0 \<le> i64_val cid \<or> map_of (ws_new_collections w) cid \<noteq> None)
       (ws_new_indexes w) \<and>
     (\<forall>(cid, data) \<in> set (ws_collections w).
        (0 \<le> i64_val cid \<or> map_of (ws_new_collections w) cid \<noteq> None) \<and>
        (\<forall>(iid, es) \<in> set (cw_index_entries data).
           0 \<le> i64_val iid \<or> last_declaration (ws_new_indexes w) iid \<noteq> None) \<and>
        (cw_metadata data \<noteq> None \<longrightarrow> 0 \<le> i64_val cid \<longrightarrow>
           (\<exists>n. names_of it e n = Some (i64_to_be cid))))"

lemma batch_collections_legal:
  assumes legal: "batch_legal it e w" and sub: "names_of it e \<subseteq>\<^sub>m names_of it e1"
    and nc: "\<forall>tmp n. map_of (ws_new_collections w) tmp = Some n \<longrightarrow>
       (\<exists>c. nc tmp = Some c \<and> names_of it e1 n = Some (i64_to_be c))"
    and ni: "\<forall>tmp. last_declaration (ws_new_indexes w) tmp \<noteq> None \<longrightarrow> ni tmp \<noteq> None"
  shows "\<forall>x \<in> set (ws_collections w). collection_legal (names_of it e1) nc ni x"
proof
  fix x assume x: "x \<in> set (ws_collections w)"
  obtain cid data where p: "x = (cid, data)" by (cases x)
  have l: "0 \<le> i64_val cid \<or> map_of (ws_new_collections w) cid \<noteq> None"
    "\<forall>(iid, es) \<in> set (cw_index_entries data).
       0 \<le> i64_val iid \<or> last_declaration (ws_new_indexes w) iid \<noteq> None"
    "cw_metadata data \<noteq> None \<Longrightarrow> 0 \<le> i64_val cid \<Longrightarrow> \<exists>n. names_of it e n = Some (i64_to_be cid)"
    using legal x p unfolding batch_legal_def by auto
  have "0 \<le> i64_val cid \<or> nc cid \<noteq> None" using l(1) nc by fastforce
  moreover have "\<forall>(iid, es) \<in> set (cw_index_entries data). index_known ni iid" using l(2) ni by fast
  moreover have "\<exists>n. names_of it e1 n = Some (i64_to_be (resolved nc cid))" if "cw_metadata data \<noteq> None"
  proof (cases "0 \<le> i64_val cid")
    case True
    then show ?thesis using l(3)[OF that] map_le_Some[OF sub] by (auto simp: resolved_def)
  next
    case False
    then show ?thesis using l(1) nc by (fastforce simp: resolved_def)
  qed
  ultimately show "collection_legal (names_of it e1) nc ni x" by (simp add: p collection_legal_def)
qed

lemma put_body_returns:
  assumes H: "heed_laws H it dit" "heed_live H"
    and ok: "engine_ok it dit e" "batch_ok w" "batch_room e w" "index_catalog_ok it e"
      "index_names_ok (ws_new_indexes w)" "index_id_room e (new_index_count (ws_new_indexes w))"
    and legal: "batch_legal it e w"
  shows "returns (put_body H w) e"
  unfolding put_body_def
proof (rule returns_bind)
  have bt: "bt_ok (ws_new_collections w)" using ok(2) by (simp add: batch_ok_def ws_ok_def)
  have cat: "catalog_ok it e" "\<forall>(tmp, n) \<in> set (ws_new_collections w). name_ok n"
    "collection_room e (length (ws_new_collections w) + 0)"
    using ok by (simp_all add: engine_ok_def batch_ok_def batch_room_def)
  have names: "\<forall>(tmp, n) \<in> set (ws_new_collections w). name_ok n \<and> legal_key n"
    using cat(2) legal by (auto simp: batch_legal_def)
  show "returns (create_collections H (ws_ts w) (ws_new_collections w) (\<lambda>_. None)) e"
    by (rule create_collections_returns[OF H cat(1) names cat(3)])
  fix nc e1 assume 1: "create_collections H (ws_ts w) (ws_new_collections w) (\<lambda>_. None) e = (Inr nc, e1)"
  have s: "catalog_ok it e1" "names_of it e \<subseteq>\<^sub>m names_of it e1" "\<forall>tmp c. nc tmp = Some c \<longrightarrow> 0 < i64_val c"
    "\<forall>tmp n. map_of (ws_new_collections w) tmp = Some n \<longrightarrow>
       (\<exists>c. nc tmp = Some c \<and> names_of it e1 n = Some (i64_to_be c))"
    using create_collections_spec[OF H(1) 1 cat bt] by blast+
  note same = index_catalog_part_cong[OF after_others(1)[OF 1]]
  have i1: "index_catalog_ok it e1" "index_id_room e1 (new_index_count (ws_new_indexes w) + 0)"
    using ok(4,6) same by simp_all
  have decl: "index_declarations_ok (\<lambda>cid. 0 \<le> i64_val cid \<or> nc cid \<noteq> None) (ws_new_indexes w)"
    using legal s(4) by (fastforce simp: batch_legal_def index_declarations_ok_def)
  show "returns (act_bind (create_indexes H nc (ws_new_indexes w) (\<lambda>_. None)) (\<lambda>ni.
      act_then (act_for (ws_collections w) (put_collection H nc ni (ws_ts w)))
      (act_then (set_ts_in H (ws_ts w)) (save_counters H)))) e1"
  proof (rule returns_bind)
    show "returns (create_indexes H nc (ws_new_indexes w) (\<lambda>_. None)) e1"
      by (rule create_indexes_returns[OF H s(3) i1(1) ok(5) decl i1(2)])
    fix ni e2 assume 2: "create_indexes H nc (ws_new_indexes w) (\<lambda>_. None) e1 = (Inr ni, e2)"
    have ni: "\<forall>tmp. case last_declaration (ws_new_indexes w) tmp of None \<Rightarrow> ni tmp = None
      | Some (cid, x) \<Rightarrow> \<exists>i. ni tmp = Some i \<and> has_index (index_rows it e2) (resolved nc cid) (icw_name x) i"
      using create_indexes_spec[OF H(1) s(3) 2 i1(1) ok(5) i1(2)] by blast
    have ni': "ni tmp \<noteq> None" if "last_declaration (ws_new_indexes w) tmp \<noteq> None" for tmp
      using ni[rule_format, of tmp] that by auto
    note f1 = after_create_collections[OF 1] and f2 = after_create_indexes[OF 2]
    have ok2: "engine_ok it dit e2" "chain_room e2 (batch_segments (ws_collections w) + 0)"
      using ok(1,3) s(1) f1 f2(1,2) index_part_cong[of e2 e] catalog_part_cong[OF f2(3)]
      by (simp_all add: engine_ok_def batch_room_def)
    have col: "\<forall>x \<in> set (ws_collections w). collection_legal (names_of it e2) nc ni x"
      using batch_collections_legal[OF legal s(2,4)] ni' catalog_part_cong(2)[OF f2(3)] by metis
    show "returns (act_then (act_for (ws_collections w) (put_collection H nc ni (ws_ts w)))
        (act_then (set_ts_in H (ws_ts w)) (save_counters H))) e2"
    proof (rule returns_then, rule put_collections_returns[OF H ok2(1) s(3) col ok2(2)], rule returns_then)
      fix u e3 assume 3: "act_for (ws_collections w) (put_collection H nc ni (ws_ts w)) e2 = (Inr u, e3)"
      have "timestamps e3 = timestamps e"
        using preserves_eq[OF put_body_before_ts(3) 3] preserves_eq[OF put_body_before_ts(2) 2]
          preserves_eq[OF put_body_before_ts(1) 1] by simp
      then show "returns (set_ts_in H (ws_ts w)) e3"
        using legal by (intro set_ts_in_returns H(2)) (simp add: timestamps_def batch_legal_def)
    qed (rule save_counters_returns[OF H(2)])
  qed
qed

lemma engine_put_returns:
  assumes "heed_laws H it dit" "heed_live H"
    and "engine_ok it dit e" "batch_ok w" "batch_room e w" "index_catalog_ok it e"
      "index_names_ok (ws_new_indexes w)" "index_id_room e (new_index_count (ws_new_indexes w))"
      "batch_legal it e w"
  obtains e' where "engine_put H w e = (Inr (), e')"
proof -
  obtain e' where "put_body H w e = (Inr (), e')"
    using put_body_returns[OF assms] by (auto simp: returns_def)
  then have "engine_put H w e = (Inr (), e')"
    using assms(2) by (simp add: engine_put_def write_txn_def heed_live_def heed_call_def map_err_def)
  then show thesis by (rule that)
qed

end
