(* ===== verification/Engine_Runs.thy ===== *)
theory Engine_Runs
  imports Engine_Liveness
begin

text \<open>
  Sequences of calls on the write side of the \<open>Datastore\<close> trait (\<open>storage/src/traits.rs\<close>) as
  \<open>HeedStorageEngine\<close> serves them, calls that fail included. An error keeps the counters and the
  timestamp a batch has already moved, so the first section bounds how far they move; then every
  state of a run satisfies the invariants, and a run refines the abstract store \<open>abstract_run\<close>, in
  which a committed batch changes the view of every reader at or after its timestamp and nothing
  else changes any view.
\<close>

section \<open>How far a counter moves\<close>

definition advances :: "('s \<Rightarrow> u64) \<Rightarrow> nat \<Rightarrow> ('s, 'e, 'a) act \<Rightarrow> bool" where
  "advances f n m \<longleftrightarrow> (\<forall>s. \<exists>k \<le> n. f (snd (m s)) = f s + of_nat k)"

lemma advances_preserves: "preserves f m \<Longrightarrow> advances f n m"
  by (auto simp: advances_def preserves_def intro: exI[of _ 0])

lemma advances_less: "advances f n m \<Longrightarrow> n \<le> n' \<Longrightarrow> advances f n' m"
  unfolding advances_def by (meson le_trans)

lemma advances_one: "(\<And>s. f (snd (m s)) = f s + 1) \<Longrightarrow> advances f (Suc 0) m"
  by (auto simp: advances_def intro: exI[of _ 1])

lemma advances_bind:
  assumes "advances f a m" "\<And>x. advances f b (g x)"
  shows "advances f (a + b) (act_bind m g)"
  unfolding advances_def
proof
  fix s
  obtain r s1 where m: "m s = (r, s1)" by force
  obtain k where k: "k \<le> a" "f s1 = f s + of_nat k"
    using assms(1) m unfolding advances_def by (metis snd_conv)
  show "\<exists>k \<le> a + b. f (snd (act_bind m g s)) = f s + of_nat k"
  proof (cases r)
    case (Inl e)
    then show ?thesis using m k by (auto simp: act_bind_def intro: exI[of _ k])
  next
    case (Inr x)
    obtain j where "j \<le> b" "f (snd (g x s1)) = f s1 + of_nat j"
      using assms(2)[of x] unfolding advances_def by blast
    then show ?thesis using m k Inr by (auto simp: act_bind_def add.assoc intro!: exI[of _ "k + j"])
  qed
qed

lemma advances_then: "advances f a m \<Longrightarrow> advances f b k \<Longrightarrow> advances f (a + b) (act_then m k)"
  by (simp add: act_then_def advances_bind)

text \<open>Only one of the two parts moves the counter.\<close>

lemma advances_bind_left: "advances f a m \<Longrightarrow> (\<And>x. preserves f (g x)) \<Longrightarrow> advances f a (act_bind m g)"
  using advances_bind[of f a m 0 g] by (simp add: advances_preserves)

lemma advances_bind_right: "preserves f m \<Longrightarrow> (\<And>x. advances f b (g x)) \<Longrightarrow> advances f b (act_bind m g)"
  using advances_bind[of f 0 m b g] by (simp add: advances_preserves)

lemma advances_for:
  "(\<And>x. advances f (cost x) (g x)) \<Longrightarrow> advances f (sum_list (map cost xs)) (act_for xs g)"
  by (induction xs) (auto intro: advances_then advances_preserves frame)

lemma advances_write_txn:
  assumes "advances f n body" "\<And>s d. f (s\<lparr>e_dbs := d\<rparr>) = f s"
  shows "advances f n (write_txn H body)"
  unfolding advances_def
proof
  fix e
  obtain r e1 where b: "body e = (r, e1)" by force
  obtain k where k: "k \<le> n" "f e1 = f e + of_nat k"
    using assms(1) b unfolding advances_def by (metis snd_conv)
  show "\<exists>k \<le> n. f (snd (write_txn H body e)) = f e + of_nat k"
    using b k assms(2) by (auto simp: write_txn_def split: sum.splits intro: exI[of _ 0] exI[of _ k])
qed

lemma preserves_part: "preserves f m \<Longrightarrow> (\<And>s. g s = h (f s)) \<Longrightarrow> preserves g m"
  by (simp add: preserves_def)

lemma counter_of_part:
  "preserves catalog_part m \<Longrightarrow> preserves collection_id_counter m"
  "preserves index_catalog_part m \<Longrightarrow> preserves index_id_counter m"
  "preserves index_part m \<Longrightarrow> preserves index_chain_id_counter m"
  by (erule preserves_part[where h = "\<lambda>(_, _, c). c"], simp add: catalog_part_def)
     (erule preserves_part[where h = snd], simp add: index_catalog_part_def,
      erule preserves_part[where h = "\<lambda>(_, _, c). c"], simp add: index_part_def)

section \<open>The counters in a batch\<close>

lemma advances_allocate:
  "advances collection_id_counter (Suc 0) allocate_collection_id"
  "advances index_id_counter (Suc 0) allocate_index_id"
  "advances index_chain_id_counter (Suc 0) allocate_chain_id"
  by (rule advances_one, simp add: allocate_collection_id_def allocate_index_id_def
      allocate_chain_id_def Let_def)+

lemma counters_of_writes [frame]:
  "preserves collection_id_counter (db_write sel upd g)" "preserves index_id_counter (db_write sel upd g)"
  "preserves index_chain_id_counter (db_write sel upd g)" "preserves index_chain_id_counter (leaves_write h)"
  by (rule preserves_db_write preserves_leaves_write, simp)+

lemma advances_create_collections:
  "advances collection_id_counter (length ncs) (create_collections H ts ncs m)"
proof (induction ncs arbitrary: m)
  case (Cons x ncs)
  obtain tmp n where x: "x = (tmp, n)" by (cases x)
  have none: "advances collection_id_counter (Suc 0) (act_bind allocate_collection_id (\<lambda>cid.
      act_then (put_collection_catalog_entry H cid n b ts)
        (act_then (put_collection_id_by_name H n cid) (act_return cid))))" for b
    by (intro advances_bind_left advances_allocate)
      (auto simp: put_collection_catalog_entry_def put_collection_id_by_name_def intro!: frame)
  have "advances collection_id_counter (Suc 0) (create_collection H n None ts)"
    unfolding create_collection_def
  proof (rule advances_bind_right)
    show "preserves collection_id_counter (collection_id_by_name H n)"
      by (auto simp: collection_id_by_name_def intro!: frame)
  qed (simp add: none advances_preserves frame split: option.split)
  from advances_bind[OF this Cons.IH] show ?case by (simp add: x)
qed (simp add: advances_preserves frame)

lemma advances_create_indexes:
  "advances index_id_counter (new_index_count nis) (create_indexes H nc nis m)"
proof -
  have one: "advances index_id_counter (Suc 0) (create_index H c n x)" for c n x
  proof -
    have none: "advances index_id_counter (Suc 0) (act_bind allocate_index_id (\<lambda>iid.
        act_then (db_write indexes_catalog indexes_catalog_update (g iid)) (act_return iid)))" for g
      by (intro advances_bind_left advances_allocate frame)
    show ?thesis
      unfolding create_index_def Let_def
      by (rule advances_bind_right) (simp_all add: none advances_preserves frame split: option.split)
  qed
  have of_one: "advances index_id_counter (length xs) (create_indexes_of H c xs m)" for c xs m
  proof (induction xs arbitrary: m)
    case (Cons p xs)
    show ?case using advances_bind[OF one Cons.IH] by (cases p) simp
  qed (simp add: advances_preserves frame)
  show ?thesis
  proof (induction nis arbitrary: m)
    case (Cons p nis)
    obtain cid t where p: "p = (cid, t)" by (cases p)
    have "advances index_id_counter (length t + new_index_count nis)
        (create_indexes H nc ((cid, t) # nis) m)"
      unfolding create_indexes.simps
      by (rule advances_bind_right[OF preserves_read advances_bind[OF of_one Cons.IH]])
    then show ?case by (simp add: p new_index_count_def)
  qed (simp add: advances_preserves frame new_index_count_def)
qed

lemma chain_counter_frames [frame]:
  "preserves index_chain_id_counter (prune_path H iid path)"
  "preserves index_chain_id_counter (delete_index_entry H iid key did)"
proof -
  show 1: "preserves index_chain_id_counter (prune_path H iid path)" for path
    by (induction path) (auto intro!: frame)
  show "preserves index_chain_id_counter (delete_index_entry H iid key did)"
    by (auto simp: delete_index_entry_def Let_def intro!: frame 1)
qed

lemma advances_make_path: "advances index_chain_id_counter (length ss) (make_path H iid p ss)"
proof (induction ss arbitrary: p)
  case (Cons s ss)
  have none: "advances index_chain_id_counter (Suc 0) (act_bind allocate_chain_id (\<lambda>child.
      act_then (db_write index_edges index_edges_update (g child)) (act_return child)))" for g
    by (intro advances_bind_left advances_allocate frame)
  have "advances index_chain_id_counter (Suc 0) (find_or_create_index_edge H iid p s)"
    unfolding find_or_create_index_edge_def Let_def
    by (rule advances_bind_right) (simp_all add: none advances_preserves frame split: option.split)
  from advances_bind[OF this Cons.IH] show ?case by simp
qed (simp add: advances_preserves frame)

lemma advances_put_index_write:
  "advances index_chain_id_counter (length (split_index_key (pos_value (fst x)))) (put_index_write H iid x)"
proof -
  obtain pos w where x: "x = (pos, w)" by (cases x)
  have "advances index_chain_id_counter (length (butlast (split_index_key key)))
      (put_index_entry H iid key did)" for key did
    unfolding put_index_entry_def Let_def by (intro advances_bind_left advances_make_path frame)
  then have "advances index_chain_id_counter (length (split_index_key key)) (put_index_entry H iid key did)"
    for key did by (rule advances_less) simp
  then show ?thesis
    by (cases w) (auto simp: x put_index_write_def intro!: advances_preserves frame)
qed

lemma advances_put_collections:
  "advances index_chain_id_counter (batch_segments cs) (act_for cs (put_collection H nc ni ts))"
proof -
  have entries: "advances index_chain_id_counter (entries_segments es) (act_for es (put_index_write H iid))"
    for es iid
    using advances_for[OF advances_put_index_write] by (simp add: entries_segments_def split_def)
  have index: "advances index_chain_id_counter (entries_segments (snd y)) (put_index_writes H ni y)" for y
    by (auto simp: put_index_writes_def split_def intro!: advances_bind_right frame entries)
  have indexes: "advances index_chain_id_counter (collection_segments data)
      (act_for (cw_index_entries data) (put_index_writes H ni))" for data
    using advances_for[OF index] by (simp add: collection_segments_def split_def)
  have docs: "preserves index_chain_id_counter (act_for xs (put_document_write H c ts))" for xs c
    by (intro frame counter_of_part)
  have rest: "advances index_chain_id_counter (collection_segments data)
      (act_then (act_for (cw_documents data) (put_document_write H c ts))
      (act_then (act_for (cw_index_entries data) (put_index_writes H ni))
      (case cw_metadata data of Some m \<Rightarrow> update_collection_metadata H c m ts | None \<Rightarrow> act_return ())))"
    for data c unfolding act_then_def
    by (intro advances_bind_right[OF docs] advances_bind_left indexes counter_of_part metadata_frames)
  have "advances index_chain_id_counter (collection_segments (snd x)) (put_collection H nc ni ts x)" for x
    by (auto simp: put_collection_def split_def intro!: advances_bind_right frame rest)
  from advances_for[OF this] show ?thesis by (simp add: batch_segments_def split_def)
qed

lemma collection_counter_put [frame]:
  "preserves collection_id_counter (put_collection H nc ni ts x)"
proof -
  have "preserves collection_id_counter (put_document_write H c ts y)"
    "preserves collection_id_counter (put_index_writes H ni z)" for c y z
    by (rule counter_of_part(1), rule catalog_part_ops)+
  then show ?thesis
    by (auto simp: put_collection_def update_collection_metadata_def collection_by_id_def
        put_collection_catalog_entry_def intro!: frame)
qed

text \<open>A batch moves each counter by at most what it asks for, and so does one that fails.\<close>

lemma put_counters:
  "advances collection_id_counter (length (ws_new_collections w)) (engine_put H w)"
  "advances index_id_counter (new_index_count (ws_new_indexes w)) (engine_put H w)"
  "advances index_chain_id_counter (batch_segments (ws_collections w)) (engine_put H w)"
proof -
  note tail = catalog_part_counters index_catalog_part_counters set_ts_frames(2) save_counters_frames(3)
  have "advances collection_id_counter (length (ws_new_collections w)) (put_body H w)"
    unfolding put_body_def
    by (intro advances_bind_left advances_create_collections preserves_bind preserves_then preserves_for
        collection_counter_put counter_of_part(1)[OF catalog_part_create_indexes]
        catalog_part_counters[THEN counter_of_part(1)])
  moreover have "advances index_id_counter (new_index_count (ws_new_indexes w)) (put_body H w)"
    unfolding put_body_def
    by (intro advances_bind_right advances_bind_left advances_create_indexes preserves_then preserves_for
        counter_of_part(2) tail index_catalog_part_collections index_catalog_part_put)
  moreover have "advances index_chain_id_counter (batch_segments (ws_collections w)) (put_body H w)"
    unfolding put_body_def act_then_def
    by (intro advances_bind_right advances_bind_left advances_put_collections preserves_bind
        counter_of_part(3) tail create_frames)
  ultimately show
    "advances collection_id_counter (length (ws_new_collections w)) (engine_put H w)"
    "advances index_id_counter (new_index_count (ws_new_indexes w)) (engine_put H w)"
    "advances index_chain_id_counter (batch_segments (ws_collections w)) (engine_put H w)"
    unfolding engine_put_def by (simp_all add: advances_write_txn)
qed

section \<open>The invariants after any outcome\<close>

text \<open>Larger counters are harmless.\<close>

lemma trie_ok_counter:
  assumes "trie_ok E L c" "c \<le> c'"
  shows "trie_ok E L c'"
proof -
  have "(\<forall>k v. E k = Some v \<longrightarrow> (\<exists>iid p s c. k = encode_index_node_key iid p s \<and> v = u64_to_be c \<and>
      length s = 495 \<and> p < c \<and> c \<le> c'))"
    using assms unfolding trie_ok_def by (meson order_trans)
  moreover have "\<forall>x \<in> L. \<exists>iid n s d. x = leaf iid n s d \<and> n \<le> c' \<and> length s \<le> 495 \<and> (s = [] \<longrightarrow> n = 0)"
    using assms unfolding trie_ok_def by (meson order_trans)
  ultimately show ?thesis using assms(1) unfolding trie_ok_def by blast
qed

lemma catalog_rows_ok_counter:
  assumes "catalog_rows_ok names cat c" "unat c \<le> unat c'"
  shows "catalog_rows_ok names cat c'"
  using assms stored_id_mono[OF _ assms(2)] unfolding catalog_rows_ok_def by blast

lemma index_rows_ok_counter:
  assumes "index_rows_ok rows c" "unat c \<le> unat c'"
  shows "index_rows_ok rows c'"
  using assms stored_id_mono[OF _ assms(2)] unfolding index_rows_ok_def by blast

definition store_ok ::
  "('d \<Rightarrow> (bytes \<times> bytes) list) \<Rightarrow> ('l \<Rightarrow> (bytes \<times> bytes) list) \<Rightarrow> ('d, 'l) engine \<Rightarrow> bool" where
  "store_ok it dit e \<longleftrightarrow> engine_inv it dit e \<and> index_catalog_ok it e"

lemma store_ok_same_dbs:
  assumes ok: "store_ok it dit e" and same: "documents (e_dbs e') = documents (e_dbs e)"
    "index_edges (e_dbs e') = index_edges (e_dbs e)" "index_leaves (e_dbs e') = index_leaves (e_dbs e)"
    "collections_catalog (e_dbs e') = collections_catalog (e_dbs e)"
    "collection_ids_by_name (e_dbs e') = collection_ids_by_name (e_dbs e)"
    "indexes_catalog (e_dbs e') = indexes_catalog (e_dbs e)"
    and ts: "e_ts e \<le> e_ts e'"
    and more: "collection_id_counter e \<le> collection_id_counter e'"
    "index_id_counter e \<le> index_id_counter e'" "index_chain_id_counter e \<le> index_chain_id_counter e'"
  shows "store_ok it dit e'"
proof -
  have old: "docs_ok (documents_of it e)" "catalog_rows_ok (names_of it e) (catalog_of it e) (collection_id_counter e)"
    "trie_ok (edges_of it e) (leaves_of dit e) (index_chain_id_counter e)"
    "index_rows_ok (index_rows it e) (index_id_counter e)"
    "\<And>c i t. doc_history (documents_of it e) c i t \<noteq> None \<Longrightarrow> t \<le> e_ts e"
    using ok by (simp_all add: store_ok_def engine_inv_def engine_ok_def catalog_ok_def index_ok_def index_catalog_ok_def)
  have eq: "documents_of it e' = documents_of it e" "names_of it e' = names_of it e"
    "catalog_of it e' = catalog_of it e" "edges_of it e' = edges_of it e" "leaves_of dit e' = leaves_of dit e"
    "index_rows it e' = index_rows it e"
    by (simp_all add: documents_of_def names_of_def catalog_of_def edges_of_def leaves_of_def index_rows_def same)
  have "catalog_ok it e'" unfolding catalog_ok_def eq
    by (rule catalog_rows_ok_counter[OF old(2)]) (use more(1) in \<open>simp add: word_le_nat_alt\<close>)
  moreover have "index_ok it dit e'" unfolding index_ok_def eq by (rule trie_ok_counter[OF old(3) more(3)])
  moreover have "index_catalog_ok it e'" unfolding index_catalog_ok_def eq
    by (rule index_rows_ok_counter[OF old(4)]) (use more(2) in \<open>simp add: word_le_nat_alt\<close>)
  moreover have "t \<le> e_ts e'" if "doc_history (documents_of it e') c i t \<noteq> None" for c i t
    using old(5)[of c i t] that ts eq(1) order_trans by auto
  ultimately show ?thesis using old(1) by (simp add: store_ok_def engine_inv_def engine_ok_def eq(1))
qed

lemma advances_room:
  assumes "advances f n m" "unat (f s) + n < 2 ^ 64" "m s = (r, s')"
  shows "f s \<le> f s'"
proof -
  obtain k where k: "k \<le> n" "f s' = f s + of_nat k"
    using assms(1,3) unfolding advances_def by (metis snd_conv)
  then have "unat (f s') = unat (f s) + k"
    using assms(2) by (simp add: unat_word_ariths unat_of_nat)
  then show ?thesis by (simp add: word_le_nat_alt)
qed

text \<open>What \<open>put\<close> asks of a batch: it was built through the write-set API, and the ids it may need are left.\<close>

definition batch_fits :: "('d, 'l) engine \<Rightarrow> write_set \<Rightarrow> bool" where
  "batch_fits e w \<longleftrightarrow> batch_ok w \<and> batch_room e w \<and> index_names_ok (ws_new_indexes w) \<and>
     index_id_room e (new_index_count (ws_new_indexes w))"

lemma put_store_ok:
  assumes H: "heed_laws H it dit" and run: "engine_put H w e = (r, e')"
    and ok: "store_ok it dit e" "batch_fits e w"
  shows "store_ok it dit e'"
proof (cases r)
  case (Inr u)
  have e: "engine_inv it dit e" "engine_ok it dit e" "index_catalog_ok it e"
    using ok(1) by (simp_all add: store_ok_def engine_inv_def)
  have w: "batch_ok w" "batch_room e w" "index_names_ok (ws_new_indexes w)"
    "index_id_room e (new_index_count (ws_new_indexes w))" using ok(2) by (simp_all add: batch_fits_def)
  have run': "engine_put H w e = (Inr (), e')" using run Inr by simp
  have "index_catalog_ok it e'" by (rule put_indexes[OF H run' e(2) w(1,2) e(3) w(3,4)])
  then show ?thesis using put_inv[OF H run' e(1) w(1,2)] by (simp add: store_ok_def)
next
  case (Inl x)
  have room: "unat (collection_id_counter e) + length (ws_new_collections w) < 2 ^ 64"
    "unat (index_id_counter e) + new_index_count (ws_new_indexes w) < 2 ^ 64"
    "unat (index_chain_id_counter e) + batch_segments (ws_collections w) < 2 ^ 64"
    using ok(2) by (simp_all add: batch_fits_def batch_room_def collection_room_def chain_room_def index_id_room_def)
  have dbs: "e_dbs e' = e_dbs e" using run Inl write_txn_Inl by (simp add: engine_put_def)
  have ts: "e_ts e \<le> e_ts e'" using engine_put_ts[OF run] by auto
  show ?thesis
    by (rule store_ok_same_dbs[OF ok(1) _ _ _ _ _ _ ts])
      (simp_all add: dbs advances_room[OF put_counters(1) room(1) run]
        advances_room[OF put_counters(2) room(2) run] advances_room[OF put_counters(3) room(3) run])
qed

section \<open>Runs\<close>

datatype engine_call =
    Call_put write_set
  | Call_set_ts TS
  | Call_set_visible_ts TS
  | Call_flush

fun serve_call :: "('d, 'l, 'e) heed \<Rightarrow> engine_call \<Rightarrow> ('d, 'l, 'e, unit) engine_act" where
  "serve_call H (Call_put w) = engine_put H w"
| "serve_call H (Call_set_ts ts) = engine_set_ts H ts"
| "serve_call H (Call_set_visible_ts ts) = engine_set_visible_ts H ts"
| "serve_call H Call_flush = engine_flush H"

text \<open>The calls of a run with, for each, whether it returned; an error does not end the run.\<close>

fun engine_calls ::
  "('d, 'l, 'e) heed \<Rightarrow> engine_call list \<Rightarrow> ('d, 'l) engine \<Rightarrow> (engine_call \<times> bool) list \<times> ('d, 'l) engine" where
  "engine_calls H [] e = ([], e)"
| "engine_calls H (c # cs) e =
     (let (r, e1) = serve_call H c e; (log, e2) = engine_calls H cs e1
      in ((c, \<not> isl r) # log, e2))"

fun call_fits :: "('d, 'l) engine \<Rightarrow> engine_call \<Rightarrow> bool" where
  "call_fits e (Call_put w) = batch_fits e w"
| "call_fits e _ = True"

fun calls_fit :: "('d, 'l, 'e) heed \<Rightarrow> engine_call list \<Rightarrow> ('d, 'l) engine \<Rightarrow> bool" where
  "calls_fit H [] e = True"
| "calls_fit H (c # cs) e = (call_fits e c \<and> calls_fit H cs (snd (serve_call H c e)))"

section \<open>The abstract store\<close>

text \<open>
  What every reader sees: a document, by timestamp, collection and id; and the collections by name.
  A history is the timestamp of the newest batch with both.
\<close>

type_synonym view = "TS \<Rightarrow> collection_id \<Rightarrow> document_id \<Rightarrow> bytes option"
type_synonym names = "rstring \<Rightarrow> collection_id option"

record history =
  h_ts :: TS
  h_names :: names
  h_view :: view

definition engine_view :: "('d \<Rightarrow> (bytes \<times> bytes) list) \<Rightarrow> ('d, 'l) engine \<Rightarrow> view" where
  "engine_view it e = (\<lambda>ts c i. doc_visible (documents_of it e) ts c i)"

definition engine_names :: "('d \<Rightarrow> (bytes \<times> bytes) list) \<Rightarrow> ('d, 'l) engine \<Rightarrow> names" where
  "engine_names it e = (\<lambda>n. map_option i64_from_be (names_of it e n))"

definition engine_history :: "('d \<Rightarrow> (bytes \<times> bytes) list) \<Rightarrow> ('d, 'l) engine \<Rightarrow> history" where
  "engine_history it e = \<lparr>h_ts = e_ts e, h_names = engine_names it e, h_view = engine_view it e\<rparr>"

text \<open>
  A batch with the names \<open>N\<close> after it: the names it declares are all that is new, every old name
  keeps its id and no two names share one; a temporary id stands for the name it declares, and
  every temporary id the batch writes to is declared.
\<close>

definition ids_by :: "names \<Rightarrow> write_set \<Rightarrow> collection_id \<Rightarrow> collection_id option" where
  "ids_by N w = (\<lambda>tmp. Option.bind (map_of (ws_new_collections w) tmp) N)"

definition names_after :: "write_set \<Rightarrow> names \<Rightarrow> names \<Rightarrow> bool" where
  "names_after w N N' \<longleftrightarrow>
     N \<subseteq>\<^sub>m N' \<and> dom N' = dom N \<union> snd ` set (ws_new_collections w) \<and> inj_on N' (dom N') \<and>
     (\<forall>(c, _) \<in> set (ws_collections w). i64_val c < 0 \<longrightarrow> ids_by N' w c \<noteq> None)"

definition abstract_put :: "names \<Rightarrow> write_set \<Rightarrow> history \<Rightarrow> history" where
  "abstract_put N w a =
     \<lparr>h_ts = ws_ts w, h_names = N, h_view = (\<lambda>ts c i.
        if ts < ws_ts w then h_view a ts c i
        else read_after (batch_write (ids_by N w) (ws_collections w) c i) (h_view a ts c i))\<rparr>"

lemma abstract_put_names [simp]: "h_names (abstract_put N w a) = N"
  by (simp add: abstract_put_def)

text \<open>
  \<open>abstract_run a log b\<close>: from history \<open>a\<close> the calls lead to \<open>b\<close>. A failed call may still raise the
  timestamp.
\<close>

inductive abstract_run :: "history \<Rightarrow> (engine_call \<times> bool) list \<Rightarrow> history \<Rightarrow> bool" where
  run_end: "abstract_run a [] a"
| run_put: "h_ts a \<le> ws_ts w \<Longrightarrow> names_after w (h_names a) N \<Longrightarrow>
    abstract_run (abstract_put N w a) log b \<Longrightarrow> abstract_run a ((Call_put w, True) # log) b"
| run_set_ts: "h_ts a \<le> ts \<Longrightarrow> abstract_run (a\<lparr>h_ts := ts\<rparr>) log b \<Longrightarrow>
    abstract_run a ((Call_set_ts ts, True) # log) b"
| run_visible: "abstract_run a log b \<Longrightarrow> abstract_run a ((Call_set_visible_ts ts, True) # log) b"
| run_flush: "abstract_run a log b \<Longrightarrow> abstract_run a ((Call_flush, True) # log) b"
| run_failed: "h_ts a \<le> ts \<Longrightarrow> abstract_run (a\<lparr>h_ts := ts\<rparr>) log b \<Longrightarrow>
    abstract_run a ((c, False) # log) b"

text \<open>Below the timestamp of the engine no view ever changes, and no collection changes its id.\<close>

lemma abstract_run_stable:
  "abstract_run a log b \<Longrightarrow>
   h_ts a \<le> h_ts b \<and> h_names a \<subseteq>\<^sub>m h_names b \<and> (\<forall>ts < h_ts a. h_view b ts = h_view a ts)"
proof (induction rule: abstract_run.induct)
  case (run_put a w N log b)
  have "h_view b ts = h_view a ts" if "ts < h_ts a" for ts
  proof -
    have "ts < ws_ts w" using that run_put.hyps(1) by simp
    then show ?thesis using run_put.IH by (simp add: abstract_put_def)
  qed
  moreover have "h_names a \<subseteq>\<^sub>m h_names b"
    using run_put.hyps(2) run_put.IH map_le_trans by (auto simp: names_after_def abstract_put_def)
  ultimately show ?case using run_put by (auto simp: abstract_put_def)
qed auto

text \<open>Nor does the view at a timestamp below those of all batches that committed.\<close>

lemma abstract_run_quiet:
  "abstract_run a log b \<Longrightarrow> \<forall>w. (Call_put w, True) \<in> set log \<longrightarrow> ts < ws_ts w \<Longrightarrow>
   h_view b ts = h_view a ts"
proof (induction rule: abstract_run.induct)
  case (run_put a w N log b)
  then show ?case by (simp add: abstract_put_def)
qed auto

section \<open>Every run refines the abstract store\<close>

text \<open>The names of a well-formed catalog, as ids.\<close>

lemma engine_names_eq:
  assumes "catalog_ok it e"
  shows "names_of it e n = Some (i64_to_be c) \<longleftrightarrow> engine_names it e n = Some c"
    and "dom (engine_names it e) = dom (names_of it e)"
    and "inj_on (engine_names it e) (dom (engine_names it e))"
proof -
  show eq: "names_of it e n = Some (i64_to_be c) \<longleftrightarrow> engine_names it e n = Some c" for n c
  proof (cases "names_of it e n")
    case (Some v)
    obtain c0 where "v = i64_to_be c0" by (rule catalog_name[OF assms Some])
    then show ?thesis using Some by (simp add: engine_names_def)
  qed (simp add: engine_names_def)
  show "dom (engine_names it e) = dom (names_of it e)" by (auto simp: engine_names_def)
  have "\<forall>n n' v. names_of it e n = Some v \<longrightarrow> names_of it e n' = Some v \<longrightarrow> n = n'"
    using assms unfolding catalog_ok_def catalog_rows_ok_def by blast
  then show "inj_on (engine_names it e) (dom (engine_names it e))"
    by (intro inj_onI) (auto simp flip: eq)
qed

lemma put_refines:
  assumes H: "heed_laws H it dit" and run: "engine_put H w e = (Inr (), e')"
    and ok: "engine_inv it dit e" "batch_ok w" "batch_room e w"
  shows "names_after w (engine_names it e) (engine_names it e') \<and>
    engine_history it e' = abstract_put (engine_names it e') w (engine_history it e)"
proof (rule put_visible[OF H run ok])
  fix nc :: "collection_id \<Rightarrow> collection_id option"
  assume new: "\<And>tmp n. map_of (ws_new_collections w) tmp = Some n \<Longrightarrow>
       \<exists>c. nc tmp = Some c \<and> names_of it e' n = Some (i64_to_be c)"
    "\<And>tmp. map_of (ws_new_collections w) tmp = None \<Longrightarrow> nc tmp = None"
    and v: "\<And>ts c i. doc_visible (documents_of it e') ts c i =
       (if ts < ws_ts w then doc_visible (documents_of it e) ts c i
        else read_after (batch_write nc (ws_collections w) c i) (doc_visible (documents_of it e) ts c i))"
    and e': "engine_ok it dit e'" and names: "names_of it e \<subseteq>\<^sub>m names_of it e'"
    "dom (names_of it e') = dom (names_of it e) \<union> snd ` set (ws_new_collections w)"
    and declared: "\<And>cid data. (cid, data) \<in> set (ws_collections w) \<Longrightarrow> i64_val cid < 0 \<Longrightarrow> nc cid \<noteq> None"
  have cat: "catalog_ok it e" "catalog_ok it e'"
    using ok(1) e' by (simp_all add: engine_inv_def engine_ok_def)
  have "nc tmp = ids_by (engine_names it e') w tmp" for tmp
    using new[of tmp] engine_names_eq(1)[OF cat(2)]
    by (cases "map_of (ws_new_collections w) tmp") (auto simp: ids_by_def)
  then have nc: "nc = ids_by (engine_names it e') w" by blast
  have "engine_names it e \<subseteq>\<^sub>m engine_names it e'"
    using names(1) by (auto simp: engine_names_def map_le_def dom_def)
  then have "names_after w (engine_names it e) (engine_names it e')"
    using names(2) engine_names_eq(2,3)[OF cat(2)] engine_names_eq(2)[OF cat(1)] declared
    by (auto simp: names_after_def nc)
  then show ?thesis
    using v engine_put_ts[OF run]
    by (simp add: engine_history_def engine_view_def abstract_put_def nc cong del: if_weak_cong)
qed

text \<open>Everything but the metadata and the timestamps.\<close>

definition store_part :: "('d, 'l) engine \<Rightarrow> ('d \<times> 'l \<times> u64) \<times> ('d \<times> 'd \<times> u64) \<times> ('d \<times> u64) \<times> 'd" where
  "store_part e = (index_part e, catalog_part e, index_catalog_part e, documents (e_dbs e))"

lemmas store_part_defs = store_part_def index_part_def catalog_part_def index_catalog_part_def

lemma store_part_same:
  assumes "store_part e' = store_part e"
  shows "engine_history it e' = (engine_history it e)\<lparr>h_ts := e_ts e'\<rparr>"
    "store_ok it dit e \<Longrightarrow> e_ts e \<le> e_ts e' \<Longrightarrow> store_ok it dit e'"
  using assms
  by (simp add: store_part_defs engine_history_def engine_view_def engine_names_def documents_of_def names_of_def,
      intro store_ok_same_dbs[of it dit e e']) (simp_all add: store_part_defs)

lemma metadata_calls:
  "engine_set_ts H ts e = (r, e') \<Longrightarrow> store_part e' = store_part e \<and> e_ts e \<le> e_ts e' \<and>
     (r = Inr () \<longrightarrow> e_ts e \<le> ts \<and> e_ts e' = ts)"
  "engine_set_visible_ts H ts e = (r, e') \<Longrightarrow> store_part e' = store_part e \<and> e_ts e' = e_ts e"
  "engine_flush H e = (r, e') \<Longrightarrow> e' = e"
  by (auto simp: engine_set_ts_def engine_set_visible_ts_def engine_flush_def write_txn_def set_ts_in_def
      db_write_def act_defs store_part_defs split: sum.splits if_splits)

lemma failed_put_history:
  assumes "engine_put H w e = (Inl x, e')"
  shows "engine_history it e' = (engine_history it e)\<lparr>h_ts := e_ts e'\<rparr> \<and> e_ts e \<le> e_ts e'"
  using engine_put_ts[OF assms] write_txn_Inl[OF assms[unfolded engine_put_def]]
  by (auto simp: engine_history_def engine_view_def engine_names_def documents_of_def names_of_def)

lemma call_store_ok:
  assumes H: "heed_laws H it dit" and run: "serve_call H c e = (r, e')"
    and ok: "store_ok it dit e" "call_fits e c"
  shows "store_ok it dit e'"
proof (cases c)
  case (Call_put w)
  then show ?thesis using put_store_ok[OF H _ ok(1)] run ok(2) by simp
next
  case (Call_set_ts ts)
  then show ?thesis using metadata_calls(1)[of H ts e r e'] run store_part_same(2)[of e' e it dit] ok(1) by simp
next
  case (Call_set_visible_ts ts)
  then show ?thesis using metadata_calls(2)[of H ts e r e'] run store_part_same(2)[of e' e it dit] ok(1) by simp
next
  case Call_flush
  then show ?thesis using metadata_calls(3)[of H e r e'] run ok(1) by simp
qed

lemma call_history:
  assumes H: "heed_laws H it dit" and run: "serve_call H c e = (r, e')"
    and ok: "store_ok it dit e" "call_fits e c"
  shows "e_ts e \<le> e_ts e' \<and>
    (isl r \<or> (\<forall>w. c \<noteq> Call_put w) \<longrightarrow> engine_history it e' = (engine_history it e)\<lparr>h_ts := e_ts e'\<rparr>) \<and>
    (r = Inr () \<longrightarrow> (case c of
       Call_put w \<Rightarrow> e_ts e \<le> ws_ts w \<and> names_after w (engine_names it e) (engine_names it e') \<and>
         engine_history it e' = abstract_put (engine_names it e') w (engine_history it e)
     | Call_set_ts ts \<Rightarrow> e_ts e \<le> ts \<and> e_ts e' = ts
     | _ \<Rightarrow> e_ts e' = e_ts e))"
proof (cases c)
  case (Call_put w)
  then have put: "engine_put H w e = (r, e')" using run by simp
  show ?thesis
  proof (cases r)
    case (Inl x)
    then show ?thesis using failed_put_history[of H w e x e' it] put Call_put by simp
  next
    case (Inr u)
    then have put': "engine_put H w e = (Inr (), e')" using put by simp
    have w: "engine_inv it dit e" "batch_ok w" "batch_room e w"
      using ok Call_put by (simp_all add: store_ok_def batch_fits_def)
    show ?thesis using put_refines[OF H put' w] engine_put_ts[OF put'] Inr Call_put by auto
  qed
next
  case (Call_set_ts ts)
  then show ?thesis using metadata_calls(1)[of H ts e r e'] run store_part_same(1)[of e' e it] by simp
next
  case (Call_set_visible_ts ts)
  then show ?thesis using metadata_calls(2)[of H ts e r e'] run store_part_same(1)[of e' e it] by simp
next
  case Call_flush
  then show ?thesis
    using metadata_calls(3)[of H e r e'] run by (simp add: engine_history_def)
qed

lemma engine_history_fields [simp]:
  "h_ts (engine_history it e) = e_ts e" "h_names (engine_history it e) = engine_names it e"
  "h_view (engine_history it e) = engine_view it e"
  by (simp_all add: engine_history_def)

lemma engine_history_ts [simp]: "(engine_history it e)\<lparr>h_ts := e_ts e\<rparr> = engine_history it e"
  by (simp add: engine_history_def)

lemma call_refines:
  assumes H: "heed_laws H it dit" and run: "serve_call H c e = (r, e')"
    and ok: "store_ok it dit e" "call_fits e c"
    and rest: "abstract_run (engine_history it e') log b"
  shows "abstract_run (engine_history it e) ((c, \<not> isl r) # log) b"
proof (cases "isl r")
  case True
  then show ?thesis
    using run_failed[of "engine_history it e" "e_ts e'" log b c] call_history[OF H run ok] rest by simp
next
  case False
  then have r: "r = Inr ()" by (cases r) simp_all
  note h = call_history[OF H run ok]
  show ?thesis
  proof (cases c)
    case (Call_put w)
    then show ?thesis
      using h r rest run_put[of "engine_history it e" w "engine_names it e'" log b] by simp
  next
    case (Call_set_ts ts)
    then show ?thesis using h r rest run_set_ts[of "engine_history it e" ts log b] by simp
  next
    case (Call_set_visible_ts ts)
    then show ?thesis
      using h r rest run_visible[of "engine_history it e" log b ts] by simp
  next
    case Call_flush
    then show ?thesis
      using h r rest run_flush[of "engine_history it e" log b] by simp
  qed
qed

lemma calls_refine:
  assumes H: "heed_laws H it dit"
  shows "engine_calls H cs e = (log, e') \<Longrightarrow> store_ok it dit e \<Longrightarrow> calls_fit H cs e \<Longrightarrow>
    store_ok it dit e' \<and> abstract_run (engine_history it e) log (engine_history it e')"
proof (induction cs arbitrary: e log)
  case Nil
  then show ?case by (simp add: run_end)
next
  case (Cons c cs)
  obtain r e1 log1 where 1: "serve_call H c e = (r, e1)" and 2: "engine_calls H cs e1 = (log1, e')"
    and log: "log = (c, \<not> isl r) # log1"
    using Cons.prems(1) by (auto simp: Let_def split: prod.splits)
  have fit: "call_fits e c" "calls_fit H cs e1" using Cons.prems(3) 1 by simp_all
  have ok1: "store_ok it dit e1" by (rule call_store_ok[OF H 1 Cons.prems(2) fit(1)])
  from Cons.IH[OF 2 ok1 fit(2)] show ?case
    using call_refines[OF H 1 Cons.prems(2) fit(1)] by (simp add: log)
qed

end
