(* ===== verification/Catalog_Properties.thy ===== *)
theory Catalog_Properties
  imports Sample_Runs Transaction_Catalog Engine_Runs
begin

text \<open>
  The properties of the two catalogs: how a transaction reads them, and what a batch makes of the
  temporary ids of its new indexes. The witnesses run on the sample store.
\<close>

section \<open>Reading the catalogs\<close>


definition sample_tx :: "(log_db, log_dup_db) transaction" where
  "sample_tx = tx_new_collection (I64 (- 1)) [98] (transaction_new (e_dbs sample_engine) 6)"

lemma sample_tx_simps [simp]:
  "tx_dbs sample_tx = e_dbs sample_engine" "tx_ts sample_tx = 6"
  "ws_new_collections (tx_writes sample_tx) = [(I64 (- 1), [98])]" "ws_collections (tx_writes sample_tx) = []"
  by (simp_all add: sample_tx_def tx_new_collection_def tx_write_def transaction_new_def write_set_defs)


text \<open>C24. In a transaction whose pending indexes of the collection have pairwise distinct names, a
  scan of the indexes of the collection visits exactly these and the stored ones whose name no
  pending index has, as far as the start accepts them, each once, in the order of the names, and ends.\<close>

theorem indexes_scan_complete:
  fixes H :: "('d, 'l, 'e) heed" and tx :: "('d, 'l) transaction"
  assumes "heed_laws H it dit" "index_catalog_ok it e" "tx_dbs tx = e_dbs e" "ws_ok (tx_writes tx)"
    "distinct (map (\<lambda>(_, x). icw_name x) (pending_indexes (tx_writes tx) cid))"
  shows "\<exists>touched m xs. get_indexes_catalog_cursor H tx cid start dir = Inr (touched, m) \<and>
    yields (merged_index_catalog_next cid touched dir) m xs \<and> in_order ice_name dir xs \<and>
    (\<forall>x. x \<in> set xs \<longleftrightarrow> tx_index it tx cid x \<and> accepts_start (ice_name x) start dir)"
proof -
  have "index_rows_ok (map_of (it (indexes_catalog (tx_dbs tx)))) (index_id_counter e)"
    using assms(2,3) by (simp add: index_catalog_ok_def index_rows_def)
  then obtain touched m xs where "get_indexes_catalog_cursor H tx cid start dir = Inr (touched, m)"
    "yields (merged_index_catalog_next cid touched dir) m xs" "in_order ice_name dir xs"
    "\<forall>e. e \<in> set xs \<longleftrightarrow> tx_index it tx cid e \<and> accepts_start (ice_name e) start dir"
    by (rule get_indexes_scan[OF assms(1) _ assms(4,5)])
  then show ?thesis by blast
qed

section \<open>Temporary index ids\<close>

text \<open>A batch that creates two collections, each with an index, under one temporary index id.\<close>

definition shared_batch :: write_set where
  "shared_batch = ws_put_index_entry (I64 (- 2)) (I64 (- 1)) [7] 9
     (ws_new_index (I64 (- 1)) (I64 (- 1)) [121] [] (ws_new_index (I64 (- 2)) (I64 (- 1)) [120] []
     (ws_new_collection (I64 (- 1)) [98] (ws_new_collection (I64 (- 2)) [97] (default_write_set\<lparr>ws_ts := 5\<rparr>)))))"

lemma shared_batch_fields:
  "ws_new_collections shared_batch = [(I64 (- 2), [97]), (I64 (- 1), [98])]"
  "ws_new_indexes shared_batch = [(I64 (- 2), [(I64 (- 1), \<lparr>icw_name = [120], icw_metadata = []\<rparr>)]),
     (I64 (- 1), [(I64 (- 1), \<lparr>icw_name = [121], icw_metadata = []\<rparr>)])]"
  "ws_collections shared_batch = [(I64 (- 2), default_collection_write_set
     \<lparr>cw_index_entries := [(I64 (- 1), [(Position [7] 9, Index_put)])]\<rparr>)]" "ws_ts shared_batch = 5"
  by (simp_all add: shared_batch_def write_set_defs ws_new_index_def less_i64_def i64_val_def)

lemma shared_run: "\<exists>e. engine_put log_heed shared_batch empty_engine = (Inr (), e)"
  by (simp add: engine_put_def write_txn_def put_body_def shared_batch_fields run_simps create_index_def
      allocate_index_id_def)

lemma shared_batch_ok:
  "batch_ok shared_batch" "batch_room empty_engine shared_batch" "index_catalog_ok log_items empty_engine"
  "index_names_ok (ws_new_indexes shared_batch)"
  "index_id_room empty_engine (new_index_count (ws_new_indexes shared_batch))"
proof -
  have "ws_ok shared_batch" by (simp add: shared_batch_def)
  moreover have "name_ok [97]" "name_ok [98]" by (simp_all add: name_ok_def)
  ultimately show "batch_ok shared_batch" by (simp add: batch_ok_def shared_batch_fields)
  show "batch_room empty_engine shared_batch"
    by (simp add: batch_room_def collection_room_def chain_room_def batch_segments_def collection_segments_def
      entries_segments_def shared_batch_fields fresh_engine_def split_index_key_short)
  show "index_catalog_ok log_items empty_engine"
    by (simp add: index_catalog_ok_def index_rows_ok_def index_rows_def fresh_engine_def log_dbs_def)
  show "index_names_ok (ws_new_indexes shared_batch)"
    by (simp add: index_names_ok_def shared_batch_fields bt_ok_def)
  show "index_id_room empty_engine (new_index_count (ws_new_indexes shared_batch))"
    by (simp add: index_id_room_def new_index_count_def shared_batch_fields fresh_engine_def)
qed

text \<open>C25. A batch that commits changes the indexes at exactly the positions it names, where a
  temporary index id stands for the index that its last declaration names: the catalog has this
  index, in the stored collection the declaration's collection id stands for. The catalog of the
  indexes keeps its invariant and all of its rows.\<close>

theorem put_resolves_index_ids:
  assumes H: "heed_laws H it dit" and run: "engine_put H w e = (Inr (), e')"
    and ok: "engine_ok it dit e" "batch_ok w" "batch_room e w" "index_catalog_ok it e"
      "index_names_ok (ws_new_indexes w)" "index_id_room e (new_index_count (ws_new_indexes w))"
  shows "index_catalog_ok it e' \<and> index_rows it e \<subseteq>\<^sub>m index_rows it e' \<and>
    (\<exists>nc ni. index_mem it dit e' = batch_positions ni (ws_collections w) (index_mem it dit e) \<and>
      (\<forall>tmp cid x. last_declaration (ws_new_indexes w) tmp = Some (cid, x) \<longrightarrow>
        (\<exists>i. ni tmp = Some i \<and> has_index (index_rows it e') (resolved nc cid) (icw_name x) i)) \<and>
      (\<forall>tmp n. map_of (ws_new_collections w) tmp = Some n \<longrightarrow>
        (\<exists>c. nc tmp = Some c \<and> names_of it e' n = Some (i64_to_be c))))"
proof -
  obtain nc ni where s: "index_catalog_ok it e'" "index_rows it e \<subseteq>\<^sub>m index_rows it e'"
    "index_mem it dit e' = batch_positions ni (ws_collections w) (index_mem it dit e)"
    "stands_for it e' nc w ni"
    "\<forall>tmp n. map_of (ws_new_collections w) tmp = Some n \<longrightarrow>
       (\<exists>c. nc tmp = Some c \<and> names_of it e' n = Some (i64_to_be c))"
    by (rule put_indexes[OF H run ok])
  have "\<exists>i. ni tmp = Some i \<and> has_index (index_rows it e') (resolved nc cid) (icw_name x) i"
    if "last_declaration (ws_new_indexes w) tmp = Some (cid, x)" for tmp cid x
    using s(4)[unfolded stands_for_def, rule_format, of tmp] that by simp
  then show ?thesis using s(1,2,3,5) by blast
qed

theorem put_resolves_index_ids_witness:
  "\<exists>e'. engine_put log_heed shared_batch empty_engine = (Inr (), e') \<and> index_catalog_ok log_items e' \<and>
     (\<exists>c i. names_of log_items e' [98] = Some (i64_to_be c) \<and> has_index (index_rows log_items e') c [121] i)"
proof -
  obtain e' where run: "engine_put log_heed shared_batch empty_engine = (Inr (), e')" using shared_run by blast
  obtain nc ni where p: "index_catalog_ok log_items e'"
    "\<forall>tmp cid x. last_declaration (ws_new_indexes shared_batch) tmp = Some (cid, x) \<longrightarrow>
        (\<exists>i. ni tmp = Some i \<and> has_index (index_rows log_items e') (resolved nc cid) (icw_name x) i)"
    "\<forall>tmp n. map_of (ws_new_collections shared_batch) tmp = Some n \<longrightarrow>
        (\<exists>c. nc tmp = Some c \<and> names_of log_items e' n = Some (i64_to_be c))"
    using put_resolves_index_ids[OF log_heed_laws run engine_ok_empty shared_batch_ok] by (elim exE conjE)
  have "last_declaration (ws_new_indexes shared_batch) (I64 (- 1)) =
      Some (I64 (- 1), \<lparr>icw_name = [121], icw_metadata = []\<rparr>)" by (simp add: shared_batch_fields)
  from p(2)[rule_format, OF this] obtain i where
    "has_index (index_rows log_items e') (resolved nc (I64 (- 1))) [121] i" by auto
  moreover have "map_of (ws_new_collections shared_batch) (I64 (- 1)) = Some [98]"
    by (simp add: shared_batch_fields)
  from p(3)[rule_format, OF this] obtain c where "nc (I64 (- 1)) = Some c"
    "names_of log_items e' [98] = Some (i64_to_be c)" by blast
  ultimately show ?thesis using run p(1) by (auto simp: resolved_def i64_val_def)
qed

section \<open>Batches that commit\<close>

text \<open>C11. On a store whose calls with legal keys succeed, a legal batch commits: no batch fails but
  for being older than the engine, for a name LMDB does not take as a key, for an id that nothing
  declares, or for metadata of a collection that is not in the catalog. The invariants hold again
  afterwards, so the next legal batch commits too.\<close>

theorem legal_batch_commits:
  assumes H: "heed_laws H it dit" "heed_live H"
    and ok: "engine_inv it dit e" "batch_ok w" "batch_room e w" "index_catalog_ok it e"
      "index_names_ok (ws_new_indexes w)" "index_id_room e (new_index_count (ws_new_indexes w))"
    and legal: "batch_legal it e w"
  shows "\<exists>e'. engine_put H w e = (Inr (), e') \<and> e_ts e' = ws_ts w \<and>
    engine_inv it dit e' \<and> index_catalog_ok it e'"
proof -
  have e: "engine_ok it dit e" using ok(1) by (simp add: engine_inv_def)
  obtain e' where run: "engine_put H w e = (Inr (), e')"
    by (rule engine_put_returns[OF H e ok(2-6) legal])
  have "index_catalog_ok it e'" by (rule put_indexes[OF H(1) run e ok(2-6)])
  then show ?thesis using run engine_put_ts[OF run] put_inv[OF H(1) run ok(1-3)] by blast
qed

theorem legal_batch_commits_witness:
  "\<exists>e'. engine_put log_heed shared_batch empty_engine = (Inr (), e') \<and> e_ts e' = 5 \<and>
     engine_inv log_items log_dup_items e'"
proof -
  have "batch_legal log_items empty_engine shared_batch"
    by (simp add: batch_legal_def index_declarations_ok_def shared_batch_fields legal_key_def
        fresh_engine_def write_set_defs)
  from legal_batch_commits[OF log_heed_laws log_heed_live engine_inv_empty shared_batch_ok this]
  show ?thesis by (auto simp: shared_batch_fields)
qed

section \<open>Runs of the engine\<close>

text \<open>C2. Any sequence of calls of \<open>put\<close>, \<open>set_ts\<close>, \<open>set_visible_ts\<close> and \<open>flush\<close>, whatever they
  return, refines the abstract store: a batch that commits gives ids of their own to the names it
  declares that are new, and changes what readers at or after its timestamp see, by its last write
  to each document, temporary collection ids standing for the names they declare; no other call, and
  no call that fails, changes a name or what any reader sees. The invariants hold after every call,
  the timestamp never goes back, a name keeps its id, and what readers below the engine's timestamp
  see never changes again.\<close>

theorem engine_refines_history:
  assumes H: "heed_laws H it dit" and ok: "store_ok it dit e" "calls_fit H cs e"
    and run: "engine_calls H cs e = (log, e')"
  shows "abstract_run (engine_history it e) log (engine_history it e') \<and>
    store_ok it dit e' \<and> e_ts e \<le> e_ts e' \<and> engine_names it e \<subseteq>\<^sub>m engine_names it e' \<and>
    (\<forall>ts < e_ts e. engine_view it e' ts = engine_view it e ts)"
  using calls_refine[OF H run ok] abstract_run_stable[of "engine_history it e" log "engine_history it e'"]
  by simp

definition sample_calls :: "engine_call list" where
  "sample_calls = [Call_put sample_batch, Call_put (second_batch\<lparr>ws_ts := 4\<rparr>), Call_set_ts 7,
     Call_put second_batch]"

lemma sample_batches_fit:
  "batch_fits empty_engine sample_batch"
  "collection_id_counter e = 1 \<Longrightarrow> index_id_counter e = 0 \<Longrightarrow> index_chain_id_counter e = 0 \<Longrightarrow>
   batch_fits e second_batch \<and> batch_fits e (second_batch\<lparr>ws_ts := t\<rparr>)"
proof -
  have "index_names_ok (ws_new_indexes sample_batch) \<and>
      index_id_room empty_engine (new_index_count (ws_new_indexes sample_batch))"
    by (simp add: index_names_ok_def index_id_room_def new_index_count_def sample_batch_def
        write_set_defs fresh_engine_def)
  then show "batch_fits empty_engine sample_batch" using sample_batch_ok by (simp add: batch_fits_def)
  assume "collection_id_counter e = 1" "index_id_counter e = 0" "index_chain_id_counter e = 0"
  then show "batch_fits e second_batch \<and> batch_fits e (second_batch\<lparr>ws_ts := t\<rparr>)"
    by (simp add: batch_fits_def second_batch_def batch_ok_def batch_room_def collection_room_def
        chain_room_def batch_segments_def collection_segments_def write_set_defs index_names_ok_def
        index_id_room_def new_index_count_def ws_ok_def cw_ok_def bt_ok_def)
qed

theorem engine_refines_history_witness:
  "\<exists>log e'. engine_calls log_heed sample_calls empty_engine = (log, e') \<and>
     map snd log = [True, False, True, True] \<and>
     abstract_run (engine_history log_items empty_engine) log (engine_history log_items e') \<and> e_ts e' = 8"
proof -
  have stale: "engine_put log_heed (second_batch\<lparr>ws_ts := 4\<rparr>) sample_engine =
      (Inl (Implementation (Timestamp_lower 4 5)), sample_engine)"
    by (simp add: run_simps second_batch_def sample_engine_def)
  obtain d where set: "engine_set_ts log_heed 7 sample_engine =
      (Inr (), sample_engine\<lparr>e_dbs := (e_dbs sample_engine)\<lparr>metadata_db := d\<rparr>, e_ts := 7\<rparr>)" (is "_ = (_, ?e1)")
    by (simp add: engine_set_ts_def run_simps sample_engine_def)
  obtain e2 where put: "engine_put log_heed second_batch ?e1 = (Inr (), e2)" "e_ts e2 = 8"
    by (simp add: run_simps second_batch_def sample_engine_def)
  have run: "engine_calls log_heed sample_calls empty_engine = (zip sample_calls [True, False, True, True], e2)"
    by (simp add: sample_calls_def sample_run stale set put(1))
  have fit: "calls_fit log_heed sample_calls empty_engine"
    using sample_batches_fit(1) sample_batches_fit(2)[of sample_engine 4] sample_batches_fit(2)[of ?e1 8]
    by (simp add: sample_calls_def sample_run stale set) (simp add: sample_engine_def)
  have ok: "store_ok log_items log_dup_items empty_engine"
    using engine_inv_empty shared_batch_ok(3) by (simp add: store_ok_def)
  from engine_refines_history[OF log_heed_laws ok fit run] put(2) run show ?thesis
    by (auto simp: fresh_engine_def sample_calls_def)
qed

text \<open>The scan of the pending indexes of that batch.\<close>

theorem indexes_scan_complete_witness:
  "\<exists>touched m xs. get_indexes_catalog_cursor log_heed (transaction_new log_dbs 1\<lparr>tx_writes := shared_batch\<rparr>)
       (I64 (- 1)) Unbounded Reverse = Inr (touched, m) \<and>
     yields (merged_index_catalog_next (I64 (- 1)) touched Reverse) m xs \<and>
     \<lparr>ice_collection_id = I64 (- 1), ice_id = I64 (- 1), ice_name = [121], ice_metadata = []\<rparr> \<in> set xs"
proof -
  let ?tx = "transaction_new log_dbs 1\<lparr>tx_writes := shared_batch\<rparr>"
  have db: "tx_dbs ?tx = e_dbs empty_engine" by (simp add: transaction_new_def fresh_engine_def)
  have ws: "ws_ok (tx_writes ?tx)" using shared_batch_ok(1) by (simp add: batch_ok_def)
  have d: "distinct (map (\<lambda>(_, x). icw_name x) (pending_indexes (tx_writes ?tx) (I64 (- 1))))"
    by (simp add: pending_indexes_def shared_batch_fields)
  obtain touched m xs where scan: "get_indexes_catalog_cursor log_heed ?tx (I64 (- 1)) Unbounded Reverse = Inr (touched, m)"
    "yields (merged_index_catalog_next (I64 (- 1)) touched Reverse) m xs"
    "\<forall>x. x \<in> set xs \<longleftrightarrow> tx_index log_items ?tx (I64 (- 1)) x \<and> accepts_start (ice_name x) Unbounded Reverse"
    using indexes_scan_complete[OF log_heed_laws shared_batch_ok(3) db ws d, of Unbounded Reverse] by (elim exE conjE)
  then have "\<lparr>ice_collection_id = I64 (- 1), ice_id = I64 (- 1), ice_name = [121], ice_metadata = []\<rparr> \<in> set xs"
    by (simp add: tx_index_def pending_indexes_def shared_batch_fields)
  with scan show ?thesis by blast
qed

section \<open>Termination of the scans\<close>

lemma progress_index_catalog: "progress length (total (index_catalog_next cid))"
  unfolding progress_def
proof
  fix raw :: "'e raw"
  obtain r raw' where n: "next_raw raw = (r, raw')" "length raw' \<le> length raw"
      "\<forall>x. r = Inr (Some x) \<longrightarrow> length raw' < length raw"
    using progressD[OF progress_next_raw, of raw] unfolding total_def by blast
  then show "\<exists>r c'. total (index_catalog_next cid) raw = Some (r, c') \<and> length c' \<le> length raw \<and>
      (\<forall>x. r = Inr (Some x) \<longrightarrow> length c' < length raw)"
    by (auto simp: total_def index_catalog_next_def split: sum.splits option.splits)
qed

text \<open>C17. The scans of documents and of the two catalogs, that of the collections and that of the
  indexes of a collection, terminate on any store, corrupt rows and failing iterators included: in
  every state of the cursor \<open>next\<close> returns, what is left (the rows of the iterator, the pending writes
  and the entry read ahead) never grows, and every entry given makes it smaller. The scan of the
  positions of an index, which walks the trie, is not one of them: it ends on a well-formed trie
  (\<open>index_scan_agrees_with_get\<close>).\<close>

theorem scans_terminate:
  "progress (merged_size dc_size) (merged_document_next touched dir) \<and>
   progress (merged_size length) (merged_collection_next H tx touched_ids touched_names dir) \<and>
   progress (merged_size length) (merged_index_catalog_next cid touched_names dir)"
  unfolding merged_document_next_def document_next_base_def merged_collection_next_def
    collection_next_base_def collection_catalog_next_def merged_index_catalog_next_def
    index_catalog_next_base_def
  by (intro conjI progress_merged progress_seek progress_document progress_next_raw
      progress_index_catalog)

end
