(* ===== verification/Traits.thy ===== *)
theory Traits
  imports Engine_Runs Transaction_Index Transaction_Catalog
begin

text \<open>
  The traits \<open>DatastoreTransaction\<close> and \<open>Datastore\<close> of \<open>crates/storage/src/traits.rs\<close>: each is a
  record of its methods, and the implementation over \<open>heed3\<close> is a value of it. The locale
  \<open>datastore_contract\<close> is what an implementation promises to a client that opens a transaction,
  writes and reads through it, and commits; the client's theorems are proved in it once. A method
  that takes \<open>&mut self\<close> is an action on the state.
\<close>

section \<open>The traits\<close>

text \<open>\<open>impl DatastoreCursor<Item = 'a>\<close>: the \<open>next\<close> of the cursor and its state.\<close>

type_synonym ('c, 'e, 'a) opened_cursor = "'e storage_error + ('c, 'e, 'a) cursor \<times> 'c"

record ('t, 'e, 'dc, 'ic, 'cc, 'nc) datastore_transaction =
  t_collection :: "'t \<Rightarrow> rstring \<Rightarrow> 'e storage_error + collection_id option"
  t_get :: "'t \<Rightarrow> collection_id \<Rightarrow> document_id \<Rightarrow> 'e storage_error + bytes option"
  t_get_cursor ::
    "'t \<Rightarrow> collection_id \<Rightarrow> document_id cursor_start \<Rightarrow> direction \<Rightarrow> ('dc, 'e, document_entry) opened_cursor"
  t_get_index_cursor ::
    "'t \<Rightarrow> collection_id \<Rightarrow> index_id \<Rightarrow> index_position cursor_start \<Rightarrow> direction \<Rightarrow>
     ('ic, 'e, index_entry) opened_cursor"
  t_get_collections_catalog_cursor ::
    "'t \<Rightarrow> rstring cursor_start \<Rightarrow> direction \<Rightarrow> ('cc, 'e, collection_catalog_entry) opened_cursor"
  t_get_indexes_catalog_cursor ::
    "'t \<Rightarrow> collection_id \<Rightarrow> rstring cursor_start \<Rightarrow> direction \<Rightarrow> ('nc, 'e, index_catalog_entry) opened_cursor"
  t_put :: "collection_id \<Rightarrow> document_id \<Rightarrow> bytes \<Rightarrow> ('t, 'e storage_error, unit) act"
  t_put_many :: "collection_id \<Rightarrow> (document_id \<times> bytes) list \<Rightarrow> ('t, 'e storage_error, unit) act"
  t_put_index_entry ::
    "collection_id \<Rightarrow> index_id \<Rightarrow> bytes \<Rightarrow> document_id \<Rightarrow> ('t, 'e storage_error, unit) act"
  t_put_index_entries ::
    "collection_id \<Rightarrow> (index_id \<times> bytes \<times> document_id) list \<Rightarrow> ('t, 'e storage_error, unit) act"
  t_delete :: "collection_id \<Rightarrow> document_id \<Rightarrow> ('t, 'e storage_error, unit) act"
  t_delete_many :: "collection_id \<Rightarrow> document_id list \<Rightarrow> ('t, 'e storage_error, unit) act"
  t_delete_index_entry ::
    "collection_id \<Rightarrow> index_id \<Rightarrow> bytes \<Rightarrow> document_id \<Rightarrow> ('t, 'e storage_error, unit) act"
  t_delete_index_entries ::
    "collection_id \<Rightarrow> (index_id \<times> bytes \<times> document_id) list \<Rightarrow> ('t, 'e storage_error, unit) act"
  t_new_collection :: "collection_id \<Rightarrow> rstring \<Rightarrow> ('t, 'e storage_error, unit) act"
  t_new_index :: "collection_id \<Rightarrow> index_id \<Rightarrow> rstring \<Rightarrow> bytes \<Rightarrow> ('t, 'e storage_error, unit) act"
  t_update_collection_metadata :: "collection_id \<Rightarrow> bytes \<Rightarrow> ('t, 'e storage_error, unit) act"
  t_into_write_set :: "TS \<Rightarrow> 't \<Rightarrow> write_set"

record ('s, 't, 'e) datastore =
  store_transaction :: "TS \<Rightarrow> ('s, 'e storage_error, 't) act"
  store_put :: "write_set \<Rightarrow> ('s, 'e storage_error, unit) act"
  store_flush :: "('s, 'e storage_error, unit) act"
  store_set_ts :: "TS \<Rightarrow> ('s, 'e storage_error, unit) act"
  store_get_ts :: "('s, 'e storage_error, TS) act"
  store_set_visible_ts :: "TS \<Rightarrow> ('s, 'e storage_error, unit) act"
  store_get_visible_ts :: "('s, 'e storage_error, TS) act"

section \<open>The implementation over heed\<close>

definition heed_transaction ::
  "('d, 'l, 'e) heed \<Rightarrow>
   (('d, 'l) transaction, 'e, ('e document_cursor, document_entry) merged,
    ('e index_frame list, index_entry) merged, ('e raw, collection_catalog_entry) merged,
    ('e raw, index_catalog_entry) merged) datastore_transaction" where
  "heed_transaction H =
     \<lparr>t_collection = tx_collection H,
      t_get = tx_get H,
      t_get_cursor = (\<lambda>tx cid start dir.
        and_then (get_cursor H tx cid start dir) (\<lambda>(touched, m).
        Inr (merged_document_next touched dir, m))),
      t_get_index_cursor = (\<lambda>tx cid iid start dir.
        and_then (get_index_cursor H tx cid iid start dir) (\<lambda>(touched, m).
        Inr (merged_index_next H (index_options tx cid iid start dir) (tx_writes tx) touched, m))),
      t_get_collections_catalog_cursor = (\<lambda>tx start dir.
        and_then (get_collections_catalog_cursor H tx start dir) (\<lambda>(ids, names, m).
        Inr (merged_collection_next H tx ids names dir, m))),
      t_get_indexes_catalog_cursor = (\<lambda>tx cid start dir.
        and_then (get_indexes_catalog_cursor H tx cid start dir) (\<lambda>(touched, m).
        Inr (merged_index_catalog_next cid touched dir, m))),
      t_put = (\<lambda>cid key v. act_modify (tx_put cid key v)),
      t_put_many = (\<lambda>cid docs. act_modify (tx_put_many cid docs)),
      t_put_index_entry = (\<lambda>cid iid key did. act_modify (tx_put_index_entry cid iid key did)),
      t_put_index_entries = (\<lambda>cid es. act_modify (tx_put_index_entries cid es)),
      t_delete = (\<lambda>cid key. act_modify (tx_delete cid key)),
      t_delete_many = (\<lambda>cid keys. act_modify (tx_delete_many cid keys)),
      t_delete_index_entry = (\<lambda>cid iid key did. act_modify (tx_delete_index_entry cid iid key did)),
      t_delete_index_entries = (\<lambda>cid es. act_modify (tx_delete_index_entries cid es)),
      t_new_collection = (\<lambda>cid name. act_modify (tx_new_collection cid name)),
      t_new_index = (\<lambda>cid iid name m. act_modify (tx_new_index cid iid name m)),
      t_update_collection_metadata = (\<lambda>cid m. act_modify (tx_update_collection_metadata cid m)),
      t_into_write_set = into_write_set\<rparr>"

definition heed_datastore ::
  "('d, 'l, 'e) heed \<Rightarrow> (('d, 'l) engine, ('d, 'l) transaction, 'e) datastore" where
  "heed_datastore H =
     \<lparr>store_transaction = engine_transaction H, store_put = engine_put H,
      store_flush = engine_flush H, store_set_ts = engine_set_ts H, store_get_ts = engine_get_ts,
      store_set_visible_ts = engine_set_visible_ts H,
      store_get_visible_ts = engine_get_visible_ts\<rparr>"

section \<open>Sequences of writes\<close>

datatype write_call =
    Tx_put collection_id document_id bytes
  | Tx_put_many collection_id "(document_id \<times> bytes) list"
  | Tx_put_index_entry collection_id index_id bytes document_id
  | Tx_put_index_entries collection_id "(index_id \<times> bytes \<times> document_id) list"
  | Tx_delete collection_id document_id
  | Tx_delete_many collection_id "document_id list"
  | Tx_delete_index_entry collection_id index_id bytes document_id
  | Tx_delete_index_entries collection_id "(index_id \<times> bytes \<times> document_id) list"
  | Tx_new_collection collection_id rstring
  | Tx_new_index collection_id index_id rstring bytes
  | Tx_update_collection_metadata collection_id bytes

fun serve_write ::
  "('t, 'e, 'dc, 'ic, 'cc, 'nc) datastore_transaction \<Rightarrow> write_call \<Rightarrow> ('t, 'e storage_error, unit) act"
where
  "serve_write T (Tx_put cid key v) = t_put T cid key v"
| "serve_write T (Tx_put_many cid docs) = t_put_many T cid docs"
| "serve_write T (Tx_put_index_entry cid iid key did) = t_put_index_entry T cid iid key did"
| "serve_write T (Tx_put_index_entries cid es) = t_put_index_entries T cid es"
| "serve_write T (Tx_delete cid key) = t_delete T cid key"
| "serve_write T (Tx_delete_many cid keys) = t_delete_many T cid keys"
| "serve_write T (Tx_delete_index_entry cid iid key did) = t_delete_index_entry T cid iid key did"
| "serve_write T (Tx_delete_index_entries cid es) = t_delete_index_entries T cid es"
| "serve_write T (Tx_new_collection cid name) = t_new_collection T cid name"
| "serve_write T (Tx_new_index cid iid name m) = t_new_index T cid iid name m"
| "serve_write T (Tx_update_collection_metadata cid m) = t_update_collection_metadata T cid m"

fun serve_writes ::
  "('t, 'e, 'dc, 'ic, 'cc, 'nc) datastore_transaction \<Rightarrow> write_call list \<Rightarrow> ('t, 'e storage_error, unit) act"
where
  "serve_writes T [] = act_return ()"
| "serve_writes T (x # xs) = act_then (serve_write T x) (serve_writes T xs)"

text \<open>The same calls on a write set.\<close>

fun apply_write :: "write_call \<Rightarrow> write_set \<Rightarrow> write_set" where
  "apply_write (Tx_put cid key v) = ws_put cid key v"
| "apply_write (Tx_put_many cid docs) = ws_put_many cid docs"
| "apply_write (Tx_put_index_entry cid iid key did) = ws_put_index_entry cid iid key did"
| "apply_write (Tx_put_index_entries cid es) = ws_put_index_entries cid es"
| "apply_write (Tx_delete cid key) = ws_delete cid key"
| "apply_write (Tx_delete_many cid keys) = ws_delete_many cid keys"
| "apply_write (Tx_delete_index_entry cid iid key did) = ws_delete_index_entry cid iid key did"
| "apply_write (Tx_delete_index_entries cid es) = ws_delete_index_entries cid es"
| "apply_write (Tx_new_collection cid name) = ws_new_collection cid name"
| "apply_write (Tx_new_index cid iid name m) = ws_new_index cid iid name m"
| "apply_write (Tx_update_collection_metadata cid m) = ws_update_collection_metadata cid m"

lemmas ws_call_defs = ws_put_def ws_put_many_def ws_delete_def ws_delete_many_def
  ws_put_index_entry_def ws_put_index_entries_def ws_delete_index_entry_def
  ws_delete_index_entries_def ws_new_collection_def ws_new_index_def
  ws_update_collection_metadata_def write_index_entry_def collection_mut_def

lemma apply_write_ok: "ws_ok w \<Longrightarrow> ws_ok (apply_write x w)"
  by (cases x) simp_all

lemma apply_write_ts: "apply_write x (w\<lparr>ws_ts := ts\<rparr>) = (apply_write x w)\<lparr>ws_ts := ts\<rparr>"
  by (cases x) (simp_all add: ws_call_defs)

lemma serve_write_heed:
  "serve_write (heed_transaction H) x tx = (Inr (), tx\<lparr>tx_writes := apply_write x (tx_writes tx)\<rparr>)"
  by (cases x) (simp_all add: heed_transaction_def act_modify_def tx_put_def tx_put_many_def
      tx_put_index_entry_def tx_put_index_entries_def tx_delete_def tx_delete_many_def
      tx_delete_index_entry_def tx_delete_index_entries_def tx_new_collection_def tx_new_index_def
      tx_update_collection_metadata_def tx_write_def)

section \<open>The contract\<close>

text \<open>
  \<open>good s\<close> is the invariant of the store, \<open>fits s w\<close> what a batch may ask of it, \<open>history\<close> the
  abstract store, and \<open>opened t h ts\<close> says that the transaction \<open>t\<close> was opened at \<open>ts\<close> on a store
  with the history \<open>h\<close>.
\<close>

locale datastore_contract =
  fixes S :: "('s, 't, 'e) datastore"
    and T :: "('t, 'e, 'dc, 'ic, 'cc, 'nc) datastore_transaction"
    and history_of :: "'s \<Rightarrow> history"
    and good :: "'s \<Rightarrow> bool"
    and fits :: "'s \<Rightarrow> write_set \<Rightarrow> bool"
    and opened :: "'t \<Rightarrow> history \<Rightarrow> TS \<Rightarrow> bool"
  assumes transaction_law: "good s \<Longrightarrow> store_transaction S ts s = (Inr t, s') \<Longrightarrow>
      s' = s \<and> opened t (history_of s) ts \<and> t_into_write_set T now t = default_write_set\<lparr>ws_ts := now\<rparr>"
    and write_law: "opened t h ts \<Longrightarrow> serve_write T x t = (r, t') \<Longrightarrow>
      r = Inr () \<and> opened t' h ts \<and>
      t_into_write_set T now t' = apply_write x (t_into_write_set T now t)"
    and get_law: "opened t h ts \<Longrightarrow> t_get T t c i =
      Inr (read_after (ws_document (t_into_write_set T now t) c i) (h_view h ts c i))"
    and scan_law: "opened t h ts \<Longrightarrow> \<exists>nx m xs. t_get_cursor T t c start dir = Inr (nx, m) \<and>
      yields nx m xs \<and> in_order de_id dir xs \<and>
      (\<forall>e. e \<in> set xs \<longleftrightarrow>
         t_get T t c (de_id e) = Inr (Some (de_value e)) \<and> accepts_start (de_id e) start dir)"
    and put_law: "good s \<Longrightarrow> fits s w \<Longrightarrow> store_put S w s = (Inr (), s') \<Longrightarrow>
      good s' \<and> h_ts (history_of s) \<le> ws_ts w \<and>
      names_after w (h_names (history_of s)) (h_names (history_of s')) \<and>
      history_of s' = abstract_put (h_names (history_of s')) w (history_of s)"
    and latest_law: "good s \<Longrightarrow> h_ts (history_of s) \<le> ts \<Longrightarrow>
      h_view (history_of s) ts = h_view (history_of s) (h_ts (history_of s))"
    and names_law: "good s \<Longrightarrow> h_names (history_of s) n = Some c \<Longrightarrow> 0 < i64_val c"

text \<open>A stored collection gets exactly the writes made under its own id, if the batch declares only
  new names.\<close>

lemma batch_write_own:
  assumes ws: "ws_ok w" and names: "names_after w N N'"
    and new: "\<forall>n \<in> snd ` set (ws_new_collections w). N n = None"
    and c: "N n = Some c" "0 < i64_val c"
  shows "batch_write (ids_by N' w) (ws_collections w) c i = ws_document w c i"
proof -
  have own: "cid = c" if "(cid, data) \<in> set (ws_collections w)" "resolved (ids_by N' w) cid = c" for cid data
  proof (rule ccontr)
    assume "cid \<noteq> c"
    then have neg: "i64_val cid < 0" using that(2) by (simp add: resolved_def split: if_splits)
    then have "ids_by N' w cid = Some c"
      using that names unfolding names_after_def by (force simp: resolved_def)
    then obtain m where m: "map_of (ws_new_collections w) cid = Some m" "N' m = Some c"
      by (auto simp: ids_by_def bind_eq_Some_conv)
    have "N' n = Some c" using names c(1) by (auto simp: names_after_def map_le_def dom_def)
    then have "m = n" using names m(2) unfolding names_after_def inj_on_def by (metis domI)
    then show False using new c(1) m(1) by (force dest: map_of_SomeD)
  qed
  show ?thesis
  proof (cases "ws_document w c i")
    case (Some x)
    then show ?thesis using batch_write_stored[OF ws _ Some] c(2) by simp
  next
    case None
    have "map_of (cw_documents data) i = None"
      if "(cid, data) \<in> set (ws_collections w)" "resolved (ids_by N' w) cid = c" for cid data
    proof -
      have "bt_ok (ws_collections w)" using ws by (simp add: ws_ok_def)
      then have "map_of (ws_collections w) c = Some data" using that own[OF that] bt_ok_map_of by metis
      then show ?thesis using None by (simp add: ws_document_def)
    qed
    then have "fold (\<lambda>(cid, data) r.
       if resolved (ids_by N' w) cid = c then (case map_of (cw_documents data) i of None \<Rightarrow> r | Some w \<Rightarrow> Some w)
       else r) cs r = r" if "set cs \<subseteq> set (ws_collections w)" for cs r
      using that by (induction cs arbitrary: r) auto
    then show ?thesis using None by (simp add: batch_write_def)
  qed
qed

context datastore_contract
begin

lemma writes_law:
  "serve_writes T xs t = (r, t') \<Longrightarrow> opened t h ts \<Longrightarrow>
   r = Inr () \<and> opened t' h ts \<and> t_into_write_set T now t' = fold apply_write xs (t_into_write_set T now t)"
proof (induction xs arbitrary: t)
  case (Cons x xs)
  obtain r1 t1 where 1: "serve_write T x t = (r1, t1)" by force
  note x = write_law[OF Cons.prems(2) 1]
  then have "serve_writes T xs t1 = (r, t')" using Cons.prems(1) 1 by (simp add: act_defs)
  from Cons.IH[OF this] x show ?case by simp
qed (simp add: act_defs)

text \<open>What a transaction hands to \<open>put\<close> and what it reads.\<close>

lemma session_state:
  assumes s: "good s" and start: "store_transaction S ts s = (Inr t0, s0)"
    and writes: "serve_writes T xs t0 = (r, t)"
  shows "ws_ok (t_into_write_set T now t)" "ws_ts (t_into_write_set T now t) = now"
    and "opened t (history_of s) ts"
    and "t_get T t c i = Inr (read_after (ws_document (t_into_write_set T now t) c i) (h_view (history_of s) ts c i))"
proof -
  have t0: "opened t0 (history_of s) ts" "t_into_write_set T now t0 = default_write_set\<lparr>ws_ts := now\<rparr>"
    using transaction_law[OF s start] by blast+
  have t: "opened t (history_of s) ts"
    "t_into_write_set T now t = fold apply_write xs (default_write_set\<lparr>ws_ts := now\<rparr>)"
    using writes_law[OF writes t0(1)] t0(2) by simp_all
  have "ws_ok (fold apply_write xs w) \<and> ws_ts (fold apply_write xs w) = now" if "ws_ok w" "ws_ts w = now" for w
    using that
  proof (induction xs arbitrary: w)
    case (Cons x xs)
    have "ws_ts (apply_write x w) = ws_ts w" by (cases x) (simp_all add: ws_call_defs)
    then show ?case using Cons apply_write_ok by simp
  qed simp
  from this[of "default_write_set\<lparr>ws_ts := now\<rparr>"]
  show "ws_ok (t_into_write_set T now t)" "ws_ts (t_into_write_set T now t) = now" unfolding t(2) by simp_all
  show "opened t (history_of s) ts" by (rule t(1))
  show "t_get T t c i = Inr (read_after (ws_document (t_into_write_set T now t) c i) (h_view (history_of s) ts c i))"
    by (rule get_law[OF t(1)])
qed

lemma fresh_reads:
  assumes "good s" "store_transaction S ts s = (Inr t, s')"
  shows "t_get T t c i = Inr (h_view (history_of s) ts c i)"
  using session_state(4)[OF assms, of "[]" "Inr ()" t c i 0] transaction_law[OF assms, of 0]
  by (simp add: act_defs ws_document_def default_write_set_def read_after_def)

text \<open>
  A transaction opened at \<open>ts\<close> on \<open>s\<close> is committed on \<open>s1\<close>. A transaction opened at or after the commit
  reads what the session wrote, and apart from that what a transaction opened just before the commit reads.
\<close>

lemma commit_is_seen:
  assumes s: "good s" and start: "store_transaction S ts s = (Inr t0, s0)"
    and writes: "serve_writes T xs t0 = (r, t)" and w: "t_into_write_set T now t = w"
    and s1: "good s1" "fits s1 w" "store_put S w s1 = (Inr (), s2)"
    and new: "\<forall>n \<in> snd ` set (ws_new_collections w). h_names (history_of s1) n = None"
    and s3: "good s3" "h_view (history_of s3) ts' = h_view (history_of s2) ts'"
    and later: "now \<le> ts'" "store_transaction S ts' s3 = (Inr t', s4)"
    and before: "store_transaction S ts' s1 = (Inr u, s5)"
    and c: "h_names (history_of s1) n = Some c"
  shows "t_get T t' c i = (if ws_document w c i = None then t_get T u c i else t_get T t c i)"
    and "h_view (history_of s1) ts' = h_view (history_of s) ts \<Longrightarrow> t_get T t' c i = t_get T t c i"
proof -
  have t: "ws_ok w" "ws_ts w = now"
    "t_get T t c i = Inr (read_after (ws_document w c i) (h_view (history_of s) ts c i))"
    using session_state[OF s start writes] unfolding w[symmetric] by blast+
  have p: "names_after w (h_names (history_of s1)) (h_names (history_of s2))"
    "history_of s2 = abstract_put (h_names (history_of s2)) w (history_of s1)"
    using put_law[OF s1] by blast+
  have "t_get T t' c i = Inr (h_view (history_of s2) ts' c i)"
    using fresh_reads[OF s3(1) later(2)] s3(2) by simp
  also have "h_view (history_of s2) ts' c i =
      read_after (ws_document w c i) (h_view (history_of s1) ts' c i)"
    using leD[OF later(1)] t(2) batch_write_own[OF t(1) p(1) new c names_law[OF s1(1) c]]
    by (subst p(2)) (simp add: abstract_put_def)
  finally have t': "t_get T t' c i = Inr (read_after (ws_document w c i) (h_view (history_of s1) ts' c i))" .
  then show "t_get T t' c i = (if ws_document w c i = None then t_get T u c i else t_get T t c i)"
    using t(3) fresh_reads[OF s1(1) before] by (auto simp: read_after_def)
  show "t_get T t' c i = t_get T t c i" if "h_view (history_of s1) ts' = h_view (history_of s) ts"
    using t' t(3) that by simp
qed

text \<open>Two stores with one view at a timestamp give transactions at it the same reads.\<close>

lemma same_view_same_reads:
  assumes "good s" "good s'" "h_view (history_of s') ts = h_view (history_of s) ts"
    and "store_transaction S ts s = (Inr t, s0)" "store_transaction S ts s' = (Inr t', s1)"
  shows "t_get T t' c i = t_get T t c i"
  using fresh_reads[OF assms(1,4)] fresh_reads[OF assms(2,5)] assms(3) by simp

text \<open>Transactions that read the same documents scan the same.\<close>

lemma same_gets_same_scan:
  assumes t: "opened t h ts" "opened t' h' ts'" and same: "\<And>i. t_get T t' c i = t_get T t c i"
  shows "\<exists>nx m nx' m' xs. t_get_cursor T t c start dir = Inr (nx, m) \<and> yields nx m xs \<and>
    t_get_cursor T t' c start dir = Inr (nx', m') \<and> yields nx' m' xs"
proof -
  obtain nx m xs where x: "t_get_cursor T t c start dir = Inr (nx, m)" "yields nx m xs" "in_order de_id dir xs"
    "\<forall>e. e \<in> set xs \<longleftrightarrow> t_get T t c (de_id e) = Inr (Some (de_value e)) \<and> accepts_start (de_id e) start dir"
    using scan_law[OF t(1)] by blast
  obtain nx' m' ys where y: "t_get_cursor T t' c start dir = Inr (nx', m')" "yields nx' m' ys" "in_order de_id dir ys"
    "\<forall>e. e \<in> set ys \<longleftrightarrow> t_get T t' c (de_id e) = Inr (Some (de_value e)) \<and> accepts_start (de_id e) start dir"
    using scan_law[OF t(2)] by blast
  have "set ys = set xs" using x(4) y(4) same by auto
  then have "ys = xs" using in_order_unique[OF y(3) x(3)] by simp
  then show ?thesis using x y by blast
qed

end

section \<open>The contract holds\<close>

definition heed_opened ::
  "('d \<Rightarrow> (bytes \<times> bytes) list) \<Rightarrow> ('d, 'l) transaction \<Rightarrow> history \<Rightarrow> TS \<Rightarrow> bool" where
  "heed_opened it tx h ts \<longleftrightarrow>
     docs_ok (it (documents (tx_dbs tx))) \<and> ws_ok (tx_writes tx) \<and> tx_ts tx = ts \<and>
     h_view h = (\<lambda>ts c i. doc_visible (it (documents (tx_dbs tx))) ts c i)"

lemma heed_datastore_calls:
  "store_put (heed_datastore H) = engine_put H"
  "store_transaction (heed_datastore H) = engine_transaction H"
  "t_get (heed_transaction H) = tx_get H"
  "t_into_write_set (heed_transaction H) now tx = (tx_writes tx)\<lparr>ws_ts := now\<rparr>"
  by (simp_all add: heed_datastore_def heed_transaction_def into_write_set_def)

lemma engine_transaction_opened:
  assumes "store_ok it dit e" "engine_transaction H ts e = (Inr tx, e')"
  shows "e' = e \<and> tx = transaction_new (e_dbs e) ts \<and> heed_opened it tx (engine_history it e) ts"
proof -
  have tx: "e' = e" "tx = transaction_new (e_dbs e) ts"
    using assms(2) by (auto simp: engine_transaction_def act_Inr)
  then show ?thesis
    using assms(1) by (simp add: heed_opened_def transaction_new_def store_ok_def engine_inv_def
        engine_ok_def engine_view_def documents_of_def fun_eq_iff)
qed

lemma latest_view:
  assumes "engine_inv it dit e" "e_ts e \<le> ts"
  shows "engine_view it e ts = engine_view it e (e_ts e)"
proof (intro ext)
  fix c i
  have "newest (doc_history (documents_of it e) c i) ts = newest (doc_history (documents_of it e) c i) (e_ts e)"
    by (rule newest_latest) (use assms in \<open>auto simp: engine_inv_def\<close>)
  then show "engine_view it e ts c i = engine_view it e (e_ts e) c i"
    by (simp add: engine_view_def doc_visible_def)
qed

lemma heed_contract:
  fixes H :: "('d, 'l, 'e) heed"
  assumes H: "heed_laws H it dit"
  shows "datastore_contract (heed_datastore H) (heed_transaction H) (engine_history it)
    (store_ok it dit) batch_fits (heed_opened it)"
proof
  fix e e' :: "('d, 'l) engine" and ts tx now
  assume "store_ok it dit e" "store_transaction (heed_datastore H) ts e = (Inr tx, e')"
  then show "e' = e \<and> heed_opened it tx (engine_history it e) ts \<and>
      t_into_write_set (heed_transaction H) now tx = default_write_set\<lparr>ws_ts := now\<rparr>"
    using engine_transaction_opened[of it dit e H ts tx e']
    by (auto simp: heed_datastore_calls transaction_new_def)
next
  fix tx tx' :: "('d, 'l) transaction" and h ts x r now
  assume "heed_opened it tx h ts" "serve_write (heed_transaction H) x tx = (r, tx')"
  then show "r = Inr () \<and> heed_opened it tx' h ts \<and> t_into_write_set (heed_transaction H) now tx' =
      apply_write x (t_into_write_set (heed_transaction H) now tx)"
    by (auto simp: serve_write_heed heed_opened_def heed_datastore_calls apply_write_ok apply_write_ts)
next
  fix tx :: "('d, 'l) transaction" and h ts c i now
  assume "heed_opened it tx h ts"
  then show "t_get (heed_transaction H) tx c i = Inr (read_after
      (ws_document (t_into_write_set (heed_transaction H) now tx) c i) (h_view h ts c i))"
    using tx_get_view[OF H, of tx c i]
    by (simp add: heed_datastore_calls heed_opened_def tx_view_def read_after_def written_def
        ws_document_def split: option.splits document_write.splits)
next
  fix tx :: "('d, 'l) transaction" and h ts c start dir
  assume o: "heed_opened it tx h ts"
  then obtain touched m xs where "get_cursor H tx c start dir = Inr (touched, m)"
    "yields (merged_document_next touched dir) m xs" "in_order de_id dir xs"
    "set xs = {e. tx_view it tx c (de_id e) = Some (de_value e) \<and> accepts_start (de_id e) start dir}"
    using get_cursor_scan[OF H, of tx c start dir] by (auto simp: heed_opened_def)
  then show "\<exists>nx m xs. t_get_cursor (heed_transaction H) tx c start dir = Inr (nx, m) \<and>
      yields nx m xs \<and> in_order de_id dir xs \<and>
      (\<forall>e. e \<in> set xs \<longleftrightarrow> t_get (heed_transaction H) tx c (de_id e) = Inr (Some (de_value e)) \<and>
         accepts_start (de_id e) start dir)"
    using tx_get_view[OF H, of tx] o
    by (simp add: heed_datastore_calls heed_opened_def) (auto simp: heed_transaction_def)
next
  fix e e' :: "('d, 'l) engine" and w
  assume e: "store_ok it dit e" "batch_fits e w" and "store_put (heed_datastore H) w e = (Inr (), e')"
  then have put: "engine_put H w e = (Inr (), e')" by (simp add: heed_datastore_calls)
  have ok: "engine_inv it dit e" "batch_ok w" "batch_room e w"
    using e by (simp_all add: store_ok_def batch_fits_def)
  show "store_ok it dit e' \<and> h_ts (engine_history it e) \<le> ws_ts w \<and>
      names_after w (h_names (engine_history it e)) (h_names (engine_history it e')) \<and>
      engine_history it e' = abstract_put (h_names (engine_history it e')) w (engine_history it e)"
    using put_store_ok[OF H put e] put_refines[OF H put ok] engine_put_ts[OF put] by simp
next
  fix e :: "('d, 'l) engine" and ts
  assume "store_ok it dit e" "h_ts (engine_history it e) \<le> ts"
  then show "h_view (engine_history it e) ts = h_view (engine_history it e) (h_ts (engine_history it e))"
    using latest_view[of it dit e ts] by (simp add: store_ok_def)
next
  fix e :: "('d, 'l) engine" and n c
  assume e: "store_ok it dit e" "h_names (engine_history it e) n = Some c"
  then have cat: "catalog_ok it e" by (simp add: store_ok_def engine_inv_def engine_ok_def)
  then have v: "names_of it e n = Some (i64_to_be c)" using e(2) by (simp add: engine_names_eq(1)[OF cat])
  obtain c0 where "i64_to_be c = i64_to_be c0" "stored_id (collection_id_counter e) c0"
    by (rule catalog_name[OF cat v])
  then show "0 < i64_val c" by (simp add: stored_id_def)
qed

interpretation log_store: datastore_contract "heed_datastore log_heed" "heed_transaction log_heed"
  "engine_history log_items" "store_ok log_items log_dup_items" batch_fits "heed_opened log_items"
  by (rule heed_contract[OF log_heed_laws])

end
