(* ===== verification/Engine_Open.thy ===== *)
theory Engine_Open
  imports Engine
begin

text \<open>
  Opening a store (\<open>open\<close> and \<open>new\<close> of \<open>implementations/heed/datastore.rs\<close>). The calls on the
  file system and on an LMDB environment that has no databases yet are the fields of \<open>heed_env\<close>;
  \<open>'env\<close> is an environment. The databases of the store are those \<open>create_database\<close> returns, which
  opens a database that exists.
\<close>

definition DEFAULT_MAP_SIZE :: nat where "DEFAULT_MAP_SIZE = 1024 * 1024 * 1024"
definition DEFAULT_MAX_DBS :: nat where "DEFAULT_MAX_DBS = 16"

datatype env_flag = No_sync | No_meta_sync | Write_map | Map_async

record env_options =
  map_size :: nat
  max_dbs :: nat
  env_flags :: "env_flag set"

record ('env, 'd, 'l, 'e) heed_env =
  create_dir_all :: "rstring \<Rightarrow> 'e + unit"
  env_open :: "env_options \<Rightarrow> rstring \<Rightarrow> 'e + 'env"
  env_write_txn :: "'env \<Rightarrow> 'e + unit"
  create_database :: "'env \<Rightarrow> string \<Rightarrow> 'e + 'd"
  create_dup_database :: "'env \<Rightarrow> string \<Rightarrow> 'e + 'l"

text \<open>The eight databases, in the order of the source.\<close>

definition create_databases ::
  "('env, 'd, 'l, 'e) heed_env \<Rightarrow> 'env \<Rightarrow> 'e storage_error + ('d, 'l) dbs" where
  "create_databases E env =
     and_then (heed_call (create_database E env ''indexes_catalog'')) (\<lambda>ic.
     and_then (heed_call (create_database E env ''collections_catalog'')) (\<lambda>cc.
     and_then (heed_call (create_database E env ''collection_ids_by_name'')) (\<lambda>cn.
     and_then (heed_call (create_database E env ''index_edges'')) (\<lambda>ie.
     and_then (heed_call (create_dup_database E env ''index_leaves'')) (\<lambda>il.
     and_then (heed_call (create_database E env ''documents'')) (\<lambda>ds.
     and_then (heed_call (create_database E env ''metadata'')) (\<lambda>md.
     and_then (heed_call (create_database E env ''vacuum_targets'')) (\<lambda>vt.
       Inr \<lparr>indexes_catalog = ic, collections_catalog = cc, collection_ids_by_name = cn,
         index_edges = ie, index_leaves = il, documents = ds, metadata_db = md,
         vacuum_targets = vt\<rparr>))))))))"

definition engine_new_in ::
  "('env, 'd, 'l, 'e) heed_env \<Rightarrow> ('d, 'l, 'e) heed \<Rightarrow> 'env \<Rightarrow> 'e storage_error + ('d, 'l) engine" where
  "engine_new_in E H env =
     and_then (heed_call (env_write_txn E env)) (\<lambda>_.
     and_then (create_databases E env) (\<lambda>s.
       case load_counters H (fresh_engine s) of
         (Inl x, _) \<Rightarrow> Inl x
       | (Inr _, e) \<Rightarrow> and_then (heed_call (h_commit H (e_dbs e))) (\<lambda>_. Inr e)))"

definition engine_open ::
  "('env, 'd, 'l, 'e) heed_env \<Rightarrow> ('d, 'l, 'e) heed \<Rightarrow> rstring \<Rightarrow> 'e storage_error + ('d, 'l) engine" where
  "engine_open E H path =
     and_then (map_err Io_source (create_dir_all E path)) (\<lambda>_.
       let options = \<lparr>map_size = DEFAULT_MAP_SIZE, max_dbs = DEFAULT_MAX_DBS,
             env_flags = {No_sync, No_meta_sync, Write_map, Map_async}\<rparr>
       in and_then (heed_call (env_open E options path)) (engine_new_in E H))"

text \<open>On databases that are there already, opening is \<open>engine_new\<close>.\<close>

lemma engine_new_in_eq:
  assumes "create_databases E env = Inr s" "env_write_txn E env = h_write_txn H s"
  shows "engine_new_in E H env = engine_new H s"
  using assms
  by (auto simp: engine_new_in_def engine_new_def write_txn_def fresh_engine_def and_then_def
      split: sum.splits prod.splits)

end
