(* ===== verification/Session_Properties.thy ===== *)
theory Session_Properties
  imports Catalog_Properties Traits Engine_Properties Engine_Open
begin

text \<open>
  A client's session on the storage crate, through the methods of the traits in \<open>traits.rs\<close>: open a
  transaction, write, commit its write set, while others commit too, open another transaction; and
  the life of a store from one \<open>open\<close> to the next.
\<close>

section \<open>Sessions\<close>

text \<open>C3. A session is opened, other calls are made on the store, the session is committed, and
  more calls are made, of which those that commit a batch do so above the timestamp \<open>ts'\<close> of a
  reader opened then, at or after the commit of the session. If the batch of the session declares
  new names only, then in every collection that was stored when it was committed the reader gets,
  for a document the session wrote, what the session itself read, and for any other document what a
  reader at \<open>ts'\<close> opened just before the commit gets: the commit overwrites without a check what
  others committed to the same documents in between, and keeps the rest. If no batch was committed
  in between and the session was opened at or after the timestamp of the store, the reader gets and
  scans all documents as the session did. Transactions below the timestamp of the commit read what
  they read before it.\<close>

theorem committed_session_is_seen:
  fixes H :: "('d, 'l, 'e) heed"
  assumes H: "heed_laws H it dit" and e: "store_ok it dit e"
    and start: "store_transaction (heed_datastore H) ts e = (Inr t0, e0)"
    and writes: "serve_writes (heed_transaction H) xs t0 = (r, t)"
    and between: "engine_calls H cs e = (log, e1)" "calls_fit H cs e"
    and w: "t_into_write_set (heed_transaction H) now t = w" "batch_fits e1 w"
      "\<forall>n \<in> snd ` set (ws_new_collections w). engine_names it e1 n = None"
    and commit: "store_put (heed_datastore H) w e1 = (Inr (), e2)"
    and after: "engine_calls H cs' e2 = (log', e3)" "calls_fit H cs' e2"
      "\<forall>w'. (Call_put w', True) \<in> set log' \<longrightarrow> ts' < ws_ts w'"
    and reader: "now \<le> ts'" "store_transaction (heed_datastore H) ts' e3 = (Inr t', e4)"
    and before: "store_transaction (heed_datastore H) ts' e1 = (Inr u, e5)"
    and c: "engine_names it e1 n = Some c"
  shows "(\<forall>i. t_get (heed_transaction H) t' c i =
      (if ws_document w c i = None then t_get (heed_transaction H) u c i
       else t_get (heed_transaction H) t c i)) \<and>
    (e_ts e \<le> ts \<and> (\<forall>w'. (Call_put w', True) \<notin> set log) \<longrightarrow>
      (\<forall>i. t_get (heed_transaction H) t' c i = t_get (heed_transaction H) t c i) \<and>
      (\<exists>nx m nx' m' ys. t_get_cursor (heed_transaction H) t c from dir = Inr (nx, m) \<and> yields nx m ys \<and>
         t_get_cursor (heed_transaction H) t' c from dir = Inr (nx', m') \<and> yields nx' m' ys)) \<and>
    (\<forall>old v v' f f' c' i. old < now \<longrightarrow>
       store_transaction (heed_datastore H) old e1 = (Inr v, f) \<longrightarrow>
       store_transaction (heed_datastore H) old e3 = (Inr v', f') \<longrightarrow>
       t_get (heed_transaction H) v' c' i = t_get (heed_transaction H) v c' i)"
proof -
  note D = heed_contract[OF H]
  note b = calls_refine[OF H between(1) e between(2)]
  have e1: "store_ok it dit e1" using b by blast
  note p = datastore_contract.put_law[OF D e1 w(2) commit]
  have e2: "store_ok it dit e2" using p by blast
  note a = calls_refine[OF H after(1) e2 after(2)]
  have e3: "store_ok it dit e3" using a by blast
  have now: "ws_ts w = now" using w(1) by (auto simp: heed_datastore_calls)
  have ts: "e_ts e \<le> e_ts e1" "e_ts e1 \<le> now" "e_ts e2 = now"
    using abstract_run_stable[OF conjunct2[OF b]] p now by (simp_all add: abstract_put_def engine_history_def)
  have view3: "h_view (engine_history it e3) ts' = h_view (engine_history it e2) ts'"
    by (rule abstract_run_quiet[OF conjunct2[OF a] after(3)])
  have new: "\<forall>n \<in> snd ` set (ws_new_collections w). h_names (engine_history it e1) n = None"
    and c1: "h_names (engine_history it e1) n = Some c" using w(3) c by simp_all
  note seen = datastore_contract.commit_is_seen[OF D e start writes w(1) e1 w(2) commit new e3 view3 reader
      before c1]
  have quiet: "t_get (heed_transaction H) t' c i = t_get (heed_transaction H) t c i"
    if "e_ts e \<le> ts" "\<forall>w'. (Call_put w', True) \<notin> set log" for i
  proof (rule seen(2))
    have "h_view (engine_history it e1) ts' = h_view (engine_history it e) ts'"
      using abstract_run_quiet[OF conjunct2[OF b]] that(2) by blast
    also have "\<dots> = h_view (engine_history it e) ts"
      using datastore_contract.latest_law[OF D e, of ts] datastore_contract.latest_law[OF D e, of ts']
        that(1) ts reader(1) by simp
    finally show "h_view (engine_history it e1) ts' = h_view (engine_history it e) ts" .
  qed
  have t: "heed_opened it t (engine_history it e) ts" "heed_opened it t' (engine_history it e3) ts'"
    using datastore_contract.session_state(3)[OF D e start writes]
      datastore_contract.transaction_law[OF D e3 reader(2)] by blast+
  have old: "t_get (heed_transaction H) v' c' i = t_get (heed_transaction H) v c' i"
    if "old < now" "store_transaction (heed_datastore H) old e1 = (Inr v, f)"
      "store_transaction (heed_datastore H) old e3 = (Inr v', f')" for old v v' f f' c' i
  proof (rule datastore_contract.same_view_same_reads[OF D e1 e3 _ that(2,3)])
    have "h_view (engine_history it e3) old = h_view (engine_history it e2) old"
      using abstract_run_stable[OF conjunct2[OF a]] ts(3) that(1) by simp
    also have "\<dots> = h_view (engine_history it e1) old"
      using that(1) now p by (simp add: abstract_put_def)
    finally show "h_view (engine_history it e3) old = h_view (engine_history it e1) old" .
  qed
  show ?thesis
    using seen(1) quiet datastore_contract.same_gets_same_scan[OF D t quiet, of "from" dir] old by blast
qed

text \<open>
  A session that deletes the document of \<open>sample_batch\<close> and writes another one; in between a batch
  writes the second document too and a third one.
\<close>

definition sample_session :: "write_call list" where
  "sample_session = [Tx_delete (I64 1) 9, Tx_put (I64 1) 4 [43]]"

definition other_batch :: write_set where
  "other_batch = ws_put (I64 1) 5 [77] (ws_put (I64 1) 4 [99] (default_write_set\<lparr>ws_ts := 7\<rparr>))"

lemma small_batch_fits:
  assumes "w \<in> {other_batch, ws_put (I64 1) 4 [43] (ws_delete (I64 1) 9 (default_write_set\<lparr>ws_ts := 8\<rparr>))}"
    and "collection_id_counter e = 1" "index_id_counter e = 0" "index_chain_id_counter e = 0"
  shows "batch_fits e w \<and> ws_new_collections w = []"
proof -
  have "ws_ok w" using assms(1) by (auto simp: other_batch_def)
  then have "batch_ok w"
    using assms(1) by (auto simp: batch_ok_def other_batch_def write_set_defs)
  then show ?thesis
    using assms by (auto simp: batch_fits_def batch_room_def collection_room_def chain_room_def
        batch_segments_def collection_segments_def index_names_ok_def index_id_room_def
        new_index_count_def other_batch_def write_set_defs)
qed

theorem committed_session_is_seen_witness:
  "\<exists>t0 t e1 e2 t'. store_transaction (heed_datastore log_heed) 6 sample_engine = (Inr t0, sample_engine) \<and>
     serve_writes (heed_transaction log_heed) sample_session t0 = (Inr (), t) \<and>
     engine_calls log_heed [Call_put other_batch] sample_engine = ([(Call_put other_batch, True)], e1) \<and>
     store_put (heed_datastore log_heed) (t_into_write_set (heed_transaction log_heed) 8 t) e1 = (Inr (), e2) \<and>
     store_transaction (heed_datastore log_heed) 8 e2 = (Inr t', e2) \<and>
     t_get (heed_transaction log_heed) t' (I64 1) 9 = Inr None \<and>
     t_get (heed_transaction log_heed) t' (I64 1) 4 = Inr (Some [43]) \<and>
     t_get (heed_transaction log_heed) t' (I64 1) 5 = Inr (Some [77])"
proof -
  let ?T = "heed_transaction log_heed" and ?S = "heed_datastore log_heed"
  let ?w = "ws_put (I64 1) 4 [43] (ws_delete (I64 1) 9 (default_write_set\<lparr>ws_ts := 8\<rparr>))"
  define t0 where "t0 = transaction_new (e_dbs sample_engine) 6"
  define t where "t = t0\<lparr>tx_writes := ws_put (I64 1) 4 [43] (ws_delete (I64 1) 9 (tx_writes t0))\<rparr>"
  have begin_tx: "store_transaction ?S ts e = (Inr (transaction_new (e_dbs e) ts), e)" for ts e
    by (simp add: heed_datastore_calls engine_transaction_def act_read_def log_heed_def)
  have start: "store_transaction ?S 6 sample_engine = (Inr t0, sample_engine)"
    by (simp add: begin_tx t0_def)
  have writes: "serve_writes ?T sample_session t0 = (Inr (), t)"
    by (simp add: sample_session_def act_defs serve_write_heed t_def del: serve_write.simps)
  have w: "t_into_write_set ?T 8 t = ?w"
    by (simp add: heed_datastore_calls t_def t0_def transaction_new_def ws_call_defs)
  obtain e1 where put: "engine_put log_heed other_batch sample_engine = (Inr (), e1)"
    and same: "collection_id_counter e1 = 1" "index_id_counter e1 = 0" "index_chain_id_counter e1 = 0"
      "e_ts e1 = 7" "collection_ids_by_name (e_dbs e1) = collection_ids_by_name (e_dbs sample_engine)"
      "\<not> collection_id_counter_changed e1" "\<not> index_id_counter_changed e1" "\<not> index_chain_id_counter_changed e1"
    by (simp add: run_simps sample_engine_def other_batch_def)
  obtain e2 where commit: "store_put ?S ?w e1 = (Inr (), e2)"
    using same by (simp add: heed_datastore_calls run_simps)
  have between: "engine_calls log_heed [Call_put other_batch] sample_engine = ([(Call_put other_batch, True)], e1)"
    by (simp add: put)
  have fit: "calls_fit log_heed [Call_put other_batch] sample_engine" "batch_fits e1 ?w" "ws_new_collections ?w = []"
    using small_batch_fits[of other_batch sample_engine] small_batch_fits[of ?w e1] same
    by (simp_all add: sample_engine_def)
  have e: "store_ok log_items log_dup_items sample_engine"
    using put_store_ok[OF log_heed_laws sample_run _ sample_batches_fit(1)] engine_inv_empty shared_batch_ok(3)
    by (simp add: store_ok_def)
  have n: "engine_names log_items e1 [97] = Some (I64 1)"
    by (simp add: engine_names_def names_of_def same(5)) (simp add: sample_engine_def log_dbs_def)
  define t' where "t' = transaction_new (e_dbs e2) 8"
  define u where "u = transaction_new (e_dbs e1) 8"
  have reader: "store_transaction ?S 8 e2 = (Inr t', e2)" "store_transaction ?S 8 e1 = (Inr u, e1)"
    by (simp_all add: begin_tx t'_def u_def)
  have seen: "t_get ?T t' (I64 1) i =
      (if ws_document ?w (I64 1) i = None then t_get ?T u (I64 1) i else t_get ?T t (I64 1) i)" for i
    using committed_session_is_seen[OF log_heed_laws e start writes between fit(1) w fit(2) _ commit,
        of "[]" "[]" e2 8 t' e2 u e1 "[97]" "I64 1"] reader n fit(3) by simp
  have t: "t_get ?T t (I64 1) 9 = Inr None" "t_get ?T t (I64 1) 4 = Inr (Some [43])"
    by (simp_all add: heed_datastore_calls tx_get_def visible_document_def t_def t0_def transaction_new_def
        write_set_defs)
  have doc: "ws_document ?w (I64 1) 9 = Some Document_deleted" "ws_document ?w (I64 1) 4 = Some (Document_put [43])"
    "ws_document ?w (I64 1) 5 = None"
    by (simp_all add: ws_document_def write_set_defs)
  have u: "t_get ?T u (I64 1) 5 = Inr (Some [77])"
  proof -
    have "stored_document log_heed (documents (e_dbs e1)) 8 (I64 1) 5 = Inr (written (Document_put [77]))"
    proof (rule put_then_read[OF log_heed_laws put _ _ _ _ _ order.strict_implies_order])
      show "engine_inv log_items log_dup_items sample_engine" using e by (simp add: store_ok_def)
      show "batch_ok other_batch" "batch_room sample_engine other_batch"
        using fit(1) by (simp_all add: batch_fits_def)
    qed (simp_all add: other_batch_def ws_document_def write_set_defs i64_val_def)
    then show ?thesis
      by (simp add: heed_datastore_calls tx_get_def visible_document_def u_def transaction_new_def
          write_set_defs written_def)
  qed
  show ?thesis
    using start writes between commit[folded w] reader(1) seen[of 9] seen[of 4] seen[of 5] t u
    by (simp add: doc)
qed

section \<open>From one open to the next\<close>

text \<open>A call that returns leaves everything on disk, if everything was on disk before.\<close>

lemma serve_call_clean:
  assumes H: "heed_laws H it dit" and c: "clean it e" and run: "serve_call H call e = (Inr (), e')"
  shows "clean it e'"
proof (cases call)
  case (Call_put w)
  have "persisted it e" using c by (simp add: clean_def)
  then show ?thesis using put_persists[OF H] run Call_put by simp
next
  case (Call_set_ts ts)
  then show ?thesis using set_ts_clean(1)[OF H c] run by simp
next
  case (Call_set_visible_ts ts)
  then show ?thesis using set_ts_clean(2)[OF H c] run by simp
next
  case Call_flush
  then show ?thesis using metadata_calls(3) run c by fastforce
qed

lemma engine_calls_clean:
  assumes H: "heed_laws H it dit"
  shows "engine_calls H cs e = (log, e') \<Longrightarrow> \<forall>(c, returned) \<in> set log. returned \<Longrightarrow> clean it e \<Longrightarrow> clean it e'"
proof (induction cs arbitrary: e log)
  case (Cons c cs)
  obtain r e1 log1 where 1: "serve_call H c e = (r, e1)" and 2: "engine_calls H cs e1 = (log1, e')"
    and log: "log = (c, \<not> isl r) # log1"
    using Cons.prems(1) by (auto simp: Let_def split: prod.splits)
  have "r = Inr ()" using Cons.prems(2) log by (cases r) simp_all
  then have "clean it e1" using serve_call_clean[OF H Cons.prems(3)] 1 by simp
  then show ?case using Cons.IH[OF 2] Cons.prems(2) log by simp
qed simp

lemma engine_open_clean:
  assumes H: "heed_laws H it dit" and run: "engine_open E H path = Inr e"
  shows "clean it e"
proof -
  obtain env where new: "engine_new_in E H env = Inr e"
    using run by (auto simp: engine_open_def Let_def)
  obtain s where s: "create_databases E env = Inr s" using new by (auto simp: engine_new_in_def)
  obtain r e1 where l: "load_counters H (fresh_engine s) = (r, e1)" by force
  then have load: "load_counters H (fresh_engine s) = (Inr (), e)"
    using new s by (cases r) (auto simp: engine_new_in_def)
  show ?thesis using load_counters_Inr[OF H load] clean_of_reopened by blast
qed

text \<open>C10. A store is opened, any calls of \<open>put\<close>, \<open>set_ts\<close>, \<open>set_visible_ts\<close> and \<open>flush\<close> are made that
  all return without an error, and it is opened again, by a call of \<open>open\<close> that finds the databases the
  last commit left: the engine is the one that was left, with its two timestamps and its three id
  counters, and no counter waiting to be saved. That every call returned is needed: in \<open>retry_loses_timestamp\<close>
  a commit fails and the timestamp is lost.\<close>

theorem reopen_restores_engine:
  assumes H: "heed_laws H it dit" and first: "engine_open E0 H path0 = Inr e"
    and run: "engine_calls H cs e = (log, e')" "\<forall>(c, returned) \<in> set log. returned"
    and live: "h_write_txn H (e_dbs e') = Inr ()" "h_commit H (e_dbs e') = Inr ()"
    and path: "create_dir_all E path = Inr ()" "\<And>options. env_open E options path = Inr env"
    and env: "create_databases E env = Inr (e_dbs e')" "env_write_txn E env = Inr ()"
  shows "engine_open E H path = Inr e'"
proof -
  have c: "clean it e'" by (rule engine_calls_clean[OF H run engine_open_clean[OF H first]])
  then have "metadata_ok it (e_dbs e')" by (simp add: clean_def persisted_def)
  from engine_new_eq[OF H this live] have "engine_new H (e_dbs e') = Inr e'" by (simp add: clean_reopened[OF c])
  then have "engine_new_in E H env = Inr e'" using engine_new_in_eq[OF env(1)] env(2) live(1) by simp
  then show ?thesis using path by (simp add: engine_open_def and_then_def map_err_def Let_def)
qed

text \<open>An environment that has the databases of one store under every path.\<close>

definition sample_env ::
  "(log_db, log_dup_db) dbs \<Rightarrow> ((log_db, log_dup_db) dbs, log_db, log_dup_db, log_error) heed_env" where
  "sample_env s = \<lparr>create_dir_all = (\<lambda>_. Inr ()), env_open = (\<lambda>_ _. Inr s), env_write_txn = (\<lambda>_. Inr ()),
     create_database = (\<lambda>s name. Inr (
       if name = ''indexes_catalog'' then indexes_catalog s
       else if name = ''collections_catalog'' then collections_catalog s
       else if name = ''collection_ids_by_name'' then collection_ids_by_name s
       else if name = ''index_edges'' then index_edges s
       else if name = ''documents'' then documents s
       else if name = ''metadata'' then metadata_db s
       else vacuum_targets s)),
     create_dup_database = (\<lambda>s _. Inr (index_leaves s))\<rparr>"

lemma sample_env_calls [simp]:
  "create_dir_all (sample_env s) path = Inr ()" "env_open (sample_env s) options path = Inr s"
  "env_write_txn (sample_env s) s' = Inr ()"
  by (simp_all add: sample_env_def)

lemma sample_env_databases: "create_databases (sample_env s) s = Inr s"
  by (cases s) (simp add: sample_env_def create_databases_def)

definition life_calls :: "engine_call list" where
  "life_calls = [Call_put sample_batch, Call_set_ts 7, Call_set_visible_ts 6, Call_put second_batch]"

theorem reopen_restores_engine_witness:
  "\<exists>e'. engine_open (sample_env log_dbs) log_heed [47] = Inr empty_engine \<and>
     engine_calls log_heed life_calls empty_engine = (map (\<lambda>c. (c, True)) life_calls, e') \<and>
     e_ts e' = 8 \<and> e_visible_ts e' = 6 \<and> collection_id_counter e' = 1 \<and>
     engine_open (sample_env (e_dbs e')) log_heed [47] = Inr e'"
proof -
  obtain e' where run: "engine_calls log_heed life_calls empty_engine = (map (\<lambda>c. (c, True)) life_calls, e')"
    and e': "e_ts e' = 8" "e_visible_ts e' = 6" "collection_id_counter e' = 1"
    by (simp add: life_calls_def sample_run)
      (simp add: run_simps engine_set_ts_def engine_set_visible_ts_def act_modify_def second_batch_def sample_engine_def)
  have meta: "metadata_ok log_items log_dbs" by (simp add: metadata_ok_def log_dbs_def)
  have "reopened log_items log_dbs = empty_engine"
    by (simp add: reopened_def stored_u64_def fresh_engine_def log_dbs_def)
  then have "engine_new_in (sample_env log_dbs) log_heed log_dbs = Inr empty_engine"
    using engine_new_eq[OF log_heed_laws meta] engine_new_in_eq[OF sample_env_databases, of log_dbs log_heed] by simp
  then have first: "engine_open (sample_env log_dbs) log_heed [47] = Inr empty_engine"
    by (simp add: engine_open_def)
  have "engine_open (sample_env (e_dbs e')) log_heed [47] = Inr e'"
    by (rule reopen_restores_engine[where env = "e_dbs e'", OF log_heed_laws first run])
      (auto simp: sample_env_databases)
  then show ?thesis using first run e' by blast
qed

end
