(* ===== verification/Front_End.thy ===== *)
theory Front_End
  imports Query "HOL-Library.Multiset"
begin

text \<open>
  The front end of the database crate: \<open>read_set.rs\<close>, \<open>write_set.rs\<close>, \<open>command.rs\<close>, \<open>config.rs\<close>,
  \<open>state.rs\<close>, \<open>database.rs\<close>, \<open>transaction.rs\<close> and \<open>worker.rs\<close>. A database is a pool of worker threads, each with an
  unbounded channel of commands. A request carries a one-shot responder, a number here, and waits
  until the worker answers it or drops it. The datastore is the type \<open>'ds\<close>; of its operations the
  front end calls \<open>get_ts\<close> and \<open>get_visible_ts\<close>, which are arguments of the definitions.
\<close>

section \<open>Read sets\<close>

datatype limit_boundary = Limit_upper bytes | Limit_lower bytes

record read_interval =
  ri_query_id :: u64
  ri_lower :: "bytes bound"
  ri_upper :: "bytes bound"
  ri_limit_boundary :: "limit_boundary option"

record document_read =
  dr_query_id :: u64
  dr_document_id :: document_id

record read_set =
  rs_intervals :: "(collection_id \<times> index_id, read_interval list) btree"
  rs_document_ids :: "document_read list"
  rs_next_query_id :: u64

definition read_set_new :: read_set where
  "read_set_new = \<lparr>rs_intervals = [], rs_document_ids = [], rs_next_query_id = 0\<rparr>"

text \<open>\<open>entry(..).or_default().push(..)\<close>\<close>

definition add_interval ::
  "collection_id \<Rightarrow> index_id \<Rightarrow> bytes bound \<Rightarrow> bytes bound \<Rightarrow> limit_boundary option \<Rightarrow> read_set
   \<Rightarrow> read_set" where
  "add_interval cid iid lower upper limit_boundary rs =
     (let old = (case map_of (rs_intervals rs) (cid, iid) of Some xs \<Rightarrow> xs | None \<Rightarrow> []);
          interval = \<lparr>ri_query_id = rs_next_query_id rs, ri_lower = lower, ri_upper = upper,
            ri_limit_boundary = limit_boundary\<rparr>
      in rs\<lparr>rs_intervals := bt_insert (cid, iid) (old @ [interval]) (rs_intervals rs),
            rs_next_query_id := rs_next_query_id rs + 1\<rparr>)"

definition add_document_id :: "document_id \<Rightarrow> read_set \<Rightarrow> read_set" where
  "add_document_id did rs =
     rs\<lparr>rs_document_ids := rs_document_ids rs @
           [\<lparr>dr_query_id = rs_next_query_id rs, dr_document_id = did\<rparr>],
        rs_next_query_id := rs_next_query_id rs + 1\<rparr>"

section \<open>Commands\<close>

datatype transaction_mode = Read_only | Read_write

text \<open>The field \<open>tx\<close> of a command, its responder, is the number after the transaction id.\<close>

datatype transaction_command =
    Start_transaction transaction_mode u64
  | End_transaction u64 nat
  | Commit_transaction u64 nat
  | Rollback_transaction u64 nat
  | Get_collection u64 nat rstring
  | Get u64 nat rstring document_id
  | Run_query u64 nat "query"
  | Write u64 nat

section \<open>Workers\<close>

text \<open>
  \<open>WriteSet\<close> of this crate has no fields: \<open>WriteSet::new\<close> is its one value. The field
  \<open>transaction\<close> of a context, which is only ever \<open>None\<close>, is left out.
\<close>

datatype empty_write_set = Write_set

record transaction_context =
  cx_tx_id :: u64
  cx_mode :: transaction_mode
  cx_read_set :: "read_set option"
  cx_write_set :: "empty_write_set option"

text \<open>
  A worker: the commands in its channel, whether its thread still receives, and the map
  \<open>transactions\<close> of \<open>run_transaction_thread\<close>.
\<close>

record worker =
  wk_queue :: "transaction_command list"
  wk_alive :: bool
  wk_transactions :: "u64 \<rightharpoonup> transaction_context"

text \<open>
  The body of the loop of \<open>run_transaction_thread\<close>. All arms but the first are empty in the
  source: the responder goes out of scope without an answer. The second result is the responder
  that is dropped.
\<close>

fun handle_command ::
  "transaction_command \<Rightarrow> (u64 \<rightharpoonup> transaction_context)
   \<Rightarrow> (u64 \<rightharpoonup> transaction_context) \<times> nat option" where
  "handle_command (Start_transaction mode tx_id) transactions =
     (transactions(tx_id \<mapsto> \<lparr>cx_tx_id = tx_id, cx_mode = mode, cx_read_set = Some read_set_new,
        cx_write_set = Some Write_set\<rparr>), None)"
| "handle_command (End_transaction tx_id tx) transactions = (transactions, Some tx)"
| "handle_command (Commit_transaction tx_id tx) transactions = (transactions, Some tx)"
| "handle_command (Rollback_transaction tx_id tx) transactions = (transactions, Some tx)"
| "handle_command (Get_collection tx_id tx name) transactions = (transactions, Some tx)"
| "handle_command (Get tx_id tx name document_id) transactions = (transactions, Some tx)"
| "handle_command (Run_query tx_id tx query) transactions = (transactions, Some tx)"
| "handle_command (Write tx_id tx) transactions = (transactions, Some tx)"

section \<open>The database\<close>

record database_state =
  ds_read_transactions :: "(TS \<times> u64) set"
  ds_write_transactions :: "(TS \<times> u64) set"
  ds_committed_sets :: "u64 \<rightharpoonup> u64"
  ds_min_read_ts :: u64
  ds_min_write_ts :: u64
  ds_tx_id_allocator :: u64

text \<open>
  The last two fields are the one-shot channels: how many responders there are, and which of them
  were dropped without an answer.
\<close>

record 'ds database =
  db_datastore :: 'ds
  db_state :: database_state
  db_pool :: "worker list"
  db_pool_rr :: u64
  db_responders :: nat
  db_dropped :: "nat set"

definition worker_new :: worker where
  "worker_new = \<lparr>wk_queue = [], wk_alive = True, wk_transactions = Map.empty\<rparr>"

text \<open>The configuration; a \<open>Duration\<close> is its number of nanoseconds. The code reads the pool size only.\<close>

record config =
  thread_pool_size :: nat
  max_transaction_duration :: nat

definition database_new ::
  "('ds \<Rightarrow> 'e storage_error + TS) \<Rightarrow> 'ds \<Rightarrow> config \<Rightarrow> 'e db_error + 'ds database" where
  "database_new get_ts datastore config =
     and_then (map_err Storage (get_ts datastore)) (\<lambda>ts.
       Inr \<lparr>db_datastore = datastore,
            db_state = \<lparr>ds_read_transactions = {}, ds_write_transactions = {},
              ds_committed_sets = Map.empty, ds_min_read_ts = ts, ds_min_write_ts = ts,
              ds_tx_id_allocator = 1\<rparr>,
            db_pool = replicate (thread_pool_size config) worker_new, db_pool_rr = 0,
            db_responders = 0, db_dropped = {}\<rparr>)"

text \<open>\<open>UnboundedSender::send\<close> on the channel of worker \<open>i\<close>, with \<open>From<SendError>\<close> for the error.\<close>

definition send ::
  "nat \<Rightarrow> transaction_command \<Rightarrow> 'ds database \<Rightarrow> ('e db_error + unit) \<times> 'ds database" where
  "send i cmd db =
     (let w = db_pool db ! i in
      if wk_alive w
      then (Inr (), db\<lparr>db_pool := (db_pool db)[i := w\<lparr>wk_queue := wk_queue w @ [cmd]\<rparr>]\<rparr>)
      else (Inl Worker_unavailable, db))"

record transaction_handle =
  tr_tx_id :: u64
  tr_start_ts :: TS
  tr_mode :: transaction_mode
  tr_worker :: nat

text \<open>A call that panics has no result.\<close>

datatype 'a outcome = Panicked | Returned 'a

text \<open>
  A call of \<open>Database::transaction\<close>, taken apart at the operations other threads can see: the
  \<open>fetch_add\<close> on the allocator of ids, under the lock of the state that the call waits for; the
  \<open>fetch_add\<close> on the round robin counter, with the remainder and the index into the pool, which panic
  on an empty pool; the send on the worker's channel; the read of the visible timestamp. The methods
  take \<open>&self\<close>, so the steps of several calls interleave. \<open>Open_start\<close> is a call before its first
  step, \<open>Open_done\<close> one that returned or panicked.
\<close>

datatype 'e transaction_call =
    Open_start transaction_mode
  | Open_id transaction_mode u64
  | Open_idx transaction_mode u64 nat
  | Open_sent transaction_mode u64 nat
  | Open_done "('e db_error + transaction_handle) outcome"

fun transaction_step ::
  "('ds \<Rightarrow> 'e storage_error + TS) \<Rightarrow> 'e transaction_call \<Rightarrow> 'ds database \<Rightarrow> 'e transaction_call \<times> 'ds database" where
  "transaction_step get_visible_ts (Open_start mode) db =
     (let tx_id = ds_tx_id_allocator (db_state db)
      in (Open_id mode tx_id, db\<lparr>db_state := (db_state db)\<lparr>ds_tx_id_allocator := tx_id + 1\<rparr>\<rparr>))"
| "transaction_step get_visible_ts (Open_id mode tx_id) db =
     (let rr = db_pool_rr db; db' = db\<lparr>db_pool_rr := rr + 1\<rparr>
      in if db_pool db = [] then (Open_done Panicked, db')
         else (Open_idx mode tx_id (unat rr mod length (db_pool db)), db'))"
| "transaction_step get_visible_ts (Open_idx mode tx_id idx) db =
     (case send idx (Start_transaction mode tx_id) db of
        (Inl e, db') \<Rightarrow> (Open_done (Returned (Inl e)), db')
      | (Inr _, db') \<Rightarrow> (Open_sent mode tx_id idx, db'))"
| "transaction_step get_visible_ts (Open_sent mode tx_id idx) db =
     (case get_visible_ts (db_datastore db) of
        Inl e \<Rightarrow> (Open_done (Returned (Inl (Storage e))), db)
      | Inr ts \<Rightarrow> (Open_done (Returned (Inr \<lparr>tr_tx_id = tx_id, tr_start_ts = ts, tr_mode = mode,
          tr_worker = idx\<rparr>)), db))"
| "transaction_step get_visible_ts (Open_done r) db = (Open_done r, db)"

section \<open>Transactions\<close>

text \<open>
  The requests of \<open>transaction.rs\<close> make a responder, send a command with it, and wait for the
  answer; the result here is the responder to wait for. \<open>commit\<close> takes the handle by value, so
  \<open>Drop\<close> runs after it.
\<close>

definition request ::
  "transaction_handle \<Rightarrow> (nat \<Rightarrow> transaction_command) \<Rightarrow> 'ds database
   \<Rightarrow> ('e db_error + nat) \<times> 'ds database" where
  "request t cmd db =
     (let tx = db_responders db in
      case send (tr_worker t) (cmd tx) (db\<lparr>db_responders := tx + 1\<rparr>) of
        (Inl e, db') \<Rightarrow> (Inl e, db')
      | (Inr _, db') \<Rightarrow> (Inr tx, db'))"


definition send_commit ::
  "transaction_handle \<Rightarrow> 'ds database \<Rightarrow> ('e db_error + nat) \<times> 'ds database" where
  "send_commit t db = request t (\<lambda>tx. Commit_transaction (tr_tx_id t) tx) db"

definition send_collection ::
  "transaction_handle \<Rightarrow> rstring \<Rightarrow> 'ds database \<Rightarrow> ('e db_error + nat) \<times> 'ds database" where
  "send_collection t name db = request t (\<lambda>tx. Get_collection (tr_tx_id t) tx name) db"

definition send_get_document ::
  "transaction_handle \<Rightarrow> rstring \<Rightarrow> document_id \<Rightarrow> 'ds database
   \<Rightarrow> ('e db_error + nat) \<times> 'ds database" where
  "send_get_document t collection_name did db =
     request t (\<lambda>tx. Get (tr_tx_id t) tx collection_name did) db"

definition send_run_query ::
  "transaction_handle \<Rightarrow> query \<Rightarrow> 'ds database \<Rightarrow> ('e db_error + nat) \<times> 'ds database" where
  "send_run_query t q db = request t (\<lambda>tx. Run_query (tr_tx_id t) tx q) db"

text \<open>
  \<open>rx.await?\<close>: pending, or, by \<open>From<RecvError>\<close>, the error of a dropped responder. No command is
  answered with a value.
\<close>

definition await :: "nat \<Rightarrow> 'ds database \<Rightarrow> ('e db_error + 'a) option" where
  "await tx db = (if tx \<in> db_dropped db then Some (Inl Worker_unavailable) else None)"

text \<open>One round of the loop of the thread of worker \<open>i\<close>, when its channel is not empty.\<close>

definition worker_round :: "nat \<Rightarrow> 'ds database \<Rightarrow> 'ds database" where
  "worker_round i db =
     (let w = db_pool db ! i in
      case wk_queue w of
        [] \<Rightarrow> db
      | cmd # queue \<Rightarrow>
          (case handle_command cmd (wk_transactions w) of
             (transactions, dropped) \<Rightarrow>
               db\<lparr>db_pool := (db_pool db)[i := w\<lparr>wk_queue := queue, wk_transactions := transactions\<rparr>],
                  db_dropped := db_dropped db \<union> set_option dropped\<rparr>))"

section \<open>Read sets: every read has its own number\<close>

text \<open>A read that is recorded, and the numbers of all reads of a set.\<close>

datatype read =
    Interval_read collection_id index_id "bytes bound" "bytes bound" "limit_boundary option"
  | Id_read document_id

fun add_read :: "read_set \<Rightarrow> read \<Rightarrow> read_set" where
  "add_read rs (Interval_read cid iid lower upper limit) = add_interval cid iid lower upper limit rs"
| "add_read rs (Id_read did) = add_document_id did rs"

definition read_ids :: "read_set \<Rightarrow> u64 list" where
  "read_ids rs =
     map ri_query_id (concat (map snd (rs_intervals rs))) @ map dr_query_id (rs_document_ids rs)"

lemma mset_bt_push:
  "bt_ok t \<Longrightarrow>
   mset (concat (map snd (bt_insert k ((case map_of t k of Some xs \<Rightarrow> xs | None \<Rightarrow> []) @ [x]) t)))
     = add_mset x (mset (concat (map snd t)))"
proof (induction t)
  case (Cons p t)
  obtain k' v' where p: "p = (k', v')" by force
  have ok: "bt_ok t" and new: "k \<le> k' \<Longrightarrow> map_of t k = None"
    using Cons.prems by (force simp: p bt_ok_Cons map_of_eq_None_iff)+
  then show ?case using Cons.IH by (auto simp: p)
qed simp

lemma add_read_ids:
  assumes "bt_ok (rs_intervals rs)"
  shows "bt_ok (rs_intervals (add_read rs r))"
    and "mset (read_ids (add_read rs r)) = add_mset (rs_next_query_id rs) (mset (read_ids rs))"
    and "rs_next_query_id (add_read rs r) = rs_next_query_id rs + 1"
  using assms
  by (cases r; simp add: add_interval_def add_document_id_def read_ids_def Let_def
      mset_bt_push[OF assms])+

text \<open>The reads of a set are numbered from zero on, each number used once.\<close>

lemma reads_numbered:
  "mset (read_ids (foldl add_read read_set_new rs)) = mset (map word_of_nat [0..<length rs]) \<and>
   bt_ok (rs_intervals (foldl add_read read_set_new rs)) \<and>
   rs_next_query_id (foldl add_read read_set_new rs) = word_of_nat (length rs)"
proof (induction rs rule: rev_induct)
  case Nil
  show ?case by (simp add: read_ids_def read_set_new_def)
next
  case (snoc r rs)
  then show ?case using add_read_ids[of "foldl add_read read_set_new rs" r] by (simp add: add.commute)
qed

lemma read_ids_distinct:
  assumes "length rs \<le> 2 ^ 64"
  shows "distinct (read_ids (foldl add_read read_set_new rs))"
proof -
  have "unat (word_of_nat i :: u64) = i" if "i < length rs" for i
    using that assms by (simp add: unat_of_nat)
  then have "inj_on (word_of_nat :: nat \<Rightarrow> u64) (set [0..<length rs])"
    by (intro inj_on_inverseI[of _ unat]) simp
  then have "distinct (map (word_of_nat :: nat \<Rightarrow> u64) [0..<length rs])" by (simp add: distinct_map)
  then show ?thesis using reads_numbered[of rs] by (metis mset_eq_imp_distinct_iff)
qed

section \<open>Requests\<close>

text \<open>The responder of a command; only a start has none.\<close>

fun responder :: "transaction_command \<Rightarrow> nat option" where
  "responder (Start_transaction mode tx_id) = None"
| "responder (End_transaction tx_id tx) = Some tx"
| "responder (Commit_transaction tx_id tx) = Some tx"
| "responder (Rollback_transaction tx_id tx) = Some tx"
| "responder (Get_collection tx_id tx name) = Some tx"
| "responder (Get tx_id tx name did) = Some tx"
| "responder (Run_query tx_id tx q) = Some tx"
| "responder (Write tx_id tx) = Some tx"

lemma handle_command_dropped [simp]: "snd (handle_command cmd transactions) = responder cmd"
  by (cases cmd) auto

lemma handle_command_transactions:
  "fst (handle_command cmd transactions) =
     (case cmd of
        Start_transaction mode tx_id \<Rightarrow>
          transactions(tx_id \<mapsto> \<lparr>cx_tx_id = tx_id, cx_mode = mode, cx_read_set = Some read_set_new,
            cx_write_set = Some Write_set\<rparr>)
      | _ \<Rightarrow> transactions)"
  by (cases cmd) auto

text \<open>The queue and the map of one worker after a round of another one, and of its own.\<close>

lemma worker_round_other: "i \<noteq> j \<Longrightarrow> db_pool (worker_round j db) ! i = db_pool db ! i"
  by (auto simp: worker_round_def Let_def split: list.splits prod.splits)

lemma worker_round_length [simp]: "length (db_pool (worker_round i db)) = length (db_pool db)"
  by (auto simp: worker_round_def Let_def split: list.splits prod.splits)

lemma worker_round_dropped: "db_dropped db \<subseteq> db_dropped (worker_round i db)"
  by (auto simp: worker_round_def Let_def split: list.splits prod.splits)

lemma worker_round_own:
  assumes "i < length (db_pool db)" "wk_queue (db_pool db ! i) = cmd # queue"
  shows "wk_queue (db_pool (worker_round i db) ! i) = queue"
    and "set_option (responder cmd) \<subseteq> db_dropped (worker_round i db)"
    and "wk_transactions (db_pool (worker_round i db) ! i)
      = fst (handle_command cmd (wk_transactions (db_pool db ! i)))"
  using assms handle_command_dropped[of cmd "wk_transactions (db_pool db ! i)"]
  by (auto simp: worker_round_def Let_def simp del: handle_command_dropped split: prod.splits)

text \<open>Rounds of any workers in any order: when worker \<open>i\<close> had enough of them, a responder at the
  front of \<open>n\<close> others in its channel was dropped.\<close>

lemma rounds_drop_responder:
  assumes "i < length (db_pool db)" "n < length (wk_queue (db_pool db ! i))"
    and "responder (wk_queue (db_pool db ! i) ! n) = Some tx" "n < count_list js i"
  shows "tx \<in> db_dropped (foldl (\<lambda>d j. worker_round j d) db js)"
  using assms
proof (induction js arbitrary: db n)
  case (Cons j js)
  have keep: "db_dropped d \<subseteq> db_dropped (foldl (\<lambda>d j. worker_round j d) d js)" for d
  proof (induction js arbitrary: d)
    case (Cons a js)
    then show ?case using worker_round_dropped[of d a] by (metis foldl_Cons order_trans)
  qed simp
  show ?case
  proof (cases "j = i")
    case False
    then show ?thesis
      using Cons.IH[of "worker_round j db" n] Cons.prems by (simp add: worker_round_other)
  next
    case True
    obtain cmd queue where q: "wk_queue (db_pool db ! i) = cmd # queue"
      using Cons.prems(2) by (cases "wk_queue (db_pool db ! i)") auto
    note own = worker_round_own[OF Cons.prems(1) q]
    show ?thesis
    proof (cases n)
      case 0
      then have "tx \<in> db_dropped (worker_round i db)" using own(2) Cons.prems(3) q by auto
      then show ?thesis using keep[of "worker_round i db"] True by auto
    next
      case (Suc m)
      then show ?thesis
        using Cons.IH[of "worker_round i db" m] Cons.prems own(1) q True by simp
    qed
  qed
qed simp

lemma request_alive:
  assumes "tr_worker t < length (db_pool db)" "wk_alive (db_pool db ! tr_worker t)"
  shows "request t cmd db = (Inr (db_responders db),
    db\<lparr>db_responders := Suc (db_responders db),
       db_pool := (db_pool db)[tr_worker t := (db_pool db ! tr_worker t)
         \<lparr>wk_queue := wk_queue (db_pool db ! tr_worker t) @ [cmd (db_responders db)]\<rparr>]\<rparr>)"
  using assms by (simp add: request_def send_def Let_def)

text \<open>C38. Whatever a transaction asks for, a commit included, the answer is that the worker is
  unavailable: at once when its thread is gone, and otherwise as soon as the worker has taken the
  commands in front of it and the request itself out of its channel, whatever the other workers
  do in between.\<close>

theorem requests_get_no_answer:
  fixes db :: "'ds database"
  assumes "tr_worker t < length (db_pool db)" "\<forall>tx. responder (cmd tx) = Some tx"
    and "request t cmd db = (r :: 'e db_error + nat, db')"
    and "length (wk_queue (db_pool db ! tr_worker t)) < count_list js (tr_worker t)"
  shows "(case r of
      Inl e \<Rightarrow> \<not> wk_alive (db_pool db ! tr_worker t) \<and> e = Worker_unavailable
    | Inr tx \<Rightarrow> await tx (foldl (\<lambda>d j. worker_round j d) db' js) = Some (Inl Worker_unavailable))"
proof (cases "wk_alive (db_pool db ! tr_worker t)")
  case True
  then have r: "r = Inr (db_responders db)"
      and db': "db' = snd (request t cmd db :: ('e db_error + nat) \<times> 'ds database)"
    using assms(1,3) by (simp_all add: request_alive)
  have "db_responders db \<in> db_dropped (foldl (\<lambda>d j. worker_round j d) db' js)"
    using assms True
    by (intro rounds_drop_responder[of "tr_worker t" _ "length (wk_queue (db_pool db ! tr_worker t))"])
      (simp_all add: db' request_alive)
  then show ?thesis by (simp add: r await_def)
next
  case False
  then show ?thesis using assms(3) by (auto simp: request_def send_def Let_def)
qed


section \<open>Transaction ids\<close>

text \<open>The ids a worker knows or will know: those of its map and of the starts in its channel.\<close>

fun started :: "transaction_command \<Rightarrow> u64 set" where
  "started (Start_transaction mode tx_id) = {tx_id}"
| "started _ = {}"

definition worker_ids :: "worker \<Rightarrow> u64 set" where
  "worker_ids w = dom (wk_transactions w) \<union> \<Union> (started ` set (wk_queue w))"

text \<open>
  Runs of a database. Any number of calls of \<open>transaction\<close> are under way, each at one of its steps;
  a step of any of them, a request on a handle that was returned, a round of a worker's loop and a
  change of the datastore by someone else come in any order.
\<close>

inductive db_run ::
  "('ds \<Rightarrow> 'e storage_error + TS) \<Rightarrow> ('ds \<Rightarrow> 'e storage_error + TS) \<Rightarrow> nat \<Rightarrow> 'e transaction_call list
   \<Rightarrow> 'ds database \<Rightarrow> bool" for get_ts get_visible_ts n where
  run_new: "database_new get_ts datastore config = Inr db \<Longrightarrow> thread_pool_size config = n \<Longrightarrow>
    db_run get_ts get_visible_ts n [] db"
| run_call: "db_run get_ts get_visible_ts n calls db \<Longrightarrow>
    db_run get_ts get_visible_ts n (calls @ [Open_start mode]) db"
| run_step: "db_run get_ts get_visible_ts n calls db \<Longrightarrow> i < length calls \<Longrightarrow>
    transaction_step get_visible_ts (calls ! i) db = (c, db') \<Longrightarrow>
    db_run get_ts get_visible_ts n (calls[i := c]) db'"
| run_request: "db_run get_ts get_visible_ts n calls db \<Longrightarrow>
    Open_done (Returned (Inr t)) \<in> set calls \<Longrightarrow>
    \<forall>tx. responder (cmd tx) = Some tx \<Longrightarrow> request t cmd db = (r :: 'e db_error + nat, db') \<Longrightarrow>
    db_run get_ts get_visible_ts n calls db'"
| run_round: "db_run get_ts get_visible_ts n calls db \<Longrightarrow> i < n \<Longrightarrow>
    db_run get_ts get_visible_ts n calls (worker_round i db)"
| run_datastore: "db_run get_ts get_visible_ts n calls db \<Longrightarrow>
    db_run get_ts get_visible_ts n calls (db\<lparr>db_datastore := ds\<rparr>)"

text \<open>The id a call holds, and whether it is past the first \<open>fetch_add\<close>.\<close>

fun opening_id :: "'e transaction_call \<Rightarrow> u64 option" where
  "opening_id (Open_id mode tx_id) = Some tx_id"
| "opening_id (Open_idx mode tx_id idx) = Some tx_id"
| "opening_id (Open_sent mode tx_id idx) = Some tx_id"
| "opening_id (Open_done (Returned (Inr t))) = Some (tr_tx_id t)"
| "opening_id _ = None"

fun past_start :: "'e transaction_call \<Rightarrow> bool" where
  "past_start (Open_start mode) = False"
| "past_start _ = True"

text \<open>What holds of a call, when \<open>own\<close> maps the ids that have a worker to it.\<close>

fun opening_ok :: "(u64 \<rightharpoonup> nat) \<Rightarrow> 'ds database \<Rightarrow> 'e transaction_call \<Rightarrow> bool" where
  "opening_ok own db (Open_id mode tx_id) \<longleftrightarrow> own tx_id = None"
| "opening_ok own db (Open_idx mode tx_id idx) \<longleftrightarrow> own tx_id = Some idx \<and> idx < length (db_pool db)"
| "opening_ok own db (Open_sent mode tx_id idx) \<longleftrightarrow>
     own tx_id = Some idx \<and> idx < length (db_pool db) \<and> tx_id \<in> worker_ids (db_pool db ! idx)"
| "opening_ok own db (Open_done (Returned (Inr t))) \<longleftrightarrow>
     own (tr_tx_id t) = Some (tr_worker t) \<and> tr_worker t < length (db_pool db) \<and>
     tr_tx_id t \<in> worker_ids (db_pool db ! tr_worker t)"
| "opening_ok own db _ \<longleftrightarrow> True"

definition ids_ok :: "(u64 \<rightharpoonup> nat) \<Rightarrow> nat \<Rightarrow> 'e transaction_call list \<Rightarrow> 'ds database \<Rightarrow> bool" where
  "ids_ok own n calls db \<longleftrightarrow>
     length (db_pool db) = n \<and>
     unat (ds_tx_id_allocator (db_state db)) = Suc (length (filter past_start calls)) \<and>
     (\<forall>i < length calls. \<forall>j < length calls. \<forall>tx_id. i \<noteq> j \<longrightarrow>
        opening_id (calls ! i) = Some tx_id \<longrightarrow> opening_id (calls ! j) \<noteq> Some tx_id) \<and>
     (\<forall>c \<in> set calls. opening_ok own db c \<and>
        (\<forall>tx_id. opening_id c = Some tx_id \<longrightarrow> tx_id < ds_tx_id_allocator (db_state db))) \<and>
     (\<forall>tx_id \<in> dom own. tx_id < ds_tx_id_allocator (db_state db)) \<and>
     (\<forall>i < n. \<forall>tx_id \<in> worker_ids (db_pool db ! i). own tx_id = Some i)"

lemma ids_okD:
  assumes "ids_ok own n calls db"
  shows "length (db_pool db) = n"
    and "unat (ds_tx_id_allocator (db_state db)) = Suc (length (filter past_start calls))"
    and "i < length calls \<Longrightarrow> j < length calls \<Longrightarrow> i \<noteq> j \<Longrightarrow> opening_id (calls ! i) = Some tx_id \<Longrightarrow>
      opening_id (calls ! j) \<noteq> Some tx_id"
    and "c \<in> set calls \<Longrightarrow> opening_ok own db c"
    and "c \<in> set calls \<Longrightarrow> opening_id c = Some tx_id \<Longrightarrow> tx_id < ds_tx_id_allocator (db_state db)"
    and "own tx_id = Some i \<Longrightarrow> tx_id < ds_tx_id_allocator (db_state db)"
    and "i < n \<Longrightarrow> tx_id \<in> worker_ids (db_pool db ! i) \<Longrightarrow> own tx_id = Some i"
  using assms by (auto simp: ids_ok_def)

text \<open>The handles that were returned.\<close>

fun handle_of :: "'e transaction_call \<Rightarrow> transaction_handle option" where
  "handle_of (Open_done (Returned (Inr t))) = Some t"
| "handle_of _ = None"

definition handles :: "'e transaction_call list \<Rightarrow> transaction_handle list" where
  "handles calls = List.map_filter handle_of calls"

lemma send_ids:
  assumes "send i cmd db = (r, db')" "i < length (db_pool db)"
  shows "length (db_pool db') = length (db_pool db)" "db_state db' = db_state db"
    and "j < length (db_pool db) \<Longrightarrow> worker_ids (db_pool db' ! j) = worker_ids (db_pool db ! j) \<union>
      (if j = i \<and> r = Inr () then started cmd else {})"
  using assms by (auto simp: send_def Let_def worker_ids_def nth_list_update split: if_splits)

lemma responder_started: "responder cmd = Some tx \<Longrightarrow> started cmd = {}"
  by (cases cmd) auto

lemma request_ids:
  assumes "request t cmd db = (r :: 'e db_error + nat, db')" "tr_worker t < length (db_pool db)"
    and "\<forall>tx. responder (cmd tx) = Some tx"
  shows "length (db_pool db') = length (db_pool db)" "db_state db' = db_state db"
    and "j < length (db_pool db) \<Longrightarrow> worker_ids (db_pool db' ! j) = worker_ids (db_pool db ! j)"
proof -
  obtain s :: "'e db_error + unit" and db3 where send: "send (tr_worker t) (cmd (db_responders db))
      (db\<lparr>db_responders := db_responders db + 1\<rparr>) = (s, db3)" by force
  have db': "db' = db3"
    using assms(1) send by (simp add: request_def Let_def split: sum.splits)
  have "started (cmd (db_responders db)) = {}" using assms(3) responder_started by blast
  then show "length (db_pool db') = length (db_pool db)" "db_state db' = db_state db"
    "j < length (db_pool db) \<Longrightarrow> worker_ids (db_pool db' ! j) = worker_ids (db_pool db ! j)"
    using send_ids(1,2)[OF send] send_ids(3)[OF send, of j] assms(2)
    by (auto simp: db' split: if_splits)
qed

lemma worker_round_ids:
  assumes "i < length (db_pool db)"
  shows "db_state (worker_round i db) = db_state db"
    and "j < length (db_pool db) \<Longrightarrow>
      worker_ids (db_pool (worker_round i db) ! j) = worker_ids (db_pool db ! j)"
proof -
  show "db_state (worker_round i db) = db_state db"
    by (auto simp: worker_round_def Let_def split: list.splits prod.splits)
  show "worker_ids (db_pool (worker_round i db) ! j) = worker_ids (db_pool db ! j)"
  proof (cases "j = i \<and> wk_queue (db_pool db ! i) \<noteq> []")
    case True
    then obtain cmd queue where q: "wk_queue (db_pool db ! i) = cmd # queue"
      by (cases "wk_queue (db_pool db ! i)") auto
    show ?thesis using True worker_round_own(1,3)[OF assms q] q
      by (cases cmd) (auto simp: worker_ids_def handle_command_transactions)
  next
    case False
    then show ?thesis
      using worker_round_other[of j i db] by (cases "j = i") (auto simp: worker_round_def Let_def)
  qed
qed

text \<open>The invariant of a run only looks at the size of the pool, the allocator and the known ids.\<close>

lemma opening_ok_mono:
  assumes "opening_ok own db c" "length (db_pool db') = length (db_pool db)"
    and "\<And>j. j < length (db_pool db) \<Longrightarrow> worker_ids (db_pool db ! j) \<subseteq> worker_ids (db_pool db' ! j)"
    and "\<And>tx_id. opening_id c = Some tx_id \<Longrightarrow> own' tx_id = own tx_id"
  shows "opening_ok own' db' c"
  using assms by (cases "(own, db, c)" rule: opening_ok.cases) auto

lemma ids_ok_frame:
  assumes "ids_ok own n calls db" "length (db_pool db') = length (db_pool db)"
    and "ds_tx_id_allocator (db_state db') = ds_tx_id_allocator (db_state db)"
    and "\<And>j. j < length (db_pool db) \<Longrightarrow> worker_ids (db_pool db' ! j) = worker_ids (db_pool db ! j)"
  shows "ids_ok own n calls db'"
proof -
  have "opening_ok own db' c" if "c \<in> set calls" for c
    by (rule opening_ok_mono[OF ids_okD(4)[OF assms(1) that] assms(2)]) (simp_all add: assms(4))
  then show ?thesis using assms by (simp add: ids_ok_def)
qed

lemma length_filter_update:
  "i < length xs \<Longrightarrow>
    length (filter P (xs[i := y])) + of_bool (P (xs ! i)) = length (filter P xs) + of_bool (P y)"
proof (induction xs arbitrary: i)
  case (Cons x xs)
  then show ?case by (cases i) (force split: if_splits)+
qed simp

text \<open>A step that hands out no id changes the worker of its own id at most.\<close>

lemma ids_ok_step:
  assumes ok: "ids_ok own n calls db" and i: "i < length calls" "past_start (calls ! i)" "past_start c"
    and id: "opening_id c = opening_id (calls ! i) \<or> opening_id c = None"
    and pool: "length (db_pool db') = n"
      "ds_tx_id_allocator (db_state db') = ds_tx_id_allocator (db_state db)"
    and mono: "\<And>j. j < n \<Longrightarrow> worker_ids (db_pool db ! j) \<subseteq> worker_ids (db_pool db' ! j)"
    and own: "\<And>tx_id. opening_id (calls ! i) \<noteq> Some tx_id \<Longrightarrow> own' tx_id = own tx_id"
    and c: "opening_ok own' db' c"
    and known: "\<And>j tx_id. j < n \<Longrightarrow> tx_id \<in> worker_ids (db_pool db' ! j) \<Longrightarrow> own' tx_id = Some j"
  shows "ids_ok own' n (calls[i := c]) db'"
proof -
  let ?a = "ds_tx_id_allocator (db_state db)"
  have other: "opening_ok own' db' (calls ! j)" if "j < length calls" "j \<noteq> i" for j
  proof (rule opening_ok_mono[OF ids_okD(4)[OF ok nth_mem[OF that(1)]]])
    show "own' tx_id = own tx_id" if "opening_id (calls ! j) = Some tx_id" for tx_id
      using own ids_okD(3)[OF ok \<open>j < length calls\<close> i(1) \<open>j \<noteq> i\<close> that] .
  qed (use ids_okD(1)[OF ok] pool mono in simp_all)
  have count: "length (filter past_start (calls[i := c])) = length (filter past_start calls)"
    using length_filter_update[OF i(1), of past_start c] i by simp
  have "opening_id ((calls[i := c]) ! k) \<noteq> Some tx_id"
    if "j < length calls" "k < length calls" "j \<noteq> k" "opening_id ((calls[i := c]) ! j) = Some tx_id" for j k tx_id
  proof -
    have "opening_id ((calls[i := c]) ! m) = opening_id (calls ! m) \<or> opening_id ((calls[i := c]) ! m) = None"
      if "m < length calls" for m using id that by (cases "m = i") auto
    then show ?thesis using that ids_okD(3)[OF ok that(1-3)] by (metis option.distinct(1))
  qed
  moreover have "opening_ok own' db' d \<and> (\<forall>tx_id. opening_id d = Some tx_id \<longrightarrow> tx_id < ?a)"
    if "d \<in> set (calls[i := c])" for d
  proof -
    obtain j where j: "j < length calls" "d = (calls[i := c]) ! j"
      using \<open>d \<in> set _\<close> by (auto simp: in_set_conv_nth)
    show ?thesis
      using j other[of j] c id ids_okD(5)[OF ok nth_mem[OF i(1)]] ids_okD(5)[OF ok nth_mem[OF j(1)]]
      by (cases "j = i") auto
  qed
  moreover have "tx_id < ?a" if "tx_id \<in> dom own'" for tx_id
  proof (cases "opening_id (calls ! i) = Some tx_id")
    case True
    then show ?thesis using ids_okD(5)[OF ok nth_mem[OF i(1)]] by simp
  next
    case False
    then show ?thesis using own[of tx_id] ids_okD(6)[OF ok] that by (auto simp: domIff)
  qed
  ultimately show ?thesis
    using ok pool known count by (simp add: ids_ok_def)
qed

lemma fetch_add_ids:
  assumes ok: "ids_ok own n calls db" and i: "i < length calls" "calls ! i = Open_start mode"
    and room: "length calls < 2 ^ 64 - 1"
    and step: "transaction_step get_visible_ts (calls ! i) db = (c, db')"
  shows "ids_ok own n (calls[i := c]) db'"
proof -
  let ?a = "ds_tx_id_allocator (db_state db)"
  have c: "c = Open_id mode ?a" and db': "db_pool db' = db_pool db"
    "ds_tx_id_allocator (db_state db') = ?a + 1" using step i(2) by (auto simp: Let_def)
  have count: "length (filter past_start (calls[i := c])) = Suc (length (filter past_start calls))"
    using length_filter_update[OF i(1), of past_start c] i(2) c by simp
  have "length (filter past_start (calls[i := c])) \<le> length calls" by (metis length_filter_le length_list_update)
  then have "Suc (unat ?a) < 2 ^ 64" using ok count room by (simp add: ids_ok_def)
  then have a1: "unat (?a + 1) = Suc (unat ?a)"
    by (simp add: unat_word_ariths)
  then have less: "tx_id < ?a + 1 \<longleftrightarrow> tx_id \<le> ?a" for tx_id
    by (simp add: word_less_nat_alt word_le_nat_alt less_Suc_eq_le)
  have old: "opening_id (calls ! j) \<noteq> Some ?a" if "j < length calls" for j
    using ids_okD(5)[OF ok nth_mem[OF that]] by blast
  have own: "own ?a = None" using ids_okD(6)[OF ok, of ?a] by (cases "own ?a") auto
  have frame: "opening_ok own db' d" if "opening_ok own db d" for d
    using that by (rule opening_ok_mono) (simp_all add: db'(1))
  have "opening_id ((calls[i := c]) ! k) \<noteq> Some tx_id"
    if "j < length calls" "k < length calls" "j \<noteq> k" "opening_id ((calls[i := c]) ! j) = Some tx_id" for j k tx_id
    using that old[of j] old[of k] ids_okD(3)[OF ok, of j k] c
    by (cases "j = i"; cases "k = i") auto
  moreover have "opening_ok own db' d \<and> (\<forall>tx_id. opening_id d = Some tx_id \<longrightarrow> tx_id \<le> ?a)"
    if "d \<in> set (calls[i := c])" for d
  proof -
    have "d = c \<or> d \<in> set calls" using that set_update_subset_insert[of calls i c] by auto
    then show ?thesis
      using frame ids_okD(4,5)[OF ok, of d] c own by (auto intro: less_imp_le)
  qed
  moreover have "tx_id \<le> ?a" if "tx_id \<in> dom own" for tx_id
    using ids_okD(6)[OF ok] that by (auto intro: less_imp_le)
  ultimately show ?thesis
    using ok count a1 by (simp add: ids_ok_def db' less)
qed

lemma transaction_step_ids:
  fixes calls :: "'e transaction_call list"
  assumes ok: "ids_ok own n calls db" and i: "i < length calls" and room: "length calls < 2 ^ 64 - 1"
    and step: "transaction_step get_visible_ts (calls ! i) db = (c, db')"
  shows "\<exists>own'. ids_ok own' n (calls[i := c]) db'"
proof (cases "calls ! i")
  case (Open_start mode)
  then show ?thesis using fetch_add_ids[OF ok i _ room step] by blast
next
  case (Open_id mode tx_id)
  have n: "length (db_pool db) = n" and none: "own tx_id = None"
    using ok i Open_id nth_mem[OF i] by (auto simp: ids_ok_def)
  have db': "db_pool db' = db_pool db" "db_state db' = db_state db"
    using step Open_id by (auto simp: Let_def split: if_splits)
  have unknown: "tx_id \<notin> worker_ids (db_pool db ! j)" if "j < n" for j
    using ok none that by (auto simp: ids_ok_def)
  show ?thesis
  proof (cases "db_pool db = []")
    case True
    then have "c = Open_done Panicked" using step Open_id by (simp add: Let_def)
    then have "ids_ok own n (calls[i := c]) db'"
      using ok n by (intro ids_ok_step[OF ok i]) (auto simp: Open_id db' ids_ok_def)
    then show ?thesis by blast
  next
    case False
    then have c: "c = Open_idx mode tx_id (unat (db_pool_rr db) mod n)" "0 < n"
      using step Open_id n by (auto simp: Let_def)
    let ?own = "own(tx_id \<mapsto> unat (db_pool_rr db) mod n)"
    have "ids_ok ?own n (calls[i := c]) db'"
      using ok n c unknown by (intro ids_ok_step[OF ok i]) (auto simp: Open_id db' ids_ok_def)
    then show ?thesis by blast
  qed
next
  case (Open_idx mode tx_id idx)
  have n: "length (db_pool db) = n" and own: "own tx_id = Some idx" "idx < n"
    using ok i Open_idx nth_mem[OF i] by (auto simp: ids_ok_def)
  obtain r where send: "send idx (Start_transaction mode tx_id) db = (r :: 'e db_error + unit, db')"
    using step Open_idx by (auto split: prod.splits sum.splits)
  have c: "c = (case r of Inl e \<Rightarrow> Open_done (Returned (Inl e)) | Inr _ \<Rightarrow> Open_sent mode tx_id idx)"
    using step Open_idx send by (auto split: sum.splits)
  note ids = send_ids[OF send, unfolded n, OF own(2)]
  have "ids_ok own n (calls[i := c]) db'"
    using ok own ids n c by (intro ids_ok_step[OF ok i]) (auto simp: Open_idx ids_ok_def split: sum.splits if_splits)
  then show ?thesis by blast
next
  case (Open_sent mode tx_id idx)
  then have "opening_ok own db (Open_sent mode tx_id idx :: 'e transaction_call)"
    using ok nth_mem[OF i] by (auto simp: ids_ok_def)
  moreover have "db' = db" using step Open_sent by (auto split: sum.splits)
  ultimately have "ids_ok own n (calls[i := c]) db'"
    using ok step by (intro ids_ok_step[OF ok i]) (auto simp: Open_sent ids_ok_def split: sum.splits)
  then show ?thesis by blast
next
  case (Open_done r)
  then have "calls[i := c] = calls" "db' = db" using step list_update_id[of calls i] by auto
  then show ?thesis using ok by auto
qed

lemma db_run_ids:
  "db_run get_ts get_visible_ts n calls db \<Longrightarrow> length calls < 2 ^ 64 - 1 \<Longrightarrow>
    \<exists>own. ids_ok own n calls db"
proof (induction rule: db_run.induct)
  case (run_new datastore config db)
  then have "ids_ok Map.empty n ([] :: 'b transaction_call list) db"
    by (auto simp: database_new_def ids_ok_def worker_ids_def worker_new_def)
  then show ?case by blast
next
  case (run_call calls db mode)
  then obtain own where ok: "ids_ok own n calls db" by auto
  have old: "j < length calls \<and> opening_id (calls ! j) = Some tx_id"
    if "j < Suc (length calls)" "opening_id ((calls @ [Open_start mode]) ! j) = Some tx_id" for j tx_id
    using that by (cases "j < length calls") (simp_all add: nth_append)
  have "opening_id ((calls @ [Open_start mode]) ! j) \<noteq> Some tx_id"
    if "i < Suc (length calls)" "j < Suc (length calls)" "i \<noteq> j"
      "opening_id ((calls @ [Open_start mode]) ! i) = Some tx_id" for i j tx_id
    using old[OF that(1,4)] old[OF that(2)] ids_okD(3)[OF ok _ _ that(3)] by blast
  then have "ids_ok own n (calls @ [Open_start mode]) db"
    using ok by (simp add: ids_ok_def del: nth_append)
  then show ?case by blast
next
  case (run_step calls db i c db')
  then obtain own where "ids_ok own n calls db" by auto
  then show ?case using transaction_step_ids[OF _ run_step.hyps(2) _ run_step.hyps(3)] run_step.prems by simp
next
  case (run_request calls db t cmd r db')
  then obtain own where ok: "ids_ok own n calls db" by auto
  then have "tr_worker t < length (db_pool db)" using run_request.hyps(2) by (auto simp: ids_ok_def)
  note same = request_ids[OF run_request.hyps(4) this run_request.hyps(3)]
  have "ids_ok own n calls db'" using same by (intro ids_ok_frame[OF ok]) simp_all
  then show ?case by blast
next
  case (run_round calls db i)
  then obtain own where ok: "ids_ok own n calls db" by auto
  then have "i < length (db_pool db)" using run_round.hyps by (simp add: ids_ok_def)
  then have "ids_ok own n calls (worker_round i db)"
    by (intro ids_ok_frame[OF ok]) (simp_all add: worker_round_ids)
  then show ?case by blast
next
  case (run_datastore calls db ds)
  then obtain own where ok: "ids_ok own n calls db" by auto
  have "ids_ok own n calls (db\<lparr>db_datastore := ds\<rparr>)" by (rule ids_ok_frame[OF ok]) simp_all
  then show ?case by blast
qed

lemma handle_of_iff: "handle_of c = Some t \<longleftrightarrow> c = Open_done (Returned (Inr t))"
  by (cases c rule: handle_of.cases) auto

lemma handles_simps [simp]:
  "handles [] = []"
  "handles (c # calls) = (case handle_of c of None \<Rightarrow> handles calls | Some t \<Rightarrow> t # handles calls)"
  by (simp_all add: handles_def List.map_filter_def split: option.split)

lemma set_handles: "t \<in> set (handles calls) \<longleftrightarrow> Open_done (Returned (Inr t)) \<in> set calls"
  by (force simp: handles_def List.map_filter_def handle_of_iff)

lemma distinct_handles:
  assumes "\<And>i j tx_id. i < length calls \<Longrightarrow> j < length calls \<Longrightarrow> i \<noteq> j \<Longrightarrow>
    opening_id (calls ! i) = Some tx_id \<Longrightarrow> opening_id (calls ! j) \<noteq> Some tx_id"
  shows "distinct (map tr_tx_id (handles calls))"
  using assms
proof (induction calls)
  case (Cons c calls)
  have "opening_id d \<noteq> Some tx_id" if "d \<in> set calls" "opening_id c = Some tx_id" for d tx_id
  proof -
    from that(1) obtain j where "j < length calls" "calls ! j = d" unfolding in_set_conv_nth by blast
    then show ?thesis using Cons.prems[of 0 "Suc j" tx_id] that(2) by simp
  qed
  then have "tr_tx_id t \<notin> tr_tx_id ` set (handles calls)" if "handle_of c = Some t" for t
    using that by (force simp: set_handles handle_of_iff)
  moreover have "distinct (map tr_tx_id (handles calls))"
    by (rule Cons.IH) (use Cons.prems[of "Suc _" "Suc _"] in simp)
  ultimately show ?case
    by (simp split: option.split)
qed simp

text \<open>C20. In every run with fewer than \<open>2 ^ 64 - 1\<close> calls of \<open>transaction\<close>, where the steps of the
  calls, requests, the workers' rounds and changes of the datastore interleave in any way, no two
  handles have the same transaction id; the id of a handle is known, in its map or in its channel,
  to the worker the handle talks to and to no other; and no id is known to two workers.\<close>

theorem transaction_ids_unique:
  assumes "db_run get_ts get_visible_ts n calls db" "length calls < 2 ^ 64 - 1"
  shows "distinct (map tr_tx_id (handles calls)) \<and>
    (\<forall>t \<in> set (handles calls). tr_worker t < n \<and>
       (\<forall>i < n. tr_tx_id t \<in> worker_ids (db_pool db ! i) \<longleftrightarrow> i = tr_worker t)) \<and>
    (\<forall>i < n. \<forall>j < n. i \<noteq> j \<longrightarrow>
       worker_ids (db_pool db ! i) \<inter> worker_ids (db_pool db ! j) = {})"
proof -
  obtain own where ok: "ids_ok own n calls db" using db_run_ids[OF assms] by blast
  have "own (tr_tx_id t) = Some (tr_worker t) \<and> tr_worker t < n \<and>
      tr_tx_id t \<in> worker_ids (db_pool db ! tr_worker t)" if "t \<in> set (handles calls)" for t
    using ok that by (auto simp: ids_ok_def set_handles)
  moreover have "own tx_id = Some i" if "tx_id \<in> worker_ids (db_pool db ! i)" "i < n" for tx_id i
    using ok that by (auto simp: ids_ok_def)
  moreover have "distinct (map tr_tx_id (handles calls))"
    by (rule distinct_handles) (rule ids_okD(3)[OF ok])
  ultimately show ?thesis by (metis disjoint_iff option.inject)
qed

section \<open>A sample run\<close>

definition sample_db :: "unit database" where
  "sample_db = \<lparr>db_datastore = (),
     db_state = \<lparr>ds_read_transactions = {}, ds_write_transactions = {},
       ds_committed_sets = Map.empty, ds_min_read_ts = 5, ds_min_write_ts = 5,
       ds_tx_id_allocator = 1\<rparr>,
     db_pool = [worker_new, worker_new], db_pool_rr = 0, db_responders = 0, db_dropped = {}\<rparr>"

definition sample_handle :: "nat \<Rightarrow> transaction_handle" where
  "sample_handle i = \<lparr>tr_tx_id = word_of_nat (Suc i), tr_start_ts = 5, tr_mode = Read_write,
     tr_worker = i\<rparr>"

text \<open>Two calls: the second takes its place in the round robin before the first does.\<close>

definition crossed_handle :: "nat \<Rightarrow> transaction_handle" where
  "crossed_handle i = (sample_handle i)\<lparr>tr_worker := 1 - i\<rparr>"

lemma crossed_run:
  "\<exists>db. db_run (\<lambda>_ :: unit. Inr 5 :: unit storage_error + TS)
    (\<lambda>_. Inr 5 :: unit storage_error + TS) 2
    [Open_done (Returned (Inr (crossed_handle 0))), Open_done (Returned (Inr (crossed_handle 1)))] db"
proof -
  let ?ts = "\<lambda>_ :: unit. Inr 5 :: unit storage_error + TS"
  let ?start = "Open_start Read_write :: unit transaction_call"
  define steps where "steps = [0, 1, 1, 0, 0, 1, 0, 1 :: nat]"
  define step where "step = (\<lambda>i (calls, db). let (c, db') = transaction_step ?ts (calls ! i) db in (calls[i := c], db'))"
  have 0: "db_run ?ts ?ts 2 [?start, ?start] sample_db"
    using run_call[OF run_call[OF run_new[of ?ts "()" "\<lparr>thread_pool_size = 2, max_transaction_duration = 0\<rparr>"]]]
    by (simp add: database_new_def sample_db_def numeral_2_eq_2)
  have run: "db_run ?ts ?ts 2 (fst (fold step is x)) (snd (fold step is x))"
    if "db_run ?ts ?ts 2 (fst x) (snd x)" "length (fst x) = 2" "set is \<subseteq> {0, 1}" for x "is"
    using that
  proof (induction "is" arbitrary: x)
    case (Cons i "is")
    obtain c db' where c: "transaction_step ?ts (fst x ! i) (snd x) = (c, db')" by force
    have "db_run ?ts ?ts 2 ((fst x)[i := c]) db'"
      using Cons.prems by (intro run_step[OF Cons.prems(1) _ c]) auto
    then show ?case using Cons.IH[of "step i x"] Cons.prems c by (simp add: step_def case_prod_beta)
  qed simp
  have "fst (fold step steps ([?start, ?start], sample_db)) =
    [Open_done (Returned (Inr (crossed_handle 0))), Open_done (Returned (Inr (crossed_handle 1)))]"
    by (simp add: steps_def step_def send_def sample_db_def worker_new_def sample_handle_def
        crossed_handle_def Let_def)
  then show ?thesis using run[of "([?start, ?start], sample_db)" steps] 0
    by (auto simp: steps_def)
qed

theorem transaction_ids_unique_witness:
  "\<exists>db. db_run (\<lambda>_ :: unit. Inr 5 :: unit storage_error + TS)
      (\<lambda>_. Inr 5 :: unit storage_error + TS) 2
      [Open_done (Returned (Inr (crossed_handle 0))), Open_done (Returned (Inr (crossed_handle 1)))] db \<and>
    1 \<in> worker_ids (db_pool db ! 1) \<and> 1 \<notin> worker_ids (db_pool db ! 0) \<and>
    2 \<in> worker_ids (db_pool db ! 0) \<and> 2 \<notin> worker_ids (db_pool db ! 1)"
proof -
  let ?calls = "[Open_done (Returned (Inr (crossed_handle 0))), Open_done (Returned (Inr (crossed_handle 1)))]
    :: unit transaction_call list"
  obtain db where run: "db_run (\<lambda>_ :: unit. Inr 5 :: unit storage_error + TS)
    (\<lambda>_. Inr 5 :: unit storage_error + TS) 2 ?calls db" using crossed_run by blast
  have "handles ?calls = [crossed_handle 0, crossed_handle 1]"
    by simp
  then show ?thesis using transaction_ids_unique[OF run] run
    by (auto simp: crossed_handle_def sample_handle_def)
qed


theorem requests_get_no_answer_witness:
  "\<exists>tx db. send_commit (sample_handle 0) sample_db = (Inr tx :: unit db_error + nat, db) \<and>
     (await tx (foldl (\<lambda>d j. worker_round j d) db [1, 0]) :: (unit db_error + unit) option)
       = Some (Inl Worker_unavailable)"
proof -
  obtain db where r: "request (sample_handle 0) (Commit_transaction 1) sample_db
      = (Inr 0 :: unit db_error + nat, db)"
    by (simp add: request_def send_def sample_db_def sample_handle_def worker_new_def Let_def)
  from requests_get_no_answer[OF _ _ r, of "[1, 0]"] r show ?thesis
    by (auto simp: send_commit_def sample_handle_def sample_db_def worker_new_def)
qed

end
