(* ===== verification/Spec2Isabelle.thy ===== *)
theory Spec2Isabelle
  imports Codec_Properties Document_Properties Engine_Properties Session_Properties Front_End
begin

text \<open>
  otterlake_db is an embedded document database in Rust. The crate \<open>storage\<close>
  (\<open>crates/storage/src\<close>) keeps versioned documents, index entries and two catalogs in LMDB, through
  the crate \<open>heed3\<close>; the crate \<open>database\<close> (\<open>crates/database/src\<close>) has the document values
  with their serde bridge, the encoding of index keys, the query builder and the front end of
  databases, transactions and worker threads. This library models both in HOL and proves what
  they promise.

  \<^bold>\<open>How the parts interact.\<close> A transaction takes an LMDB snapshot and a timestamp, collects its
  writes in a write set and reads through it. The write set goes to \<open>put\<close>, which applies it as one
  LMDB write transaction: new collections and indexes get ids, every document gets a version at the
  batch's timestamp, index entries go into a trie of key segments, and the counters are saved. The
  query builder turns filters over index fields into ranges of encoded keys for the index scan.
  Rust values become documents, and documents Rust values, through calls to serde. A transaction
  handle sends its requests to one worker thread of the pool and waits for the answer.

  \<^bold>\<open>Theories\<close>, in the order of the imports:
  \<^item> \<open>Prelude\<close>: results (\<open>and_then\<close>), state-and-error actions (\<open>act\<close>), byte strings in
    lexicographic order, big-endian integers, and \<open>btree\<close>, a \<open>BTreeMap\<close> as a sorted list.
  \<^item> \<open>Types\<close> (\<open>types.rs\<close>, \<open>error.rs\<close>): ids, positions, directions, starts, errors, key ranges.
  \<^item> \<open>Storage_Encoding\<close> (\<open>implementations/heed/encoding.rs\<close>): the encoders and decoders of keys and
    values. The locale \<open>exact_codec\<close> (a decoder accepts exactly the encodings) and its extension
    \<open>ordered_codec\<close> (byte order is the order of the values) are interpreted on all of them.
  \<^item> \<open>Heed\<close>: \<open>heed3\<close> as a record of functions, with its documented behaviour as \<open>heed_laws\<close> and a
    concrete store \<open>log_heed\<close> that obeys them.
  \<^item> \<open>Write_Set\<close> (\<open>write_set.rs\<close>): the batch and its operations, and what it says as maps (\<open>ws_maps\<close>).
  \<^item> \<open>Versions\<close>: multi-version rows; the locale \<open>versioned\<close> says when the greatest key at or below
    a bound is the newest version, and is interpreted on documents and on collection rows.
  \<^item> \<open>Cursor\<close> (\<open>traits.rs\<close>): cursors as functions on their state. \<open>yields nx c xs\<close> says that the
    cursor returns exactly \<open>xs\<close> and then ends; the loops shared by the cursors and the merge of
    stored and pending entries are proved once.
  \<^item> \<open>Documents\<close> (\<open>cursors.rs\<close>, \<open>transaction.rs\<close>): the read of a document and \<open>HeedDocumentCursor\<close>.
  \<^item> \<open>Transaction\<close>, \<open>Transaction_Index\<close>, \<open>Transaction_Catalog\<close> (\<open>transaction.rs\<close>): the transaction,
    its writes and reads, and the merged scans of documents, of an index and of the two catalogs.
  \<^item> \<open>Engine_State\<close>, \<open>Index_Trie\<close>, \<open>Engine\<close> (\<open>datastore.rs\<close>): the state of the engine, the segmented
    index trie, catalogs, counters, timestamps and \<open>put\<close>. \<open>Index_Cursor\<close> (\<open>cursors.rs\<close>) walks the
    trie with a stack of frames. \<open>Engine_Open\<close> opens the environment, its databases and the
    counters over parameters for the calls on the file system and on \<open>heed3\<close>'s environment.
  \<^item> \<open>Engine_Catalog\<close>, \<open>Engine_Batch\<close>, \<open>Engine_Index_Catalog\<close>, \<open>Engine_Recovery\<close>: what a batch does
    to the collection catalogs, to the store as a whole, to the catalog of indexes, and what is on
    disk afterwards.
  \<^item> \<open>Engine_Liveness\<close>: on a store whose calls with legal keys succeed, a batch that is not stale and
    is \<open>batch_legal\<close> commits. \<open>Engine_Runs\<close>: the calls of \<open>put\<close>, \<open>set_ts\<close>, \<open>set_visible_ts\<close> and
    \<open>flush\<close> as \<open>engine_call\<close>, sequences of them, and the abstract store they refine, a \<open>history\<close>:
    the ids of the collections by name, and what a reader sees at each timestamp (\<open>abstract_run\<close>).
  \<^item> \<open>Traits\<close> (\<open>traits.rs\<close>): the traits \<open>Datastore\<close> and \<open>DatastoreTransaction\<close> as records of their
    methods, the implementation over \<open>heed3\<close> as values of them, and the locale
    \<open>datastore_contract\<close>, in which a client's session (open, write, commit, open again) is proved
    correct. \<open>heed_contract\<close> shows that the implementation keeps the contract on every store that
    obeys \<open>heed_laws\<close>.
  \<^item> \<open>Document\<close>, \<open>Conversions\<close>, \<open>Float_Text\<close>, \<open>Serde\<close> (\<open>document.rs\<close>): document values, their
    conversions from and to Rust's numbers, booleans, options, strings and lists (the casts, the
    parsing and the shortest printing of IEEE floats included), and the \<open>Serializer\<close> and
    \<open>Deserializer\<close> of values. A Rust value is given to the serializer as the tree of calls it makes
    (\<open>ser\<close>); a type's visitor is a function of the call the deserializer makes on it (\<open>visit\<close>), of
    which the theorems assume nothing.
  \<^item> \<open>Key_Encoding\<close> (\<open>database/src/encoding.rs\<close>), \<open>Db_Error\<close> (\<open>error.rs\<close>), \<open>Query\<close> (\<open>query.rs\<close>,
    \<open>query/builder.rs\<close>): the order-preserving key encoding, the errors of the database crate, the
    query builder with its terminal operations.
  \<^item> \<open>Front_End\<close> (\<open>database.rs\<close>, \<open>transaction.rs\<close>, \<open>worker.rs\<close>, \<open>command.rs\<close>, \<open>state.rs\<close>,
    \<open>read_set.rs\<close>, \<open>write_set.rs\<close>, \<open>config.rs\<close>): the handles, the workers with the queues of their channels,
    \<open>Database::transaction\<close> taken apart at its atomic operations (\<open>transaction_step\<close>), and the relation
    \<open>db_run\<close>, in which the steps of any number of calls, requests and workers interleave.
  \<^item> \<open>Sample_Runs\<close> has concrete runs for the witnesses; \<open>Engine_Properties\<close>, \<open>Catalog_Properties\<close>,
    \<open>Session_Properties\<close>, \<open>Codec_Properties\<close>, \<open>Document_Properties\<close> and \<open>Front_End\<close> state the properties.

  \<^bold>\<open>What is shown.\<close> For the engine: a committed batch is a snapshot (readers
  before its timestamp see what they saw, later ones its last writes), the invariant of the store
  is kept, failures leave the databases alone, the timestamp never goes back, and opening the
  store again after calls that all returned restores the state. Any sequence of calls refines an
  abstract history in which only committed batches change what readers at or after their timestamp
  see, and a legal batch does commit. What a session wrote is what readers after its commit see,
  over what others committed in between; without such commits they read and scan what the session
  did. For the trie: its operations refine insertion into and removal from a set of (index, key,
  document). For the scans: each visits, under the conditions stated there, exactly what the point
  reads of the same transaction return, in order, and ends; those of documents and of the catalogs
  end on any store. For the codecs: exact round trips, and byte order equals logical order. For
  the query builder: the key range of an index filter selects exactly the entries that satisfy it,
  under the stated condition on the range field. A lowered filter is the same tree with encoded
  operands, or the error of the first operand without a code. For write sets: each operation
  changes what it names and nothing else. For documents: what is serialized reads back, enums
  included, integer conversions are exact or report an overflow, and floats survive their text and
  their casts. For the front end: transaction ids are unique in every interleaving, and every
  request but the start of a transaction fails, as the arms of the worker are empty. Other
  theorems exhibit defects of the code: bounds of indexes with trailing fields, the timestamp lost
  by a retried commit, temporary index ids that stand for their last declaration in whatever
  collection, float conversions that saturate where they should report an overflow, unsigned
  integers stored as negative ones, and a commit that is followed by a second one when its handle
  is dropped.

  \<^bold>\<open>Modelling choices.\<close> Integers have their width (\<open>u64\<close>, \<open>u128\<close> as words, \<open>i64\<close> as bits read as
  signed); ids are allocated with wrap-around, and the theorems about a batch assume room for the
  ids it needs (\<open>batch_room\<close>, \<open>index_id_room\<close>: fewer than \<open>2 ^ 63\<close>). Strings are their UTF-8 bytes.
  A loop that the types do not bound is \<open>partial_function (option)\<close>, and the scans prove that it
  ends; there is no fuel. An LMDB iterator is the list of results it still has to give; a read
  transaction is the value of the databases at the time it was opened. The atomics of the engine are
  fields outside the LMDB transaction, so an abort does not restore them; as LMDB admits one writer
  at a time, the operations of writers do not interleave. Index entries carry no version: an index
  scan of a transaction reads the trie of its snapshot, and only the documents are read at its
  timestamp. The environment is opened without syncing, so durability is that of the last
  \<open>flush\<close>; the model speaks of the committed state.

  \<^bold>\<open>Not modelled.\<close> The file system and the environment of LMDB themselves (their calls are
  parameters), the messages of errors built with \<open>format!\<close> beyond their arguments, and the
  \<open>wal\<close> crate, a template whose one function adds two numbers.
\<close>

end
